(* ===== verification/Prelude.thy ===== *)
theory Prelude
  imports Main "HOL-Library.Word" "HOL-Library.Signed_Division"
begin

unbundle bit_operations_syntax

text \<open>
  The vocabulary every component of the development shares: bytes and byte strings as Go has
  them, nil-able slices, the big-endian readers and writers of \<open>encoding/binary\<close> and of the
  hand-written shifts in the sources, decimal rendering as \<open>strconv.AppendInt\<close> does it, and the
  list lemmas the component proofs use. Go's \<open>string\<close> and \<open>[]byte\<close> are both byte sequences and
  are both \<open>bytes\<close> here; a slice that may be \<open>nil\<close> (an SQL NULL cell) is \<open>bytes option\<close>.
\<close>

named_theorems wire_simps \<open>reading and writing of fixed-width integers\<close>
named_theorems append_law \<open>every Append function extends the buffer it is given\<close>
named_theorems json_intro \<open>introduction rules for well-formed JSON\<close>

section \<open>Bytes\<close>

type_synonym byte = "8 word"
type_synonym bytes = "byte list"

text \<open>A Go string literal.\<close>

definition bs :: "string \<Rightarrow> bytes" where
  "bs s = map of_char s"

lemma bs_Nil [simp]: "bs [] = []"
  by (simp add: bs_def)

lemma bs_Cons [simp]: "bs (c # cs) = of_char c # bs cs"
  by (simp add: bs_def)

lemma length_bs [simp]: "length (bs s) = length s"
  by (simp add: bs_def)

lemma unat_byte_lt [simp]: "unat (b :: byte) < 256"
  by (rule order_less_le_trans [OF unsigned_less]) simp

lemma byte_cases: "\<exists>n < 256. (b :: byte) = word_of_nat n"
  by (rule exI [of _ "unat b"]) (use unsigned_less [of b] in simp)

section \<open>Big-endian integers\<close>

text \<open>\<open>binary.BigEndian.Uint16/32/64\<close>, and the same shifts written out in the sources.\<close>

definition beU16 :: "bytes \<Rightarrow> 16 word" where
  "beU16 b = push_bit 8 (ucast (b ! 0)) OR ucast (b ! 1)"

definition beU32 :: "bytes \<Rightarrow> 32 word" where
  "beU32 b = push_bit 24 (ucast (b ! 0)) OR push_bit 16 (ucast (b ! 1))
             OR push_bit 8 (ucast (b ! 2)) OR ucast (b ! 3)"

definition beU64 :: "bytes \<Rightarrow> 64 word" where
  "beU64 b = push_bit 56 (ucast (b ! 0)) OR push_bit 48 (ucast (b ! 1))
             OR push_bit 40 (ucast (b ! 2)) OR push_bit 32 (ucast (b ! 3))
             OR push_bit 24 (ucast (b ! 4)) OR push_bit 16 (ucast (b ! 5))
             OR push_bit 8 (ucast (b ! 6)) OR ucast (b ! 7)"

definition putU16 :: "16 word \<Rightarrow> bytes" where
  "putU16 v = [ucast (drop_bit 8 v), ucast v]"

definition putU32 :: "32 word \<Rightarrow> bytes" where
  "putU32 v = [ucast (drop_bit 24 v), ucast (drop_bit 16 v), ucast (drop_bit 8 v), ucast v]"

definition putU64 :: "64 word \<Rightarrow> bytes" where
  "putU64 v = [ucast (drop_bit 56 v), ucast (drop_bit 48 v), ucast (drop_bit 40 v),
               ucast (drop_bit 32 v), ucast (drop_bit 24 v), ucast (drop_bit 16 v),
               ucast (drop_bit 8 v), ucast v]"

text \<open>Go's conversions \<open>int16(u)\<close>, \<open>int32(u)\<close>, \<open>int64(u)\<close> of an unsigned word.\<close>

definition beI16 :: "bytes \<Rightarrow> int" where
  "beI16 b = sint (beU16 b)"

definition beI32 :: "bytes \<Rightarrow> int" where
  "beI32 b = sint (beU32 b)"

definition beI64 :: "bytes \<Rightarrow> int" where
  "beI64 b = sint (beU64 b)"

lemma length_put [simp]:
  "length (putU16 v) = 2" "length (putU32 w) = 4" "length (putU64 x) = 8"
  by (simp_all add: putU16_def putU32_def putU64_def)

lemma beU16_put [simp, wire_simps]: "beU16 (putU16 v @ r) = v"
proof (rule bit_word_eqI)
  fix n assume "n < LENGTH(16)"
  then show "bit (beU16 (putU16 v @ r)) n = bit v n"
    by (cases "n < 8") (auto simp: beU16_def putU16_def bit_simps)
qed

lemma beU32_put [simp, wire_simps]: "beU32 (putU32 v @ r) = v"
proof (rule bit_word_eqI)
  fix n assume n: "n < LENGTH(32)"
  then consider "n < 8" | "8 \<le> n" "n < 16" | "16 \<le> n" "n < 24" | "24 \<le> n" by linarith
  then show "bit (beU32 (putU32 v @ r)) n = bit v n"
    by cases (use n in \<open>auto simp: beU32_def putU32_def bit_simps\<close>)
qed

lemma beU64_put [simp, wire_simps]: "beU64 (putU64 v @ r) = v"
proof (rule bit_word_eqI)
  fix n assume n: "n < LENGTH(64)"
  then consider "n < 8" | "8 \<le> n" "n < 16" | "16 \<le> n" "n < 24" | "24 \<le> n" "n < 32"
    | "32 \<le> n" "n < 40" | "40 \<le> n" "n < 48" | "48 \<le> n" "n < 56" | "56 \<le> n" by linarith
  then show "bit (beU64 (putU64 v @ r)) n = bit v n"
    by cases (use n in \<open>auto simp: beU64_def putU64_def bit_simps\<close>)
qed

lemmas be_put_nil [simp, wire_simps] =
  beU16_put [where r = "[]", simplified] beU32_put [where r = "[]", simplified]
  beU64_put [where r = "[]", simplified]

lemma be_take [simp]:
  "2 \<le> n \<Longrightarrow> beU16 (take n b) = beU16 b"
  "4 \<le> n \<Longrightarrow> beU32 (take n b) = beU32 b"
  "8 \<le> n \<Longrightarrow> beU64 (take n b) = beU64 b"
  by (simp_all add: beU16_def beU32_def beU64_def)

lemma beI16_bounds: "- (2 ^ 15) \<le> beI16 b" "beI16 b < 2 ^ 15"
  using sint_ge [of "beU16 b"] sint_lt [of "beU16 b"] by (simp_all add: beI16_def)

lemma beI32_bounds: "- (2 ^ 31) \<le> beI32 b" "beI32 b < 2 ^ 31"
  using sint_ge [of "beU32 b"] sint_lt [of "beU32 b"] by (simp_all add: beI32_def)

lemma beI64_bounds: "- (2 ^ 63) \<le> beI64 b" "beI64 b < 2 ^ 63"
  using sint_ge [of "beU64 b"] sint_lt [of "beU64 b"] by (simp_all add: beI64_def)

text \<open>Writing a signed value in range and reading it back.\<close>

lemma sint_of_int_in_range:
  assumes "- (2 ^ (LENGTH('a::len) - 1)) \<le> i" "i < 2 ^ (LENGTH('a) - 1)"
  shows "sint (word_of_int i :: 'a word) = i"
  using assms by (simp add: signed_take_bit_int_eq_self sint_sbintrunc')

lemma beI32_put [simp, wire_simps]:
  "- (2 ^ 31) \<le> i \<Longrightarrow> i < 2 ^ 31 \<Longrightarrow> beI32 (putU32 (word_of_int i) @ r) = i"
  by (simp add: beI32_def) (rule sint_of_int_in_range, simp_all)

lemma beI16_put [simp, wire_simps]:
  "- (2 ^ 15) \<le> i \<Longrightarrow> i < 2 ^ 15 \<Longrightarrow> beI16 (putU16 (word_of_int i) @ r) = i"
  by (simp add: beI16_def) (rule sint_of_int_in_range, simp_all)

lemma beI64_put [simp, wire_simps]:
  "- (2 ^ 63) \<le> i \<Longrightarrow> i < 2 ^ 63 \<Longrightarrow> beI64 (putU64 (word_of_int i) @ r) = i"
  by (simp add: beI64_def) (rule sint_of_int_in_range, simp_all)

lemmas beI_put_nil [simp, wire_simps] =
  beI16_put [where r = "[]", simplified append_Nil2] beI32_put [where r = "[]", simplified append_Nil2]
  beI64_put [where r = "[]", simplified append_Nil2]

lemma beI32_put_nat: "n < 2 ^ 31 \<Longrightarrow> beI32 (putU32 (word_of_nat n) @ r) = int n"
  using beI32_put [of "int n" r] by simp

lemma beI16_put_nat: "n < 2 ^ 15 \<Longrightarrow> beI16 (putU16 (word_of_nat n) @ r) = int n"
  using beI16_put [of "int n" r] by simp

text \<open>Reading and writing back a 32-bit and a 16-bit integer.\<close>

lemma byte_high_bits: "8 \<le> k \<Longrightarrow> \<not> bit (b :: byte) (k + n)"
  using bit_imp_le_length [of b "k + n"] by auto

lemma putU32_beU32: "4 \<le> length b \<Longrightarrow> putU32 (beU32 b) = take 4 b"
proof -
  assume "4 \<le> length b"
  then obtain b0 b1 b2 b3 r where b: "b = b0 # b1 # b2 # b3 # r"
    by (metis Suc_le_length_iff numeral_eq_Suc pred_numeral_simps(2,3) semiring_norm(26,27) eval_nat_numeral(3))
  show ?thesis unfolding b putU32_def beU32_def
    by (auto intro!: bit_word_eqI simp: bit_simps byte_high_bits)
qed

lemma putU16_beU16: "2 \<le> length b \<Longrightarrow> putU16 (beU16 b) = take 2 b"
proof -
  assume "2 \<le> length b"
  then obtain b0 b1 r where b: "b = b0 # b1 # r" by (metis Suc_le_length_iff numeral_2_eq_2)
  show ?thesis unfolding b putU16_def beU16_def
    by (auto intro!: bit_word_eqI simp: bit_simps byte_high_bits)
qed

lemma putU32_beI32: "4 \<le> length b \<Longrightarrow> putU32 (word_of_int (beI32 b)) = take 4 b"
  by (simp add: beI32_def putU32_beU32)

lemma putU16_beI16: "2 \<le> length b \<Longrightarrow> putU16 (word_of_int (beI16 b)) = take 2 b"
  by (simp add: beI16_def putU16_beU16)

text \<open>Wrap-around of Go's \<open>int32\<close> and \<open>int64\<close> arithmetic.\<close>

definition s32 :: "int \<Rightarrow> int" where
  "s32 i = signed_take_bit 31 i"

definition s64 :: "int \<Rightarrow> int" where
  "s64 i = signed_take_bit 63 i"

lemma s32_id: "- (2 ^ 31) \<le> i \<Longrightarrow> i < 2 ^ 31 \<Longrightarrow> s32 i = i"
  by (simp add: s32_def signed_take_bit_int_eq_self)

lemma s64_id: "- (2 ^ 63) \<le> i \<Longrightarrow> i < 2 ^ 63 \<Longrightarrow> s64 i = i"
  by (simp add: s64_def signed_take_bit_int_eq_self)

section \<open>Decimal rendering\<close>

text \<open>\<open>strconv.AppendInt(dst, v, 10)\<close> and \<open>strconv.AppendUint(dst, v, 10)\<close>: the appended digits.\<close>

definition digit :: "nat \<Rightarrow> byte" where
  "digit d = word_of_nat (48 + d)"

fun dec_nat :: "nat \<Rightarrow> bytes" where
  "dec_nat n = (if n < 10 then [digit n] else dec_nat (n div 10) @ [digit (n mod 10)])"

declare dec_nat.simps [simp del]

definition dec_int :: "int \<Rightarrow> bytes" where
  "dec_int v = (if v < 0 then 45 # dec_nat (nat (- v)) else dec_nat (nat v))"

definition is_digit :: "byte \<Rightarrow> bool" where
  "is_digit c \<longleftrightarrow> 48 \<le> c \<and> c \<le> 57"

text \<open>Reading decimal digits back.\<close>

definition digit_val :: "byte \<Rightarrow> nat" where
  "digit_val c = unat c - 48"

definition dec_val :: "bytes \<Rightarrow> nat" where
  "dec_val s = foldl (\<lambda>a c. 10 * a + digit_val c) 0 s"

lemma unat_digit: "d < 10 \<Longrightarrow> unat (digit d) = 48 + d"
  unfolding digit_def unsigned_of_nat by (simp add: take_bit_eq_mod)

lemma digit_val_digit [simp]: "d < 10 \<Longrightarrow> digit_val (digit d) = d"
  by (simp add: digit_val_def unat_digit)

lemma is_digit_digit [simp]: "d < 10 \<Longrightarrow> is_digit (digit d)"
  by (simp add: is_digit_def word_le_nat_alt unat_digit)

lemma is_digit_unat: "is_digit c \<longleftrightarrow> 48 \<le> unat c \<and> unat c \<le> 57"
  by (simp add: is_digit_def word_le_nat_alt)

lemma digit_inj: "d < 10 \<Longrightarrow> e < 10 \<Longrightarrow> digit d = digit e \<longleftrightarrow> d = e"
  by (metis digit_val_digit)

lemma is_digit_ex: "is_digit c \<Longrightarrow> \<exists>d < 10. c = digit d"
  by (rule exI [of _ "digit_val c"])
     (auto simp: is_digit_unat digit_val_def digit_def intro!: word_unat_eq_iff [THEN iffD2])

lemma dec_val_append: "dec_val (s @ t) = dec_val s * 10 ^ length t + dec_val t"
proof (induction t rule: rev_induct)
  case Nil
  then show ?case by (simp add: dec_val_def)
next
  case (snoc c t)
  then show ?case by (simp add: dec_val_def algebra_simps)
qed

lemma dec_val_single [simp]: "dec_val [c] = digit_val c"
  by (simp add: dec_val_def)

lemma dec_val_Nil [simp]: "dec_val [] = 0"
  by (simp add: dec_val_def)

lemma dec_val_dec_nat [simp]: "dec_val (dec_nat n) = n"
proof (induction n rule: dec_nat.induct)
  case (1 n)
  then show ?case
    by (subst dec_nat.simps) (auto simp: dec_val_append)
qed

lemma dec_nat_digits: "\<forall>c \<in> set (dec_nat n). is_digit c"
proof (induction n rule: dec_nat.induct)
  case (1 n)
  then show ?case by (subst dec_nat.simps) auto
qed

lemma dec_nat_nonempty [simp]: "dec_nat n \<noteq> []"
  by (subst dec_nat.simps) auto

lemma dec_nat_head: "0 < n \<Longrightarrow> hd (dec_nat n) \<noteq> 48"
proof (induction n rule: dec_nat.induct)
  case (1 n)
  show ?case
  proof (cases "n < 10")
    case True
    then have "unat (hd (dec_nat n)) = 48 + n" by (simp add: dec_nat.simps [of n] unat_digit)
    with "1.prems" show ?thesis by auto
  next
    case False
    with 1 show ?thesis by (simp add: dec_nat.simps [of n] hd_append)
  qed
qed

lemma dec_nat_0 [simp]: "dec_nat 0 = [48]"
  by (simp add: dec_nat.simps [of 0] digit_def)

text \<open>The last \<open>w\<close> decimal digits of a number, with leading zeros.\<close>

fun pad :: "nat \<Rightarrow> nat \<Rightarrow> bytes" where
  "pad 0 n = []"
| "pad (Suc w) n = pad w (n div 10) @ [digit (n mod 10)]"

lemma length_pad [simp]: "length (pad w n) = w"
  by (induction w arbitrary: n) simp_all

lemma pad_digits: "list_all is_digit (pad w n)"
  by (induction w arbitrary: n) simp_all

lemma dec_val_pad: "dec_val (pad w n) = n mod 10 ^ w"
proof (induction w arbitrary: n)
  case (Suc w)
  then show ?case by (simp add: dec_val_append mod_mult2_eq)
qed simp

section \<open>Lists\<close>

lemma take_eq_take_drop: "i \<le> j \<Longrightarrow> take j xs = take i xs @ take (j - i) (drop i xs)"
  by (metis le_add_diff_inverse take_add)

lemma drop_conv_nth_drop: "i < length xs \<Longrightarrow> drop i xs = xs ! i # drop (Suc i) xs"
  by (rule Cons_nth_drop_Suc [symmetric])

text \<open>Joining with a separator: how every comma-separated output of the sources is built.\<close>

fun join :: "bytes \<Rightarrow> bytes list \<Rightarrow> bytes" where
  "join sep [] = []"
| "join sep [x] = x"
| "join sep (x # y # ys) = x @ sep @ join sep (y # ys)"

lemma join_Cons: "join sep (x # xs) = x @ concat (map (\<lambda>y. sep @ y) xs)"
  by (induction xs arbitrary: x) simp_all

end
