(* ===== verification/Json_Grammar.thy ===== *)
theory Json_Grammar
  imports Prelude
begin

text \<open>
  The abstract specification of what the driver promises to emit: JSON texts (RFC 8259) over
  bytes. Nothing here is translated from the sources; the component theories prove that their
  output satisfies it. As in \<open>internal/jsonwriter/writer.go\<close>, bytes from 0x80 up are string
  content (the server's encoding is trusted to be UTF-8), so the grammar is over bytes.

  The theory also has the reference decoder of a JSON string body, which the escaper is proved
  to be a right inverse of.
\<close>

section \<open>Lexical grammar\<close>

definition is_ws :: "bytes \<Rightarrow> bool" where
  "is_ws w \<longleftrightarrow> set w \<subseteq> {32, 9, 10, 13}"

definition is_hex :: "byte \<Rightarrow> bool" where
  "is_hex c \<longleftrightarrow> is_digit c \<or> (65 \<le> c \<and> c \<le> 70) \<or> (97 \<le> c \<and> c \<le> 102)"

text \<open>The body of a JSON string: plain bytes and escapes.\<close>

fun json_chars :: "bytes \<Rightarrow> bool" where
  "json_chars [] = True"
| "json_chars (c # r) =
     (if c = 92
      then (case r of
              e # r' \<Rightarrow>
                if e = 117
                then (case r' of
                        h1 # h2 # h3 # h4 # r'' \<Rightarrow>
                          is_hex h1 \<and> is_hex h2 \<and> is_hex h3 \<and> is_hex h4 \<and> json_chars r''
                      | _ \<Rightarrow> False)
                else e \<in> set (bs [CHR 0x22, CHR 0x5C, CHR ''/'', CHR ''b'', CHR ''f'', CHR ''n'',
                                 CHR ''r'', CHR ''t'']) \<and> json_chars r'
            | [] \<Rightarrow> False)
      else 32 \<le> c \<and> c \<noteq> 34 \<and> json_chars r)"

definition json_string :: "bytes \<Rightarrow> bool" where
  "json_string s \<longleftrightarrow> (\<exists>b. s = [34] @ b @ [34] \<and> json_chars b)"

definition digits1 :: "bytes \<Rightarrow> bool" where
  "digits1 s \<longleftrightarrow> s \<noteq> [] \<and> list_all is_digit s"

definition json_int :: "bytes \<Rightarrow> bool" where
  "json_int s \<longleftrightarrow> s = [48] \<or> (digits1 s \<and> hd s \<noteq> 48)"

definition json_frac :: "bytes \<Rightarrow> bool" where
  "json_frac s \<longleftrightarrow> s = [] \<or> (\<exists>d. s = 46 # d \<and> digits1 d)"

definition json_exp :: "bytes \<Rightarrow> bool" where
  "json_exp s \<longleftrightarrow>
     s = [] \<or> (\<exists>e sg d. s = [e] @ sg @ d \<and> e \<in> {101, 69} \<and> sg \<in> {[], [43], [45]} \<and> digits1 d)"

definition json_number :: "bytes \<Rightarrow> bool" where
  "json_number s \<longleftrightarrow>
     (\<exists>m i f e. s = m @ i @ f @ e \<and> m \<in> {[], [45]} \<and> json_int i \<and> json_frac f \<and> json_exp e)"

section \<open>Values\<close>

inductive json :: "bytes \<Rightarrow> bool"
  and json_elems :: "bytes \<Rightarrow> bool"
  and json_members :: "bytes \<Rightarrow> bool"
where
  json_null [json_intro]: "json (bs ''null'')"
| json_true [json_intro]: "json (bs ''true'')"
| json_false [json_intro]: "json (bs ''false'')"
| json_num [json_intro]: "json_number s \<Longrightarrow> json s"
| json_str [json_intro]: "json_string s \<Longrightarrow> json s"
| json_arr0: "is_ws w \<Longrightarrow> json ([91] @ w @ [93])"
| json_arr: "json_elems e \<Longrightarrow> json ([91] @ e @ [93])"
| json_obj0: "is_ws w \<Longrightarrow> json ([123] @ w @ [125])"
| json_obj: "json_members m \<Longrightarrow> json ([123] @ m @ [125])"
| elems_one: "is_ws v \<Longrightarrow> json s \<Longrightarrow> is_ws w \<Longrightarrow> json_elems (v @ s @ w)"
| elems_more: "is_ws v \<Longrightarrow> json s \<Longrightarrow> is_ws w \<Longrightarrow> json_elems e \<Longrightarrow>
     json_elems (v @ s @ w @ [44] @ e)"
| members_one: "is_ws v \<Longrightarrow> json_string k \<Longrightarrow> is_ws w \<Longrightarrow> json s \<Longrightarrow>
     is_ws x \<Longrightarrow> is_ws y \<Longrightarrow> json_members (v @ k @ w @ [58] @ x @ s @ y)"
| members_more: "is_ws v \<Longrightarrow> json_string k \<Longrightarrow> is_ws w \<Longrightarrow> json s \<Longrightarrow>
     is_ws x \<Longrightarrow> is_ws y \<Longrightarrow> json_members m \<Longrightarrow>
     json_members (v @ k @ w @ [58] @ x @ s @ y @ [44] @ m)"

definition json_text :: "bytes \<Rightarrow> bool" where
  "json_text t \<longleftrightarrow> (\<exists>v s w. t = v @ s @ w \<and> is_ws v \<and> json s \<and> is_ws w)"

lemma is_ws_Nil [simp]: "is_ws []"
  by (simp add: is_ws_def)

lemma json_elems_text: "json_text t \<Longrightarrow> json_elems t"
  by (auto simp: json_text_def intro: elems_one)

lemma json_imp_text: "json t \<Longrightarrow> json_text t"
  unfolding json_text_def by (rule exI [of _ "[]"], rule exI [of _ t], rule exI [of _ "[]"]) simp

lemma json_text_cons: "json_text t \<Longrightarrow> json_elems e \<Longrightarrow> json_elems (t @ [44] @ e)"
  by (auto simp: json_text_def intro: elems_more [simplified])

text \<open>
  How the row writers build containers: the pieces joined by commas. A cell is any JSON text
  (a passed-through \<open>json\<close> column may carry surrounding blanks).
\<close>

lemma json_elems_join: "xs \<noteq> [] \<Longrightarrow> \<forall>x \<in> set xs. json_text x \<Longrightarrow> json_elems (join [44] xs)"
proof (induction xs)
  case Nil
  then show ?case by simp
next
  case (Cons x xs)
  show ?case
  proof (cases xs)
    case Nil
    with Cons.prems show ?thesis by (simp add: json_elems_text)
  next
    case (Cons y ys)
    with Cons.IH Cons.prems have "json_elems (join [44] (y # ys))" by simp
    moreover from Cons.prems have "json_text x" by simp
    ultimately have "json_elems (x @ [44] @ join [44] (y # ys))" by (rule json_text_cons [rotated])
    with \<open>xs = y # ys\<close> show ?thesis by simp
  qed
qed

lemma json_array_join [json_intro]: "\<forall>x \<in> set xs. json_text x \<Longrightarrow> json ([91] @ join [44] xs @ [93])"
proof (cases "xs = []")
  case True
  then show ?thesis using json_arr0 [of "[]"] by simp
next
  case False
  assume "\<forall>x \<in> set xs. json_text x"
  with False have "json_elems (join [44] xs)" by (rule json_elems_join)
  then show ?thesis by (rule json_arr)
qed

lemma json_members_join:
  "kvs \<noteq> [] \<Longrightarrow> \<forall>(k, v) \<in> set kvs. json_string k \<and> json_text v \<Longrightarrow>
   json_members (join [44] (map (\<lambda>(k, v). k @ [58] @ v) kvs))"
proof (induction kvs)
  case Nil
  then show ?case by simp
next
  case (Cons p kvs)
  obtain k v where p: "p = (k, v)" by force
  with Cons.prems obtain x s y where k: "json_string k" and v: "v = x @ s @ y"
    and ws: "is_ws x" "is_ws y" and s: "json s"
    by (auto simp: json_text_def)
  show ?case
  proof (cases kvs)
    case Nil
    with members_one [OF is_ws_Nil k is_ws_Nil s ws] p v show ?thesis by simp
  next
    case (Cons q qs)
    with Cons.IH Cons.prems
    have "json_members (join [44] (map (\<lambda>(k, v). k @ [58] @ v) kvs))" by auto
    with members_more [OF is_ws_Nil k is_ws_Nil s ws] Cons p v show ?thesis by simp
  qed
qed

lemma json_object_join [json_intro]:
  assumes "\<forall>(k, v) \<in> set kvs. json_string k \<and> json_text v"
  shows "json ([123] @ join [44] (map (\<lambda>(k, v). k @ [58] @ v) kvs) @ [125])"
proof (cases "kvs = []")
  case True
  then show ?thesis using json_obj0 [of "[]"] by simp
next
  case False
  from json_members_join [OF False assms] show ?thesis by (rule json_obj)
qed

section \<open>Numbers\<close>

lemma digits1_dec_nat [simp]: "digits1 (dec_nat n)"
  using dec_nat_digits [of n] by (simp add: digits1_def list_all_iff)

lemma json_int_dec_nat [simp]: "json_int (dec_nat n)"
  using dec_nat_head [of n] by (cases "n = 0") (simp_all add: json_int_def)

lemma json_number_parts:
  "m \<in> {[], [45]} \<Longrightarrow> json_int i \<Longrightarrow> json_frac f \<Longrightarrow> json_exp e \<Longrightarrow> json_number (m @ i @ f @ e)"
  unfolding json_number_def by blast

lemma json_number_dec_int [json_intro]: "json_number (dec_int v)"
  using json_number_parts [of "[]" "dec_nat (nat v)" "[]" "[]"]
    json_number_parts [of "[45]" "dec_nat (nat (- v))" "[]" "[]"]
  by (simp add: dec_int_def json_frac_def json_exp_def)

section \<open>Decoding a string body\<close>

text \<open>
  The reference decoder, as a JSON reader undoes the escapes. A \<open>\u\<close> escape is a code point of
  the basic plane, given back in UTF-8; surrogates (which the writer never emits) are refused.
\<close>

definition hex_val :: "byte \<Rightarrow> nat" where
  "hex_val c = (if is_digit c then unat c - 48 else if c \<le> 70 then unat c - 55 else unat c - 87)"

definition utf8 :: "nat \<Rightarrow> bytes option" where
  "utf8 n = (if n < 0x80 then Some [word_of_nat n]
             else if n < 0x800 then Some [word_of_nat (0xC0 + n div 64), word_of_nat (0x80 + n mod 64)]
             else if 0xD800 \<le> n \<and> n < 0xE000 then None
             else Some [word_of_nat (0xE0 + n div 4096), word_of_nat (0x80 + n div 64 mod 64),
                        word_of_nat (0x80 + n mod 64)])"

definition simple_escape :: "byte \<Rightarrow> byte option" where
  "simple_escape e =
     (if e = 34 then Some 34 else if e = 92 then Some 92 else if e = 47 then Some 47
      else if e = 98 then Some 8 else if e = 102 then Some 12 else if e = 110 then Some 10
      else if e = 114 then Some 13 else if e = 116 then Some 9 else None)"

fun json_unescape :: "bytes \<Rightarrow> bytes option" where
  "json_unescape [] = Some []"
| "json_unescape (c # r) =
     (if c = 92
      then (case r of
              e # r' \<Rightarrow>
                if e = 117
                then (case r' of
                        h1 # h2 # h3 # h4 # r'' \<Rightarrow>
                          if is_hex h1 \<and> is_hex h2 \<and> is_hex h3 \<and> is_hex h4
                          then (case utf8 (((hex_val h1 * 16 + hex_val h2) * 16 + hex_val h3) * 16
                                           + hex_val h4) of
                                  None \<Rightarrow> None
                                | Some u \<Rightarrow> map_option ((@) u) (json_unescape r''))
                          else None
                      | _ \<Rightarrow> None)
                else (case simple_escape e of
                        None \<Rightarrow> None
                      | Some x \<Rightarrow> map_option ((#) x) (json_unescape r'))
            | [] \<Rightarrow> None)
      else if 32 \<le> c \<and> c \<noteq> 34 then map_option ((#) c) (json_unescape r) else None)"

text \<open>A quoted string: the quotes are stripped and the body decoded.\<close>

definition json_unquote :: "bytes \<Rightarrow> bytes option" where
  "json_unquote s =
     (if 2 \<le> length s \<and> hd s = 34 \<and> last s = 34 then json_unescape (butlast (tl s)) else None)"

lemma json_unquote_quoted [simp]: "json_unquote ([34] @ b @ [34]) = json_unescape b"
  by (simp add: json_unquote_def)

end
