(* ===== verification/Jsonwriter.thy ===== *)
theory Jsonwriter
  imports Json_Grammar
begin

text \<open>
  \<open>internal/jsonwriter\<close>: the \<open>Append\<close> functions of \<open>writer.go\<close>, the default scalar escaper of
  \<open>escape_scalar.go\<close> and the SWAR escaper of \<open>escape_swar.go\<close> (build tag \<open>pg2json_simd\<close>), index
  by index as the loops run. Shown: the escaper emits a JSON string whose decoding gives the
  input back for every byte sequence; the word test \<open>swarHasEscapable\<close> is exact; the SWAR
  escaper and the scalar escaper are the same function.
\<close>

section \<open>writer.go\<close>

definition AppendNull :: "bytes \<Rightarrow> bytes" where
  "AppendNull dst = dst @ bs ''null''"

definition AppendBool :: "bytes \<Rightarrow> bool \<Rightarrow> bytes" where
  "AppendBool dst v = (if v then dst @ bs ''true'' else dst @ bs ''false'')"

text \<open>The 256-entry table, filled by the initialiser's loop and two assignments.\<close>

definition escapeFlag :: "bool list" where
  "escapeFlag =
     (let t = foldl (\<lambda>t i. t[i := True]) (replicate 256 False) [0..<0x20];
          t = t[34 := True]
      in t[92 := True])"

definition hexLower :: bytes where
  "hexLower = bs ''0123456789abcdef''"

definition appendEscape :: "bytes \<Rightarrow> byte \<Rightarrow> bytes" where
  "appendEscape dst c =
     (if c = 34 then dst @ [92, 34]
      else if c = 92 then dst @ [92, 92]
      else if c = 10 then dst @ [92, 110]
      else if c = 13 then dst @ [92, 114]
      else if c = 9 then dst @ [92, 116]
      else if c = 8 then dst @ [92, 98]
      else if c = 12 then dst @ [92, 102]
      else dst @ [92, 117, 48, 48, hexLower ! unat (drop_bit 4 c), hexLower ! unat (c AND 0xF)])"

text \<open>The sub-slice \<open>s[i:j]\<close>.\<close>

definition sub_slice :: "'a list \<Rightarrow> nat \<Rightarrow> nat \<Rightarrow> 'a list" where
  "sub_slice s i j = take (j - i) (drop i s)"

section \<open>escape_scalar.go\<close>

function appendBody_loop :: "bytes \<Rightarrow> bytes \<Rightarrow> nat \<Rightarrow> nat \<Rightarrow> bytes" where
  "appendBody_loop dst s start i =
     (if i < length s then
        let c = s ! i in
        if \<not> escapeFlag ! unat c then appendBody_loop dst s start (i + 1)
        else
          let dst = (if start < i then dst @ sub_slice s start i else dst);
              dst = appendEscape dst c
          in appendBody_loop dst s (i + 1) (i + 1)
      else if start < length s then dst @ drop start s
      else dst)"
  by pat_completeness auto
termination
  by (relation "measure (\<lambda>(dst, s, start, i). length s - i)") auto

declare appendBody_loop.simps [simp del]

definition AppendStringBody :: "bytes \<Rightarrow> bytes \<Rightarrow> bytes" where
  "AppendStringBody dst s = appendBody_loop dst s 0 0"

definition AppendStringBodyBytes :: "bytes \<Rightarrow> bytes \<Rightarrow> bytes" where
  "AppendStringBodyBytes dst s = appendBody_loop dst s 0 0"

section \<open>The quoting functions of writer.go\<close>

definition AppendString :: "bytes \<Rightarrow> bytes \<Rightarrow> bytes" where
  "AppendString dst s =
     (let dst = dst @ [34]; dst = AppendStringBody dst s in dst @ [34])"

definition AppendStringBytes :: "bytes \<Rightarrow> bytes \<Rightarrow> bytes" where
  "AppendStringBytes dst s =
     (let dst = dst @ [34]; dst = AppendStringBodyBytes dst s in dst @ [34])"

definition AppendKey :: "bytes \<Rightarrow> bytes \<Rightarrow> bytes" where
  "AppendKey dst k = (let dst = AppendString dst k in dst @ [58])"

section \<open>escape_swar.go\<close>

definition swarOnes :: "64 word" where "swarOnes = 0x0101010101010101"
definition swarHigh :: "64 word" where "swarHigh = 0x8080808080808080"
definition swarQuote :: "64 word" where "swarQuote = 0x2222222222222222"
definition swarSlash :: "64 word" where "swarSlash = 0x5C5C5C5C5C5C5C5C"
definition swarCtrl :: "64 word" where "swarCtrl = 0x2020202020202020"

definition swarHasEscapable :: "64 word \<Rightarrow> 64 word" where
  "swarHasEscapable x =
     (let lowCtrl = (x - swarCtrl) AND NOT x AND swarHigh;
          quote = ((x XOR swarQuote) - swarOnes) AND NOT (x XOR swarQuote) AND swarHigh;
          slash = ((x XOR swarSlash) - swarOnes) AND NOT (x XOR swarSlash) AND swarHigh
      in lowCtrl OR quote OR slash)"

text \<open>\<open>binary.LittleEndian.Uint64\<close>.\<close>

definition leU64 :: "bytes \<Rightarrow> 64 word" where
  "leU64 b = ucast (b ! 0) OR push_bit 8 (ucast (b ! 1)) OR push_bit 16 (ucast (b ! 2))
             OR push_bit 24 (ucast (b ! 3)) OR push_bit 32 (ucast (b ! 4))
             OR push_bit 40 (ucast (b ! 5)) OR push_bit 48 (ucast (b ! 6))
             OR push_bit 56 (ucast (b ! 7))"

text \<open>The inner loops: skip safe 8-byte chunks, then scan byte by byte.\<close>

function swar_chunks :: "bytes \<Rightarrow> nat \<Rightarrow> nat" where
  "swar_chunks s i =
     (if i + 8 \<le> length s \<and> swarHasEscapable (leU64 (drop i s)) = 0
      then swar_chunks s (i + 8) else i)"
  by pat_completeness auto
termination
  by (relation "measure (\<lambda>(s, i). length s - i)") auto

function swar_scan :: "bytes \<Rightarrow> nat \<Rightarrow> nat" where
  "swar_scan s i =
     (if i < length s \<and> \<not> escapeFlag ! unat (s ! i) then swar_scan s (i + 1) else i)"
  by pat_completeness auto
termination
  by (relation "measure (\<lambda>(s, i). length s - i)") auto

declare swar_chunks.simps [simp del] swar_scan.simps [simp del]

lemma swar_chunks_ge: "i \<le> swar_chunks s i"
proof (induction s i rule: swar_chunks.induct)
  case (1 s i)
  then show ?case by (subst swar_chunks.simps) (auto intro: le_trans [of i "i + 8"])
qed

lemma swar_scan_ge: "i \<le> swar_scan s i"
proof (induction s i rule: swar_scan.induct)
  case (1 s i)
  then show ?case by (subst swar_scan.simps) (auto intro: le_trans [of i "i + 1"])
qed

function swar_loop :: "bytes \<Rightarrow> bytes \<Rightarrow> nat \<Rightarrow> nat \<Rightarrow> bytes" where
  "swar_loop dst s start i =
     (if i < length s then
        let i = swar_chunks s i;
            i = swar_scan s i;
            (dst, start) = (if start < i then (dst @ sub_slice s start i, i) else (dst, start))
        in if i < length s
           then swar_loop (appendEscape dst (s ! i)) s (i + 1) (i + 1)
           else swar_loop dst s start i
      else dst)"
  by pat_completeness auto
termination
proof (relation "measure (\<lambda>(dst, s, start, i). length s - i)", goal_cases)
  case 1
  show ?case by simp
next
  case (2 dst s start i x xa xb xc y)
  then show ?case using swar_chunks_ge [of i s] swar_scan_ge [of x s] by auto
next
  case (3 dst s start i x xa xb xc y)
  then show ?case using swar_chunks_ge [of i s] swar_scan_ge [of x s] by auto
qed

declare swar_loop.simps [simp del]

definition appendStringBodySWAR :: "bytes \<Rightarrow> bytes \<Rightarrow> bytes" where
  "appendStringBodySWAR dst s = swar_loop dst s 0 0"

section \<open>The scalar escaper\<close>

text \<open>The table, as a predicate.\<close>

lemma fold_flags:
  "length t = 256 \<Longrightarrow> length (foldl (\<lambda>t i. t[i := True]) t [0..<n]) = 256 \<and>
   (\<forall>i < 256. foldl (\<lambda>t i. t[i := True]) t [0..<n] ! i \<longleftrightarrow> (i < n \<or> t ! i))"
proof (induction n)
  case (Suc n)
  have "xs[n := True] ! i \<longleftrightarrow> i = n \<or> xs ! i" if "i < length xs" for xs i
    using that by (cases "i = n") auto
  with Suc show ?case by (auto simp: less_Suc_eq)
qed simp

lemma escapeFlag_iff: "escapeFlag ! unat (c :: byte) \<longleftrightarrow> c < 32 \<or> c = 34 \<or> c = 92"
proof -
  have len: "length (foldl (\<lambda>t i. t[i := True]) (replicate 256 False) [0..<0x20]) = 256"
    and flags: "\<forall>i < 256. foldl (\<lambda>t i. t[i := True]) (replicate 256 False) [0..<0x20] ! i
                  \<longleftrightarrow> (i < 0x20 \<or> replicate 256 False ! i)"
    using fold_flags [of "replicate 256 False" "0x20"] by simp_all
  have eqs: "unat c = 34 \<longleftrightarrow> c = 34" "unat c = 92 \<longleftrightarrow> c = 92"
    by (simp_all add: word_unat_eq_iff)
  show ?thesis
    using unat_byte_lt [of c] len flags by (auto simp: escapeFlag_def Let_def nth_list_update eqs word_less_nat_alt)
qed

text \<open>What the escaper writes for one byte.\<close>

definition esc :: "byte \<Rightarrow> bytes" where
  "esc c = (if escapeFlag ! unat c then appendEscape [] c else [c])"

lemma appendEscape_append: "appendEscape dst c = dst @ appendEscape [] c"
  by (simp add: appendEscape_def)

lemma esc_safe_span:
  "(\<forall>k. i \<le> k \<and> k < j \<longrightarrow> \<not> escapeFlag ! unat (s ! k)) \<Longrightarrow> i \<le> j \<Longrightarrow> j \<le> length s \<Longrightarrow>
   concat (map esc (drop i s)) = sub_slice s i j @ concat (map esc (drop j s))"
proof (induction "j - i" arbitrary: i)
  case 0
  then show ?case by (simp add: sub_slice_def)
next
  case (Suc d)
  then have i: "i < j" "i < length s" by auto
  have "concat (map esc (drop (Suc i) s)) = sub_slice s (Suc i) j @ concat (map esc (drop j s))"
    using Suc.hyps(2) Suc.prems by (intro Suc.hyps(1)) auto
  moreover have "esc (s ! i) = [s ! i]" using Suc.prems(1) i by (simp add: esc_def)
  moreover have "sub_slice s i j = s ! i # sub_slice s (Suc i) j"
    using i by (simp add: sub_slice_def drop_conv_nth_drop [OF i(2)] take_Cons' diff_Suc split: nat.split)
  ultimately show ?case using i by (simp add: drop_conv_nth_drop [OF i(2)])
qed

lemma appendBody_loop_esc:
  "start \<le> i \<Longrightarrow> i \<le> length s \<Longrightarrow> \<forall>k. start \<le> k \<and> k < i \<longrightarrow> \<not> escapeFlag ! unat (s ! k) \<Longrightarrow>
   appendBody_loop dst s start i = dst @ concat (map esc (drop start s))"
proof (induction dst s start i rule: appendBody_loop.induct)
  case (1 dst s start i)
  show ?case
  proof (cases "i < length s")
    case False
    with "1.prems" have "i = length s" by simp
    with "1.prems" esc_safe_span [of start i s] show ?thesis
      by (subst appendBody_loop.simps) (auto simp: sub_slice_def)
  next
    case i: True
    show ?thesis
    proof (cases "escapeFlag ! unat (s ! i)")
      case False
      with "1.prems" have "\<forall>k. start \<le> k \<and> k < i + 1 \<longrightarrow> \<not> escapeFlag ! unat (s ! k)"
        by (metis Suc_eq_plus1 less_antisym)
      with 1(1) [OF i refl False] "1.prems" i False show ?thesis
        by (subst appendBody_loop.simps) (simp add: Let_def)
    next
      case True
      let ?d = "if start < i then dst @ sub_slice s start i else dst"
      have "appendBody_loop dst s start i
            = appendBody_loop (appendEscape ?d (s ! i)) s (i + 1) (i + 1)"
        using i True by (subst appendBody_loop.simps) (simp add: Let_def)
      also have "\<dots> = appendEscape ?d (s ! i) @ concat (map esc (drop (i + 1) s))"
        by (rule 1(2) [OF i refl _ refl refl]) (use True i in auto)
      also have "\<dots> = ?d @ concat (map esc (drop i s))"
        using True i by (simp add: appendEscape_append [of ?d] esc_def drop_conv_nth_drop [OF i])
      also have "?d = dst @ sub_slice s start i"
        using "1.prems"(1) by (auto simp: sub_slice_def)
      finally show ?thesis
        using esc_safe_span [of start i s] "1.prems" by simp
    qed
  qed
qed

lemma AppendStringBody_esc: "AppendStringBody dst s = dst @ concat (map esc s)"
  by (simp add: AppendStringBody_def appendBody_loop_esc)

lemma AppendStringBodyBytes_esc: "AppendStringBodyBytes dst s = dst @ concat (map esc s)"
  by (simp add: AppendStringBodyBytes_def appendBody_loop_esc)

lemma AppendString_eq: "AppendString dst s = dst @ [34] @ concat (map esc s) @ [34]"
  by (simp add: AppendString_def AppendStringBody_esc)

lemma AppendStringBytes_eq: "AppendStringBytes dst s = dst @ [34] @ concat (map esc s) @ [34]"
  by (simp add: AppendStringBytes_def AppendStringBodyBytes_esc)

lemma Append_append [append_law]:
  "AppendNull dst = dst @ AppendNull []"
  "AppendBool dst v = dst @ AppendBool [] v"
  "AppendString dst s = dst @ AppendString [] s"
  "AppendStringBytes dst s = dst @ AppendStringBytes [] s"
  by (simp_all add: AppendNull_def AppendBool_def AppendString_eq AppendStringBytes_eq)

text \<open>Each escape is a JSON escape and decodes to its byte.\<close>

lemma hexLower_hex:
  assumes "n < 16"
  shows "is_hex (hexLower ! n) \<and> hex_val (hexLower ! n) = n"
proof -
  have "\<forall>n \<in> set [0..<16]. is_hex (hexLower ! n) \<and> hex_val (hexLower ! n) = n" by code_simp
  with assms show ?thesis by simp
qed

lemma nibbles:
  fixes c :: byte
  shows "unat (drop_bit 4 c) < 16" "unat (c AND 0xF) < 16"
    "unat (drop_bit 4 c) * 16 + unat (c AND 0xF) = unat c"
proof -
  have hi: "unat (drop_bit 4 c) = unat c div 16" by (simp add: drop_bit_eq_div unat_div_distrib)
  have "c AND 0xF = take_bit 4 c" by (simp add: take_bit_eq_mask mask_numeral)
  then have lo: "unat (c AND 0xF) = unat c mod 16"
    by (simp add: take_bit_eq_mod unat_mod_distrib)
  from hi show "unat (drop_bit 4 c) < 16" using unat_byte_lt [of c] by linarith
  from hi lo show "unat (c AND 0xF) < 16" "unat (drop_bit 4 c) * 16 + unat (c AND 0xF) = unat c"
    by simp_all
qed

lemma esc_default:
  assumes "escapeFlag ! unat c" "c \<notin> {34, 92, 10, 13, 9, 8, 12}"
  shows "\<exists>h l. esc c = [92, 117, 48, 48, h, l] \<and> is_hex h \<and> is_hex l \<and>
               hex_val h * 16 + hex_val l = unat c \<and> unat c < 32"
proof -
  from assms have "c < 32" by (auto simp: escapeFlag_iff)
  then show ?thesis
    using assms nibbles [of c] hexLower_hex [of "unat (drop_bit 4 c)"] hexLower_hex [of "unat (c AND 0xF)"]
    by (auto simp: esc_def appendEscape_def word_less_nat_alt)
qed

lemma json_chars_esc [simp]: "json_chars (esc c @ r) = json_chars r"
proof (cases "escapeFlag ! unat c \<and> c \<notin> {34, 92, 10, 13, 9, 8, 12}")
  case True
  then obtain h l where "esc c = [92, 117, 48, 48, h, l]" "is_hex h" "is_hex l"
    using esc_default by blast
  then show ?thesis by (simp add: is_hex_def is_digit_def)
next
  case False
  then show ?thesis
    by (auto simp: esc_def appendEscape_def escapeFlag_iff not_less)
qed

lemma json_unescape_esc [simp]:
  "json_unescape (esc c @ r) = map_option ((#) c) (json_unescape r)"
proof (cases "escapeFlag ! unat c \<and> c \<notin> {34, 92, 10, 13, 9, 8, 12}")
  case True
  then obtain h l where e: "esc c = [92, 117, 48, 48, h, l]" "is_hex h" "is_hex l"
    and v: "hex_val h * 16 + hex_val l = unat c" "unat c < 32"
    using esc_default by blast
  have "utf8 (hex_val h * 16 + hex_val l) = Some [c]"
    using v by (simp add: utf8_def)
  moreover have "is_hex 48" "hex_val 48 = 0" by (simp_all add: is_hex_def is_digit_def hex_val_def)
  ultimately show ?thesis using e by (cases "json_unescape r") simp_all
next
  case False
  then show ?thesis
    by (auto simp: esc_def appendEscape_def escapeFlag_iff simple_escape_def not_less)
qed

lemma json_chars_concat_esc [simp]: "json_chars (concat (map esc s))"
  by (induction s) simp_all

lemma json_unescape_concat_esc [simp]: "json_unescape (concat (map esc s)) = Some s"
  by (induction s) simp_all

lemma json_string_AppendString [json_intro]:
  "json_string (AppendString [] s)" "json_string (AppendStringBytes [] s)"
  by (auto simp: json_string_def AppendString_eq AppendStringBytes_eq)

section \<open>The word test of the SWAR escaper\<close>

text \<open>
  Bytes in little-endian order as an integer. Subtracting the same small constant from every
  byte borrows across bytes only above a byte smaller than the constant, and that byte's own
  high bit is then set in the difference and clear in the input, so the test neither misses
  nor invents.
\<close>

fun le_int :: "bytes \<Rightarrow> int" where
  "le_int [] = 0"
| "le_int (b # r) = uint b + 256 * le_int r"

fun ones_int :: "nat \<Rightarrow> int" where
  "ones_int 0 = 0"
| "ones_int (Suc n) = 1 + 256 * ones_int n"

definition flag_at :: "int \<Rightarrow> int \<Rightarrow> nat \<Rightarrow> bool" where
  "flag_at y x k \<longleftrightarrow> bit y (8 * k + 7) \<and> \<not> bit x (8 * k + 7)"

lemma bit_byte_step:
  fixes t r :: int
  assumes "0 \<le> t" "t < 256"
  shows "bit (t + 256 * r) (8 * Suc k + 7) = bit r (8 * k + 7)"
    and "bit (t + 256 * r) 7 = (128 \<le> t)"
proof -
  have d: "(t + 256 * r) div 256 = r" using assms by simp
  have "bit (t + 256 * r) (8 + (8 * k + 7)) = bit (drop_bit 8 (t + 256 * r)) (8 * k + 7)"
    by (simp add: bit_drop_bit_eq add.commute)
  also have "drop_bit 8 (t + 256 * r) = r" using d by (simp add: drop_bit_eq_div)
  finally show "bit (t + 256 * r) (8 * Suc k + 7) = bit r (8 * k + 7)"
    by (simp add: algebra_simps)
  have "(t + 256 * r) div 128 = t div 128 + 2 * r" by simp
  then show "bit (t + 256 * r) 7 = (128 \<le> t)"
    using assms by (simp add: bit_iff_odd) presburger
qed

lemma flag_at_shift:
  assumes "0 \<le> t" "t < 256" "0 \<le> u" "u < 256"
  shows "flag_at (t + 256 * y) (u + 256 * x) (Suc k) = flag_at y x k"
    and "flag_at (t + 256 * y) (u + 256 * x) 0 = (128 \<le> t \<and> u < 128)"
  using assms bit_byte_step [of t] bit_byte_step [of u] by (auto simp: flag_at_def)

lemma uint_byte: "0 \<le> uint (b :: byte)" "uint (b :: byte) < 256"
  using uint_lt2p [of b] by simp_all

lemma byte_difference:
  fixes c br :: int
  assumes "0 \<le> c" "c < 128" "br = 0 \<or> br = 1"
  obtains t br' where "uint (b :: byte) - c - br = t - 256 * br'" "0 \<le> t" "t < 256"
    "br' = 0 \<or> br' = 1" "uint b < c \<Longrightarrow> 128 \<le> t \<and> uint b < 128"
    "\<not> uint b < c \<Longrightarrow> br = 0 \<Longrightarrow> br' = 0 \<and> (128 \<le> t \<longrightarrow> 128 \<le> uint b)"
proof (cases "uint b - c - br < 0")
  case True
  with assms uint_byte [of b] show ?thesis
    by (intro that [of "uint b - c - br + 256" 1]) (linarith | (intro conjI impI; linarith))+
next
  case False
  with assms uint_byte [of b] show ?thesis
    by (intro that [of "uint b - c - br" 0]) (linarith | (intro conjI impI; linarith))+
qed

lemma flag_if_small_byte:
  assumes "0 \<le> c" "c < 128" "br = 0 \<or> br = 1" "\<exists>b \<in> set xs. uint b < c"
  shows "\<exists>k < length xs. flag_at (le_int xs - c * ones_int (length xs) - br) (le_int xs) k"
  using assms(3,4)
proof (induction xs arbitrary: br)
  case Nil
  then show ?case by simp
next
  case (Cons b xs)
  obtain t br' where t: "uint b - c - br = t - 256 * br'" "0 \<le> t" "t < 256"
    and br': "br' = 0 \<or> br' = 1" and low: "uint b < c \<Longrightarrow> 128 \<le> t \<and> uint b < 128"
    using byte_difference [OF assms(1,2) Cons.prems(1), of b] by blast
  have y: "le_int (b # xs) - c * ones_int (length (b # xs)) - br
           = t + 256 * (le_int xs - c * ones_int (length xs) - br')"
    using t(1) by (simp add: algebra_simps)
  note shift = flag_at_shift [OF t(2,3) uint_byte [of b]]
  show ?case
  proof (cases "uint b < c")
    case True
    with low have "flag_at (le_int (b # xs) - c * ones_int (length (b # xs)) - br) (le_int (b # xs)) 0"
      unfolding y by (simp add: shift del: right_diff_distrib_numeral)
    then show ?thesis by (metis length_greater_0_conv list.distinct(1))
  next
    case False
    with Cons.prems obtain k where "k < length xs"
      "flag_at (le_int xs - c * ones_int (length xs) - br') (le_int xs) k"
      using Cons.IH [OF br'] by auto
    then have "flag_at (le_int (b # xs) - c * ones_int (length (b # xs)) - br) (le_int (b # xs)) (Suc k)"
      unfolding y by (simp add: shift del: right_diff_distrib_numeral)
    with \<open>k < length xs\<close> show ?thesis by (metis Suc_mono length_Cons)
  qed
qed

lemma no_flag_if_no_small_byte:
  assumes "0 \<le> c" "c < 128" "\<forall>b \<in> set xs. \<not> uint b < c" "k < length xs"
  shows "\<not> flag_at (le_int xs - c * ones_int (length xs)) (le_int xs) k"
  using assms(3,4)
proof (induction xs arbitrary: k)
  case Nil
  then show ?case by simp
next
  case (Cons b xs)
  obtain t br' where t: "uint b - c - 0 = t - 256 * br'" "0 \<le> t" "t < 256"
    and high: "\<not> uint b < c \<Longrightarrow> br' = 0 \<and> (128 \<le> t \<longrightarrow> 128 \<le> uint b)"
    using byte_difference [OF assms(1,2) disjI1 [OF refl], of b] by blast
  with Cons.prems have "br' = 0" by simp
  then have y: "le_int (b # xs) - c * ones_int (length (b # xs))
                = t + 256 * (le_int xs - c * ones_int (length xs))"
    using t(1) by (simp add: algebra_simps)
  show ?case
    using Cons.IH Cons.prems high unfolding y
    by (cases k) (auto simp: flag_at_shift [OF t(2,3) uint_byte [of b]]
                       simp del: right_diff_distrib_numeral)
qed

text \<open>The machine word holds the eight bytes.\<close>

lemma bit_le_int: "k < length b \<Longrightarrow> j < 8 \<Longrightarrow> bit (le_int b) (8 * k + j) = bit (b ! k) j"
proof (induction b arbitrary: k)
  case Nil
  then show ?case by simp
next
  case (Cons x b)
  have low: "bit (uint x + 256 * le_int b) j = bit x j"
  proof -
    have "take_bit 8 (uint x + 256 * le_int b) = uint x"
      using uint_byte [of x] by (simp add: take_bit_eq_mod)
    then have "bit (take_bit 8 (uint x + 256 * le_int b)) j = bit x j" using Cons.prems by (simp add: bit_uint_iff)
    with Cons.prems show ?thesis by (simp add: bit_take_bit_iff)
  qed
  have high: "bit (uint x + 256 * le_int b) (8 + m) = bit (le_int b) m" for m
  proof -
    have "drop_bit 8 (uint x + 256 * le_int b) = le_int b"
      using uint_byte [of x] by (simp add: drop_bit_eq_div)
    then show ?thesis by (metis bit_drop_bit_eq comp_apply)
  qed
  show ?case
    using Cons low high [of "8 * (k - 1) + j"] by (cases k) (simp_all add: algebra_simps)
qed

lemma bit_leU64:
  assumes "k < 8" "j < 8"
  shows "bit (leU64 b) (8 * k + j) = bit (b ! k) j"
proof -
  from assms(1) consider "k = 0" | "k = 1" | "k = 2" | "k = 3" | "k = 4" | "k = 5" | "k = 6" | "k = 7"
    by linarith
  then show ?thesis
    by cases (use assms in \<open>auto simp: leU64_def bit_simps dest: bit_imp_le_length\<close>)
qed

lemma word64_eqI:
  fixes v w :: "64 word"
  assumes "\<And>k j. k < 8 \<Longrightarrow> j < 8 \<Longrightarrow> bit v (8 * k + j) = bit w (8 * k + j)"
  shows "v = w"
proof (rule bit_word_eqI)
  fix n assume "n < LENGTH(64)"
  then have "n div 8 < 8" "n mod 8 < 8" by auto
  from assms [OF this] show "bit v n = bit w n" by simp
qed

lemma leU64_le_int: "length b = 8 \<Longrightarrow> leU64 b = word_of_int (le_int b)"
  by (rule word64_eqI) (simp add: bit_leU64 bit_le_int bit_word_of_int_iff)

lemma leU64_xor: "length b = 8 \<Longrightarrow> leU64 b XOR leU64 (replicate 8 c) = leU64 (map (\<lambda>x. x XOR c) b)"
  by (rule word64_eqI) (simp add: bit_xor_iff bit_leU64)

lemma bit_push_1: "bit (push_bit m (1 :: 64 word)) n \<longleftrightarrow> n = m \<and> m < 64"
  by (auto simp: bit_simps)

lemma bit_swarHigh: "bit swarHigh n \<longleftrightarrow> (\<exists>k < 8. n = 8 * k + 7)"
proof -
  have eq: "swarHigh = push_bit 7 1 OR push_bit 15 1 OR push_bit 23 1 OR push_bit 31 1
                       OR push_bit 39 1 OR push_bit 47 1 OR push_bit 55 1 OR push_bit 63 1"
    by (simp add: swarHigh_def)
  have "bit swarHigh n \<longleftrightarrow> n \<in> {7, 15, 23, 31, 39, 47, 55, 63}"
    unfolding eq bit_or_iff bit_push_1 by auto
  also have "\<dots> \<longleftrightarrow> (\<exists>k < 8. n = 8 * k + 7)" by simp presburger
  finally show ?thesis .
qed

lemma ones_int_8: "ones_int 8 = 0x0101010101010101"
  by code_simp

lemma swar_has_less:
  assumes "length b = 8" "0 \<le> c" "c < 128" "m = word_of_int (c * ones_int 8)"
  shows "(leU64 b - m) AND NOT (leU64 b) AND swarHigh = 0 \<longleftrightarrow> (\<forall>x \<in> set b. \<not> uint x < c)"
proof -
  let ?y = "le_int b - c * ones_int (length b)"
  have "leU64 b - m = word_of_int ?y"
    using assms by (simp add: leU64_le_int)
  then have flag: "bit ((leU64 b - m) AND NOT (leU64 b)) (8 * k + 7) = flag_at ?y (le_int b) k"
    if "k < 8" for k
    using that unfolding leU64_le_int [OF assms(1)]
    by (simp add: flag_at_def bit_and_iff bit_not_iff bit_word_of_int_iff del: of_int_diff of_int_mult)
  have "(leU64 b - m) AND NOT (leU64 b) AND swarHigh = 0 \<longleftrightarrow> (\<forall>k < 8. \<not> flag_at ?y (le_int b) k)"
    (is "?z = 0 \<longleftrightarrow> _")
  proof -
    have "?z = 0 \<longleftrightarrow> (\<forall>n. \<not> bit ?z n)" by (metis bit_eqI bit_0_eq bot_apply bot_bool_def)
    also have "\<dots> \<longleftrightarrow> (\<forall>k < 8. \<not> bit ((leU64 b - m) AND NOT (leU64 b)) (8 * k + 7))"
      by (auto simp: bit_and_iff bit_swarHigh)
    finally show ?thesis using flag by auto
  qed
  also have "\<dots> \<longleftrightarrow> (\<forall>x \<in> set b. \<not> uint x < c)"
    using flag_if_small_byte [OF assms(2,3), of 0 b] no_flag_if_no_small_byte [OF assms(2,3), of b]
      assms(1) by auto
  finally show ?thesis .
qed

lemma xor_less_one: "uint (x XOR c) < 1 \<longleftrightarrow> (x :: byte) = c"
proof -
  have "uint (x XOR c) < 1 \<longleftrightarrow> x XOR c = 0"
    using uint_byte [of "x XOR c"] by (metis int_one_le_iff_zero_less leD not_le uint_0_iff order_le_less)
  also have "\<dots> \<longleftrightarrow> x = c" by (metis xor.assoc xor.left_neutral xor_self_eq)
  finally show ?thesis .
qed

lemma swarHasEscapable_zero:
  assumes "length b = 8"
  shows "swarHasEscapable (leU64 b) = 0 \<longleftrightarrow> (\<forall>x \<in> set b. \<not> escapeFlag ! unat x)"
proof -
  have cs: "swarCtrl = word_of_int (32 * ones_int 8)" "swarOnes = word_of_int (1 * ones_int 8)"
    "swarQuote = leU64 (replicate 8 34)" "swarSlash = leU64 (replicate 8 92)"
    by (simp_all add: ones_int_8 swarCtrl_def swarOnes_def swarQuote_def swarSlash_def leU64_def)
  let ?x = "leU64 b"
  have ctrl: "(?x - swarCtrl) AND NOT ?x AND swarHigh = 0 \<longleftrightarrow> (\<forall>x \<in> set b. \<not> uint x < 32)"
    by (rule swar_has_less [OF assms _ _ cs(1)]) simp_all
  have eqc: "((?x XOR q) - swarOnes) AND NOT (?x XOR q) AND swarHigh = 0 \<longleftrightarrow> (\<forall>x \<in> set b. x \<noteq> c)"
    if "q = leU64 (replicate 8 c)" for q c
    using swar_has_less [of "map (\<lambda>x. x XOR c) b" 1, OF _ _ _ cs(2)] assms
    by (simp add: that leU64_xor xor_less_one)
  have or0: "x OR y = 0 \<longleftrightarrow> x = 0 \<and> y = 0" for x y :: "64 word"
    by (metis or.idem or_eq_0_iff)
  show ?thesis
    by (simp add: swarHasEscapable_def or0 ctrl eqc [OF cs(3)] eqc [OF cs(4)] escapeFlag_iff
        word_less_def ball_conj_distrib)
qed

section \<open>The SWAR escaper is the scalar escaper\<close>

lemma swar_chunks_safe:
  "i \<le> length s \<Longrightarrow> swar_chunks s i \<le> length s \<and>
   (\<forall>k. i \<le> k \<and> k < swar_chunks s i \<longrightarrow> \<not> escapeFlag ! unat (s ! k))"
proof (induction s i rule: swar_chunks.induct)
  case (1 s i)
  show ?case
  proof (cases "i + 8 \<le> length s \<and> swarHasEscapable (leU64 (drop i s)) = 0")
    case False
    then have "swar_chunks s i = i" by (subst swar_chunks.simps) auto
    with "1.prems" show ?thesis by auto
  next
    case True
    have "leU64 (drop i s) = leU64 (take 8 (drop i s))" using True by (simp add: leU64_def)
    with True have "\<forall>x \<in> set (take 8 (drop i s)). \<not> escapeFlag ! unat x"
      by (subst swarHasEscapable_zero [symmetric]) auto
    then have here: "\<not> escapeFlag ! unat (s ! k)" if "i \<le> k" "k < i + 8" for k
    proof -
      from that True have "k - i < length (take 8 (drop i s))" "take 8 (drop i s) ! (k - i) = s ! k"
        by auto
      with \<open>\<forall>x \<in> set (take 8 (drop i s)). \<not> escapeFlag ! unat x\<close> show ?thesis by (metis nth_mem)
    qed
    have "swar_chunks s i = swar_chunks s (i + 8)" using True by (subst swar_chunks.simps) simp
    moreover have "swar_chunks s (i + 8) \<le> length s"
      "\<forall>k. i + 8 \<le> k \<and> k < swar_chunks s (i + 8) \<longrightarrow> \<not> escapeFlag ! unat (s ! k)"
      using "1.IH" [OF True] True by simp_all
    ultimately show ?thesis using here by (simp, meson not_le)
  qed
qed

lemma swar_scan_safe:
  "i \<le> length s \<Longrightarrow> swar_scan s i \<le> length s \<and>
   (\<forall>k. i \<le> k \<and> k < swar_scan s i \<longrightarrow> \<not> escapeFlag ! unat (s ! k)) \<and>
   (swar_scan s i < length s \<longrightarrow> escapeFlag ! unat (s ! swar_scan s i))"
proof (induction s i rule: swar_scan.induct)
  case (1 s i)
  show ?case
  proof (cases "i < length s \<and> \<not> escapeFlag ! unat (s ! i)")
    case False
    then have "swar_scan s i = i" by (subst swar_scan.simps) auto
    with False "1.prems" show ?thesis by auto
  next
    case True
    then have "swar_scan s i = swar_scan s (i + 1)" by (subst swar_scan.simps) simp
    moreover have "\<not> escapeFlag ! unat (s ! k)" if "i \<le> k" "k < swar_scan s (i + 1)" for k
      using that True "1.IH" [OF True] by (cases "k = i") auto
    ultimately show ?thesis using "1.IH" [OF True] True by auto
  qed
qed

lemma swar_loop_esc: "i \<le> length s \<Longrightarrow> swar_loop dst s i i = dst @ concat (map esc (drop i s))"
proof (induction "length s - i" arbitrary: dst i rule: less_induct)
  case less
  show ?case
  proof (cases "i < length s")
    case False
    then show ?thesis by (subst swar_loop.simps) simp
  next
    case i: True
    define j where "j = swar_scan s (swar_chunks s i)"
    have ij: "i \<le> j"
      unfolding j_def using swar_chunks_ge [of i s] swar_scan_ge [of "swar_chunks s i" s] by simp
    note safe = swar_chunks_safe [OF less.prems] swar_scan_safe [of "swar_chunks s i" s]
    have "\<not> escapeFlag ! unat (s ! k)" if "i \<le> k" "k < j" for k
      using safe that unfolding j_def by (cases "k < swar_chunks s i") auto
    then have j: "j \<le> length s" "\<forall>k. i \<le> k \<and> k < j \<longrightarrow> \<not> escapeFlag ! unat (s ! k)"
      "j < length s \<longrightarrow> escapeFlag ! unat (s ! j)"
      using safe unfolding j_def by auto
    have span: "concat (map esc (drop i s)) = sub_slice s i j @ concat (map esc (drop j s))"
      by (rule esc_safe_span [OF j(2) ij j(1)])
    let ?d = "if i < j then dst @ sub_slice s i j else dst"
    have d: "?d = dst @ sub_slice s i j" using ij by (auto simp: sub_slice_def)
    show ?thesis
    proof (cases "j < length s")
      case True
      have "swar_loop dst s i i = swar_loop (appendEscape ?d (s ! j)) s (j + 1) (j + 1)"
        using i True by (subst swar_loop.simps) (simp add: Let_def flip: j_def)
      also have "\<dots> = appendEscape ?d (s ! j) @ concat (map esc (drop (j + 1) s))"
        by (rule less.hyps) (use i ij True in auto)
      also have "\<dots> = ?d @ concat (map esc (drop j s))"
        using True j(3) by (simp add: appendEscape_append [of ?d] esc_def drop_conv_nth_drop [OF True])
      finally show ?thesis using d span by simp
    next
      case False
      with j(1) have "j = length s" by simp
      moreover have "swar_loop dst s i i = swar_loop ?d s (if i < j then j else i) j"
        using i False by (subst swar_loop.simps) (simp add: Let_def flip: j_def)
      moreover have "swar_loop ?d s (if i < j then j else i) j = ?d"
        using False by (subst swar_loop.simps) simp
      ultimately show ?thesis using d span by simp
    qed
  qed
qed

section \<open>Properties\<close>

text \<open>
  C1. Escaping is lossless: for every byte sequence, \<open>AppendString\<close> extends the buffer by a
  JSON string literal, and a JSON reader that decodes the literal gets the bytes back.
\<close>

theorem AppendString_roundtrip:
  "\<exists>q. AppendString dst s = dst @ q \<and> json_string q \<and> json_unquote q = Some s"
proof -
  have "AppendString dst s = dst @ AppendString [] s" by (rule Append_append)
  moreover have "json_unquote (AppendString [] s) = Some s"
    by (simp add: AppendString_eq flip: append_Cons [of "34 :: byte" "[]", simplified])
       (simp add: json_unquote_def)
  ultimately show ?thesis using json_string_AppendString by blast
qed

text \<open>
  The word-at-a-time test of the SWAR escaper is exact: on eight bytes it answers zero
  just when none of them needs an escape.
\<close>

theorem swarHasEscapable_exact:
  "swarHasEscapable (leU64 [b0, b1, b2, b3, b4, b5, b6, b7]) = 0 \<longleftrightarrow>
   list_all (\<lambda>x. \<not> escapeFlag ! unat x) [b0, b1, b2, b3, b4, b5, b6, b7]"
  by (subst swarHasEscapable_zero) (simp_all add: list_all_iff)

text \<open>
  C3. The experimental SWAR escaper and the default scalar escaper compute the same function,
  for every buffer and every input.
\<close>

theorem SWAR_equals_scalar: "appendStringBodySWAR dst s = AppendStringBody dst s"
  by (simp add: appendStringBodySWAR_def swar_loop_esc AppendStringBody_esc)

end
