(* ===== verification/Protocol.thy ===== *)
theory Protocol
  imports Prelude
begin

text \<open>
  \<open>internal/protocol\<close>: the message codes of \<open>messages.go\<close>, and the type OIDs of \<open>oid.go\<close> with
  \<open>IsRange\<close> and \<open>ArrayElem\<close>. The constants are unfolded by the simplifier. Shown: the element
  type of an array type is never itself an array or range type, which is why the encoder
  table of \<open>internal/types\<close> nests one level deep.
\<close>

section \<open>messages.go\<close>

definition MsgAuthentication :: byte where [simp]: "MsgAuthentication = 82"
definition MsgBackendKeyData :: byte where [simp]: "MsgBackendKeyData = 75"
definition MsgBindComplete :: byte where [simp]: "MsgBindComplete = 50"
definition MsgCloseComplete :: byte where [simp]: "MsgCloseComplete = 51"
definition MsgCommandComplete :: byte where [simp]: "MsgCommandComplete = 67"
definition MsgDataRow :: byte where [simp]: "MsgDataRow = 68"
definition MsgEmptyQueryResponse :: byte where [simp]: "MsgEmptyQueryResponse = 73"
definition MsgErrorResponse :: byte where [simp]: "MsgErrorResponse = 69"
definition MsgNoData :: byte where [simp]: "MsgNoData = 110"
definition MsgNoticeResponse :: byte where [simp]: "MsgNoticeResponse = 78"
definition MsgNotificationResponse :: byte where [simp]: "MsgNotificationResponse = 65"
definition MsgParameterDescription :: byte where [simp]: "MsgParameterDescription = 116"
definition MsgParameterStatus :: byte where [simp]: "MsgParameterStatus = 83"
definition MsgParseComplete :: byte where [simp]: "MsgParseComplete = 49"
definition MsgPortalSuspended :: byte where [simp]: "MsgPortalSuspended = 115"
definition MsgReadyForQuery :: byte where [simp]: "MsgReadyForQuery = 90"
definition MsgRowDescription :: byte where [simp]: "MsgRowDescription = 84"
definition MsgNegotiateProtocol :: byte where [simp]: "MsgNegotiateProtocol = 118"
definition MsgBind :: byte where [simp]: "MsgBind = 66"
definition MsgClose :: byte where [simp]: "MsgClose = 67"
definition MsgDescribe :: byte where [simp]: "MsgDescribe = 68"
definition MsgExecute :: byte where [simp]: "MsgExecute = 69"
definition MsgFlush :: byte where [simp]: "MsgFlush = 72"
definition MsgParse :: byte where [simp]: "MsgParse = 80"
definition MsgQuery :: byte where [simp]: "MsgQuery = 81"
definition MsgSync :: byte where [simp]: "MsgSync = 83"
definition MsgTerm :: byte where [simp]: "MsgTerm = 88"
definition MsgPassword :: byte where [simp]: "MsgPassword = 112"

definition AuthOK :: int where [simp]: "AuthOK = 0"
definition AuthCleartextPassword :: int where [simp]: "AuthCleartextPassword = 3"
definition AuthMD5Password :: int where [simp]: "AuthMD5Password = 5"
definition AuthSASL :: int where [simp]: "AuthSASL = 10"
definition AuthSASLContinue :: int where [simp]: "AuthSASLContinue = 11"
definition AuthSASLFinal :: int where [simp]: "AuthSASLFinal = 12"

definition ProtocolVersion3 :: int where [simp]: "ProtocolVersion3 = 3 * 2 ^ 16"

definition FormatText :: int where [simp]: "FormatText = 0"
definition FormatBinary :: int where [simp]: "FormatBinary = 1"

section \<open>oid.go\<close>

type_synonym OID = "32 word"

definition OIDBool :: OID where [simp]: "OIDBool = 16"
definition OIDBytea :: OID where [simp]: "OIDBytea = 17"
definition OIDName :: OID where [simp]: "OIDName = 19"
definition OIDInt8 :: OID where [simp]: "OIDInt8 = 20"
definition OIDInt2 :: OID where [simp]: "OIDInt2 = 21"
definition OIDInt4 :: OID where [simp]: "OIDInt4 = 23"
definition OIDText :: OID where [simp]: "OIDText = 25"
definition OIDOID :: OID where [simp]: "OIDOID = 26"
definition OIDJSON :: OID where [simp]: "OIDJSON = 114"
definition OIDFloat4 :: OID where [simp]: "OIDFloat4 = 700"
definition OIDFloat8 :: OID where [simp]: "OIDFloat8 = 701"
definition OIDBPChar :: OID where [simp]: "OIDBPChar = 1042"
definition OIDVarchar :: OID where [simp]: "OIDVarchar = 1043"
definition OIDDate :: OID where [simp]: "OIDDate = 1082"
definition OIDTime :: OID where [simp]: "OIDTime = 1083"
definition OIDTimestamp :: OID where [simp]: "OIDTimestamp = 1114"
definition OIDTimestampTZ :: OID where [simp]: "OIDTimestampTZ = 1184"
definition OIDInterval :: OID where [simp]: "OIDInterval = 1186"
definition OIDTimeTZ :: OID where [simp]: "OIDTimeTZ = 1266"
definition OIDNumeric :: OID where [simp]: "OIDNumeric = 1700"
definition OIDUUID :: OID where [simp]: "OIDUUID = 2950"
definition OIDJSONB :: OID where [simp]: "OIDJSONB = 3802"
definition OIDBoolArray :: OID where [simp]: "OIDBoolArray = 1000"
definition OIDInt2Array :: OID where [simp]: "OIDInt2Array = 1005"
definition OIDInt4Array :: OID where [simp]: "OIDInt4Array = 1007"
definition OIDTextArray :: OID where [simp]: "OIDTextArray = 1009"
definition OIDBPCharArray :: OID where [simp]: "OIDBPCharArray = 1014"
definition OIDVarcharArray :: OID where [simp]: "OIDVarcharArray = 1015"
definition OIDInt8Array :: OID where [simp]: "OIDInt8Array = 1016"
definition OIDFloat4Array :: OID where [simp]: "OIDFloat4Array = 1021"
definition OIDFloat8Array :: OID where [simp]: "OIDFloat8Array = 1022"
definition OIDOIDArray :: OID where [simp]: "OIDOIDArray = 1028"
definition OIDByteaArray :: OID where [simp]: "OIDByteaArray = 1001"
definition OIDDateArray :: OID where [simp]: "OIDDateArray = 1182"
definition OIDTimestampArray :: OID where [simp]: "OIDTimestampArray = 1115"
definition OIDTimestampTZArray :: OID where [simp]: "OIDTimestampTZArray = 1185"
definition OIDUUIDArray :: OID where [simp]: "OIDUUIDArray = 2951"
definition OIDJSONArray :: OID where [simp]: "OIDJSONArray = 199"
definition OIDJSONBArray :: OID where [simp]: "OIDJSONBArray = 3807"
definition OIDNumericArray :: OID where [simp]: "OIDNumericArray = 1231"
definition OIDInt4Range :: OID where [simp]: "OIDInt4Range = 3904"
definition OIDNumRange :: OID where [simp]: "OIDNumRange = 3906"
definition OIDTsRange :: OID where [simp]: "OIDTsRange = 3908"
definition OIDTsTzRange :: OID where [simp]: "OIDTsTzRange = 3910"
definition OIDDateRange :: OID where [simp]: "OIDDateRange = 3912"
definition OIDInt8Range :: OID where [simp]: "OIDInt8Range = 3926"

definition IsRange :: "OID \<Rightarrow> bool" where
  "IsRange o' \<longleftrightarrow>
     o' \<in> set [OIDInt4Range, OIDInt8Range, OIDNumRange, OIDTsRange, OIDTsTzRange, OIDDateRange]"

definition ArrayElem :: "OID \<Rightarrow> OID" where
  "ArrayElem o' =
     (if o' = OIDBoolArray then OIDBool
      else if o' = OIDInt2Array then OIDInt2
      else if o' = OIDInt4Array then OIDInt4
      else if o' = OIDInt8Array then OIDInt8
      else if o' = OIDFloat4Array then OIDFloat4
      else if o' = OIDFloat8Array then OIDFloat8
      else if o' = OIDTextArray then OIDText
      else if o' = OIDVarcharArray then OIDVarchar
      else if o' = OIDBPCharArray then OIDBPChar
      else if o' = OIDUUIDArray then OIDUUID
      else if o' = OIDJSONArray then OIDJSON
      else if o' = OIDJSONBArray then OIDJSONB
      else if o' = OIDTimestampArray then OIDTimestamp
      else if o' = OIDTimestampTZArray then OIDTimestampTZ
      else if o' = OIDDateArray then OIDDate
      else if o' = OIDOIDArray then OIDOID
      else if o' = OIDByteaArray then OIDBytea
      else if o' = OIDNumericArray then OIDNumeric
      else 0)"

text \<open>The element of an array is a scalar: neither an array nor a range.\<close>

lemma ArrayElem_scalar [simp]: "ArrayElem (ArrayElem o') = 0" "\<not> IsRange (ArrayElem o')"
  by (simp_all add: ArrayElem_def IsRange_def)

lemma ArrayElem_0 [simp]: "ArrayElem 0 = 0"
  by (simp add: ArrayElem_def)

end
