(* ===== verification/Types_Text.thy ===== *)
theory Types_Text
  imports Jsonwriter Protocol
begin

text \<open>
  \<open>internal/types\<close>, the text-format encoders: \<open>encoder.go\<close>, \<open>numeric.go\<close>, \<open>bytea.go\<close>,
  \<open>jsonpass.go\<close> and \<open>uuid.go\<close>. An encoder takes the destination buffer and the raw cell (\<open>None\<close>
  for SQL NULL) and gives the extended buffer back. The interface \<open>Encoder\<close> of the sources is
  the locale \<open>cell_encoder\<close>: an encoder only appends, and renders NULL as \<open>null\<close>. Shown: what
  the server's text forms become, and that every cell is JSON under the documented text forms.
\<close>

type_synonym encoder = "bytes \<Rightarrow> bytes option \<Rightarrow> bytes"

locale cell_encoder =
  fixes enc :: encoder
  assumes enc_append: "enc dst raw = dst @ enc [] raw"
    and enc_null: "enc dst None = dst @ bs ''null''"
begin

text \<open>Encoding a sequence of cells into one buffer is encoding each on its own.\<close>

lemma enc_foldl: "foldl enc dst raws = dst @ concat (map (enc []) raws)"
proof (induction raws arbitrary: dst)
  case (Cons r raws)
  then show ?case using enc_append [of dst r] by simp
qed simp

lemma enc_length: "length dst \<le> length (enc dst raw)"
  by (subst enc_append) simp

lemma enc_take: "take (length dst) (enc dst raw) = dst"
  by (subst enc_append) simp

end

section \<open>encoder.go\<close>

definition EncodeString :: encoder where
  "EncodeString dst raw =
     (case raw of None \<Rightarrow> AppendNull dst | Some r \<Rightarrow> AppendStringBytes dst r)"

text \<open>The loop over the bytes of a value, two hex digits each.\<close>

fun appendHexBytes :: "bytes \<Rightarrow> bytes \<Rightarrow> bytes" where
  "appendHexBytes dst [] = dst"
| "appendHexBytes dst (b # src) =
     appendHexBytes (dst @ [hexLower ! unat (drop_bit 4 b), hexLower ! unat (b AND 0xF)]) src"

definition EncodeOpaqueBinary :: encoder where
  "EncodeOpaqueBinary dst raw =
     (case raw of
        None \<Rightarrow> AppendNull dst
      | Some r \<Rightarrow>
          let dst = dst @ [34, 92, 92, 120];
              dst = appendHexBytes dst r
          in dst @ [34])"

definition EncodeQuotedASCII :: encoder where
  "EncodeQuotedASCII dst raw =
     (case raw of
        None \<Rightarrow> AppendNull dst
      | Some r \<Rightarrow>
          if list_ex (\<lambda>c. c < 0x20 \<or> c = 34 \<or> c = 92) r then AppendStringBytes dst r
          else dst @ [34] @ r @ [34])"

section \<open>bytea.go, jsonpass.go, uuid.go\<close>

definition EncodeBytea :: encoder where
  "EncodeBytea dst raw =
     (case raw of
        None \<Rightarrow> AppendNull dst
      | Some r \<Rightarrow>
          if 2 \<le> length r \<and> r ! 0 = 92 \<and> r ! 1 = 120
          then (let dst = dst @ [34, 92, 92, 120];
                    dst = dst @ drop 2 r
                in dst @ [34])
          else AppendStringBytes dst r)"

definition EncodeJSONPassthrough :: encoder where
  "EncodeJSONPassthrough dst raw =
     (case raw of
        None \<Rightarrow> AppendNull dst
      | Some r \<Rightarrow> if length r = 0 then dst @ [34, 34] else dst @ r)"

definition EncodeUUID :: encoder where
  "EncodeUUID dst raw =
     (case raw of
        None \<Rightarrow> AppendNull dst
      | Some r \<Rightarrow> if length r \<noteq> 36 then AppendStringBytes dst r else dst @ [34] @ r @ [34])"

section \<open>numeric.go\<close>

definition EncodeBool :: encoder where
  "EncodeBool dst raw =
     (case raw of
        None \<Rightarrow> AppendNull dst
      | Some r \<Rightarrow>
          if length r = 1 \<and> r ! 0 = 116 then AppendBool dst True else AppendBool dst False)"

definition validInt :: "bytes \<Rightarrow> bool" where
  "validInt b =
     (if length b = 0 then False
      else
        let i = (if b ! 0 = 45 \<or> b ! 0 = 43 then 1 else 0) in
        if i = 1 \<and> i = length b then False
        else list_all (\<lambda>c. \<not> (c < 48 \<or> c > 57)) (drop i b))"

definition EncodeInt :: encoder where
  "EncodeInt dst raw =
     (case raw of
        None \<Rightarrow> AppendNull dst
      | Some r \<Rightarrow> if \<not> validInt r then AppendStringBytes dst r else dst @ r)"

definition isNonFiniteFloat :: "bytes \<Rightarrow> bool" where
  "isNonFiniteFloat b =
     (if length b = 3 then b ! 0 = 78 \<and> b ! 1 = 97 \<and> b ! 2 = 78
      else if length b = 8 then b ! 0 = 73 \<or> (b ! 0 = 45 \<and> b ! 1 = 73)
      else if length b = 9 then b ! 0 = 45 \<and> b ! 1 = 73
      else False)"

text \<open>The loop of \<open>validFloat\<close> over the bytes still to read.\<close>

fun validFloat_loop :: "bytes \<Rightarrow> bool \<Rightarrow> bool \<Rightarrow> bool" where
  "validFloat_loop [] sawDigit sawDot = sawDigit"
| "validFloat_loop (c # r) sawDigit sawDot =
     (if 48 \<le> c \<and> c \<le> 57 then validFloat_loop r True sawDot
      else if c = 46 \<and> \<not> sawDot then validFloat_loop r sawDigit True
      else if (c = 101 \<or> c = 69) \<and> sawDigit \<and> r \<noteq> []
      then (let r = (if hd r = 43 \<or> hd r = 45 then tl r else r)
            in if r = [] then False else list_all (\<lambda>c. \<not> (c < 48 \<or> c > 57)) r)
      else False)"

definition validFloat :: "bytes \<Rightarrow> bool" where
  "validFloat b =
     (if length b = 0 then False
      else
        let i = (if b ! 0 = 45 \<or> b ! 0 = 43 then 1 else 0)
        in validFloat_loop (drop i b) False False)"

definition EncodeFloat :: encoder where
  "EncodeFloat dst raw =
     (case raw of
        None \<Rightarrow> AppendNull dst
      | Some r \<Rightarrow>
          if isNonFiniteFloat r then AppendStringBytes dst r
          else if \<not> validFloat r then AppendStringBytes dst r
          else dst @ r)"

definition EncodeNumeric :: encoder where
  "EncodeNumeric dst raw =
     (case raw of
        None \<Rightarrow> AppendNull dst
      | Some r \<Rightarrow>
          if length r = 3 \<and> r ! 0 = 78 \<and> r ! 1 = 97 \<and> r ! 2 = 78 then AppendStringBytes dst r
          else if \<not> validFloat r then AppendStringBytes dst r
          else dst @ r)"

section \<open>Pick\<close>

definition Pick :: "OID \<Rightarrow> encoder" where
  "Pick oid =
     (if oid = OIDBool then EncodeBool
      else if oid \<in> set [OIDInt2, OIDInt4, OIDInt8, OIDOID] then EncodeInt
      else if oid \<in> set [OIDFloat4, OIDFloat8] then EncodeFloat
      else if oid = OIDNumeric then EncodeNumeric
      else if oid \<in> set [OIDJSON, OIDJSONB] then EncodeJSONPassthrough
      else if oid = OIDBytea then EncodeBytea
      else if oid = OIDUUID then EncodeUUID
      else if oid \<in> set [OIDDate, OIDTime, OIDTimeTZ, OIDTimestamp, OIDTimestampTZ, OIDInterval]
      then EncodeQuotedASCII
      else if oid \<in> set [OIDText, OIDVarchar, OIDBPChar, OIDName] then EncodeString
      else EncodeString)"

lemmas text_encoder_defs =
  EncodeString_def EncodeOpaqueBinary_def EncodeQuotedASCII_def EncodeBytea_def
  EncodeJSONPassthrough_def EncodeUUID_def EncodeBool_def EncodeInt_def EncodeFloat_def
  EncodeNumeric_def

section \<open>Every encoder only appends\<close>

lemma appendHexBytes_eq:
  "appendHexBytes dst src =
   dst @ concat (map (\<lambda>b. [hexLower ! unat (drop_bit 4 b), hexLower ! unat (b AND 0xF)]) src)"
  by (induction src arbitrary: dst) simp_all

lemma text_encoders_append [append_law]:
  "EncodeString dst raw = dst @ EncodeString [] raw"
  "EncodeOpaqueBinary dst raw = dst @ EncodeOpaqueBinary [] raw"
  "EncodeQuotedASCII dst raw = dst @ EncodeQuotedASCII [] raw"
  "EncodeBytea dst raw = dst @ EncodeBytea [] raw"
  "EncodeJSONPassthrough dst raw = dst @ EncodeJSONPassthrough [] raw"
  "EncodeUUID dst raw = dst @ EncodeUUID [] raw"
  "EncodeBool dst raw = dst @ EncodeBool [] raw"
  "EncodeInt dst raw = dst @ EncodeInt [] raw"
  "EncodeFloat dst raw = dst @ EncodeFloat [] raw"
  "EncodeNumeric dst raw = dst @ EncodeNumeric [] raw"
  by (simp_all add: text_encoder_defs appendHexBytes_eq AppendNull_def AppendBool_def
      AppendStringBytes_eq Let_def split: option.split)

lemma text_encoders_null:
  "EncodeString dst None = dst @ bs ''null''" "EncodeOpaqueBinary dst None = dst @ bs ''null''"
  "EncodeQuotedASCII dst None = dst @ bs ''null''" "EncodeBytea dst None = dst @ bs ''null''"
  "EncodeJSONPassthrough dst None = dst @ bs ''null''" "EncodeUUID dst None = dst @ bs ''null''"
  "EncodeBool dst None = dst @ bs ''null''" "EncodeInt dst None = dst @ bs ''null''"
  "EncodeFloat dst None = dst @ bs ''null''" "EncodeNumeric dst None = dst @ bs ''null''"
  by (simp_all add: text_encoder_defs AppendNull_def)

interpretation text_cell: cell_encoder "Pick oid" for oid
proof unfold_locales
  fix dst raw
  show "Pick oid dst raw = dst @ Pick oid [] raw"
    unfolding Pick_def by (auto intro: text_encoders_append)
  show "Pick oid dst None = dst @ bs ''null''"
    unfolding Pick_def by (auto simp only: text_encoders_null split: if_split)
qed

interpretation opaque_cell: cell_encoder EncodeOpaqueBinary
  by unfold_locales (rule text_encoders_append text_encoders_null)+

section \<open>Numbers pass through\<close>

lemma outside_digit_fun [simp]:
  "(\<lambda>c. \<not> (c < 48 \<or> 57 < c)) = is_digit" "(\<lambda>c. \<not> c < 48 \<and> \<not> 57 < c) = is_digit"
  by (auto simp: is_digit_def fun_eq_iff not_less)

lemma special_floats:
  "r \<in> {bs ''NaN'', bs ''Infinity'', bs ''-Infinity''} \<Longrightarrow> isNonFiniteFloat r \<and> \<not> validFloat r"
  by (auto simp: isNonFiniteFloat_def validFloat_def)

lemma is_digit_not_sign: "is_digit c \<Longrightarrow> c \<noteq> 45 \<and> c \<noteq> 43 \<and> c \<noteq> 46"
  by (auto simp: is_digit_def)

lemma digits1_hd: "digits1 d \<Longrightarrow> is_digit (hd d) \<and> is_digit (d ! 0)"
  by (cases d) (auto simp: digits1_def)

lemma json_int_digits1: "json_int i \<Longrightarrow> digits1 i"
  by (auto simp: json_int_def digits1_def is_digit_def)

lemma validFloat_loop_digits:
  "list_all is_digit d \<Longrightarrow>
   validFloat_loop (d @ r) sd dot = validFloat_loop r (sd \<or> d \<noteq> []) dot"
  by (induction d arbitrary: sd) (auto simp: is_digit_def)

lemma validFloat_loop_exp: "json_exp e \<Longrightarrow> validFloat_loop e True dot"
proof -
  assume "json_exp e"
  then consider "e = []"
    | x sg d where "e = [x] @ sg @ d" "x \<in> {101, 69}" "sg \<in> {[], [43], [45]}" "digits1 d"
    by (auto simp: json_exp_def)
  then show ?thesis
  proof cases
    case (2 x sg d)
    then show ?thesis using digits1_hd [of d] is_digit_not_sign [of "hd d"]
      by (auto simp: digits1_def hd_append)
  qed simp
qed

lemma validFloat_loop_frac:
  "json_frac f \<Longrightarrow> json_exp e \<Longrightarrow> validFloat_loop (f @ e) True False"
  using validFloat_loop_exp
  by (auto simp: json_frac_def digits1_def validFloat_loop_digits)

lemma validFloat_json_number:
  assumes "json_number s"
  shows "validFloat s"
proof -
  obtain m i f e where s: "s = m @ i @ f @ e" and m: "m \<in> {[], [45]}" and i: "json_int i"
    and f: "json_frac f" and e: "json_exp e"
    using assms by (auto simp: json_number_def)
  have d: "digits1 i" "i \<noteq> []" "list_all is_digit i" using json_int_digits1 [OF i] by (auto simp: digits1_def)
  have body: "validFloat_loop (i @ f @ e) False False"
    using d validFloat_loop_frac [OF f e] by (simp add: validFloat_loop_digits)
  have "(i @ f @ e) ! 0 \<noteq> 45 \<and> (i @ f @ e) ! 0 \<noteq> 43"
    using digits1_hd [OF d(1)] is_digit_not_sign [of "i ! 0"] d(2) by (simp add: nth_append)
  with m body d(2) show ?thesis by (auto simp: validFloat_def s)
qed

lemma validInt_json_int: "json_int i \<Longrightarrow> m \<in> {[], [45]} \<Longrightarrow> validInt (m @ i)"
  using json_int_digits1 [of i] digits1_hd [of i] is_digit_not_sign [of "i ! 0"]
  by (auto simp: validInt_def digits1_def nth_append)

lemma json_number_hd:
  assumes "json_number s"
  shows "s \<noteq> []" "is_digit (hd s) \<or> hd s = 45 \<and> tl s \<noteq> [] \<and> is_digit (s ! 1)"
proof -
  obtain m i f e where s: "s = m @ i @ f @ e" and m: "m \<in> {[], [45]}" and i: "json_int i"
    using assms by (auto simp: json_number_def)
  have d: "digits1 i" "i \<noteq> []" using json_int_digits1 [OF i] by (auto simp: digits1_def)
  show "s \<noteq> []" "is_digit (hd s) \<or> hd s = 45 \<and> tl s \<noteq> [] \<and> is_digit (s ! 1)"
    using s m digits1_hd [OF d(1)] d(2) by (auto simp: nth_append)
qed

lemma json_number_finite:
  assumes "json_number s"
  shows "\<not> isNonFiniteFloat s" "\<not> (length s = 3 \<and> s ! 0 = 78 \<and> s ! 1 = 97 \<and> s ! 2 = 78)"
  using json_number_hd [OF assms] by (auto simp: isNonFiniteFloat_def is_digit_def hd_conv_nth)

section \<open>The server's text forms\<close>

text \<open>
  What PostgreSQL documents of the text output of each type: integers in plain decimal with an
  optional minus sign, \<open>float4\<close>/\<open>float8\<close>/\<open>numeric\<close> as a decimal with optional exponent or one of
  the three special names, \<open>json\<close>/\<open>jsonb\<close> as JSON, \<open>uuid\<close> as hex digits and dashes, \<open>bytea\<close> in
  the \<open>hex\<close> form as hex digits.
\<close>

definition pg_int_text :: "bytes \<Rightarrow> bool" where
  "pg_int_text r \<longleftrightarrow> (\<exists>m i. r = m @ i \<and> m \<in> {[], [45]} \<and> json_int i)"

definition pg_float_text :: "bytes \<Rightarrow> bool" where
  "pg_float_text r \<longleftrightarrow> r \<in> {bs ''NaN'', bs ''Infinity'', bs ''-Infinity''} \<or> json_number r"

definition server_text :: "OID \<Rightarrow> bytes \<Rightarrow> bool" where
  "server_text oid r =
     (if oid \<in> set [OIDInt2, OIDInt4, OIDInt8, OIDOID] then pg_int_text r
      else if oid \<in> set [OIDFloat4, OIDFloat8, OIDNumeric] then pg_float_text r
      else if oid \<in> set [OIDJSON, OIDJSONB] then json_text r
      else if oid = OIDBytea then take 2 r = [92, 120] \<longrightarrow> list_all is_hex (drop 2 r)
      else if oid = OIDUUID then list_all (\<lambda>c. is_hex c \<or> c = 45) r
      else True)"

lemma plain_json_chars: "list_all (\<lambda>c. 32 \<le> c \<and> c \<noteq> 34 \<and> c \<noteq> 92) r \<Longrightarrow> json_chars r"
  by (induction r) auto

lemma hex_plain: "is_hex c \<Longrightarrow> 32 \<le> c \<and> c \<noteq> 34 \<and> c \<noteq> 92"
  by (auto simp: is_hex_def is_digit_def word_le_nat_alt)

lemma json_text_number [json_intro]: "json_number s \<Longrightarrow> json_text s"
  by (auto intro: json_imp_text json_intro)

lemma json_text_string [json_intro]: "json_string s \<Longrightarrow> json_text s"
  by (auto intro: json_imp_text json_intro)

lemma json_text_quoted [json_intro]: "json_chars b \<Longrightarrow> json_text ([34] @ b @ [34])"
  by (rule json_text_string) (auto simp: json_string_def)

lemma json_text_escaped [json_intro]: "json_text (AppendStringBytes [] r)"
  by (intro json_intro)

lemma json_text_nonempty: "json_text r \<Longrightarrow> r \<noteq> []"
proof -
  have "json s \<Longrightarrow> s \<noteq> []" for s
    by (cases s rule: json.cases) (use json_number_hd in \<open>auto simp: json_string_def\<close>)
  then show "json_text r \<Longrightarrow> r \<noteq> []" by (auto simp: json_text_def)
qed

lemma EncodeInt_text: "pg_int_text r \<Longrightarrow> EncodeInt [] (Some r) = r \<and> json_number r"
proof -
  assume "pg_int_text r"
  then obtain m i where "r = m @ i" "m \<in> {[], [45]}" "json_int i" by (auto simp: pg_int_text_def)
  with validInt_json_int json_number_parts [of m i "[]" "[]"] show ?thesis
    by (simp add: EncodeInt_def json_frac_def json_exp_def)
qed

lemma EncodeFloat_text:
  assumes "pg_float_text r"
  shows "json_text (EncodeFloat [] (Some r))" "json_number r \<Longrightarrow> EncodeFloat [] (Some r) = r"
proof -
  show num: "json_number r \<Longrightarrow> EncodeFloat [] (Some r) = r"
    using validFloat_json_number [of r] json_number_finite [of r] by (simp add: EncodeFloat_def)
  show "json_text (EncodeFloat [] (Some r))"
  proof (cases "json_number r")
    case True
    with num show ?thesis by (auto intro: json_intro)
  next
    case False
    with assms special_floats [of r] show ?thesis
      by (auto simp: pg_float_text_def EncodeFloat_def intro: json_intro)
  qed
qed

lemma EncodeNumeric_text:
  assumes "pg_float_text r"
  shows "json_text (EncodeNumeric [] (Some r))" "json_number r \<Longrightarrow> EncodeNumeric [] (Some r) = r"
proof -
  show num: "json_number r \<Longrightarrow> EncodeNumeric [] (Some r) = r"
    using validFloat_json_number [of r] json_number_finite(2) [of r]
    by (simp only: EncodeNumeric_def option.case if_False append_Nil simp_thms)
  show "json_text (EncodeNumeric [] (Some r))"
  proof (cases "json_number r")
    case True
    with num show ?thesis by (auto intro: json_intro)
  next
    case False
    with assms special_floats [of r] show ?thesis
      by (auto simp: pg_float_text_def EncodeNumeric_def intro: json_intro)
  qed
qed

lemma quoted_forms:
  "json_text (EncodeString [] (Some r))" "json_text (EncodeQuotedASCII [] (Some r))"
  "list_all (\<lambda>c. is_hex c \<or> c = 45) r \<Longrightarrow> json_text (EncodeUUID [] (Some r))"
  "(take 2 r = [92, 120] \<longrightarrow> list_all is_hex (drop 2 r)) \<Longrightarrow> json_text (EncodeBytea [] (Some r))"
  "json_text r \<Longrightarrow> json_text (EncodeJSONPassthrough [] (Some r))"
  "json_text (EncodeBool [] (Some r))"
proof -
  show "json_text (EncodeString [] (Some r))" by (simp add: EncodeString_def json_intro)
  show "json_text (EncodeQuotedASCII [] (Some r))"
  proof (cases "list_ex (\<lambda>c. c < 0x20 \<or> c = 34 \<or> c = 92) r")
    case False
    then have "json_chars r" by (intro plain_json_chars) (auto simp: list_ex_iff list_all_iff)
    with False show ?thesis using json_text_quoted [of r] by (simp add: EncodeQuotedASCII_def)
  qed (simp add: EncodeQuotedASCII_def json_intro)
  show "json_text (EncodeUUID [] (Some r))" if "list_all (\<lambda>c. is_hex c \<or> c = 45) r"
  proof -
    from that have "json_chars r"
      by (intro plain_json_chars) (auto simp: list_all_iff dest: hex_plain)
    then show ?thesis using json_text_quoted [of r] by (simp add: EncodeUUID_def json_intro)
  qed
  show "json_text (EncodeBytea [] (Some r))" if "take 2 r = [92, 120] \<longrightarrow> list_all is_hex (drop 2 r)"
  proof (cases "2 \<le> length r \<and> r ! 0 = 92 \<and> r ! 1 = 120")
    case True
    then obtain r' where r': "r = 92 # 120 # r'" by (cases r; cases "tl r") auto
    with that have "json_chars r'" by (intro plain_json_chars) (auto simp: list_all_iff dest: hex_plain)
    then have "json_chars ([92, 92, 120] @ r')" by simp
    then show ?thesis using r' json_text_quoted [of "[92, 92, 120] @ r'"] by (simp add: EncodeBytea_def)
  qed (auto simp: EncodeBytea_def json_intro)
  show "json_text (EncodeJSONPassthrough [] (Some r))" if "json_text r"
    using that json_text_nonempty by (simp add: EncodeJSONPassthrough_def)
  show "json_text (EncodeBool [] (Some r))"
    by (auto simp: EncodeBool_def AppendBool_def intro!: json_imp_text json_true [simplified] json_false [simplified])
qed

section \<open>Properties\<close>

text \<open>
  C4. A text-format cell is JSON: whatever the type of the column, if the server keeps to its
  documented text forms then the encoder chosen by \<open>Pick\<close> appends exactly one JSON text, and
  an integer, float or numeric that is a number comes out verbatim as a JSON number.
\<close>

theorem text_cell_is_json:
  assumes "server_text oid r"
  shows "\<exists>cell. Pick oid dst (Some r) = dst @ cell \<and> json_text cell \<and>
           (oid \<in> set [OIDInt2, OIDInt4, OIDInt8, OIDOID, OIDFloat4, OIDFloat8, OIDNumeric] \<and> json_number r
              \<longrightarrow> cell = r)"
proof -
  have "json_text (Pick oid [] (Some r))"
    using assms EncodeInt_text [of r] EncodeFloat_text [of r] EncodeNumeric_text [of r] quoted_forms [of r]
    by (auto simp: Pick_def server_text_def split: if_splits intro: json_intro)
  moreover have "Pick oid [] (Some r) = r"
    if "oid \<in> set [OIDInt2, OIDInt4, OIDInt8, OIDOID, OIDFloat4, OIDFloat8, OIDNumeric]" "json_number r"
    using that assms EncodeInt_text [of r] EncodeFloat_text [of r] EncodeNumeric_text [of r]
    by (auto simp: Pick_def server_text_def split: if_splits)
  ultimately show ?thesis by (metis text_cell.enc_append)
qed

theorem text_cell_is_json_witness:
  "\<exists>cell. Pick OIDInt4 [91] (Some (bs ''-12'')) = [91] @ cell \<and> json_text cell \<and> cell = bs ''-12''"
proof -
  have i: "json_int (bs ''12'')" by (simp add: json_int_def digits1_def is_digit_def)
  have t: "server_text OIDInt4 (bs ''-12'')"
    using i by (auto simp: server_text_def pg_int_text_def intro: exI [of _ "[45]"])
  have n: "json_number (bs ''-12'')"
    using json_number_parts [OF _ i, of "[45]" "[]" "[]"] by (simp add: json_frac_def json_exp_def)
  from text_cell_is_json [OF t, of "[91]"] n show ?thesis by auto
qed

end
