(* ===== verification/Types_Time.thy ===== *)
theory Types_Time
  imports Types_Text
begin

text \<open>
  The date and timestamp part of \<open>internal/types/binary.go\<close>: the binary forms of \<open>timestamp\<close>,
  \<open>timestamptz\<close> and \<open>date\<close> rendered as ISO 8601 without \<open>time.Time\<close>. Signed Go integers are \<open>int\<close>, with \<open>s32\<close>, \<open>s64\<close> and
  \<open>u64\<close> written where an operation can leave its width; Go's truncating \<open>/\<close> and \<open>%\<close> are
  \<open>sdiv\<close> and \<open>smod\<close>. Shown: the calendar split agrees with the Gregorian rules day by day, and
  the fields each encoder renders.
\<close>

section \<open>Small helpers of binary.go\<close>

text \<open>Go's \<open>byte(x)\<close> and \<open>uint64(x)\<close>.\<close>

definition byte_of :: "int \<Rightarrow> byte" where
  "byte_of x = word_of_int x"

definition u64 :: "int \<Rightarrow> int" where
  "u64 x = take_bit 64 x"

definition append2 :: "bytes \<Rightarrow> int \<Rightarrow> bytes" where
  "append2 dst v = dst @ [byte_of (48 + v sdiv 10), byte_of (48 + v smod 10)]"

definition appendInt4 :: "bytes \<Rightarrow> int \<Rightarrow> bytes" where
  "appendInt4 dst v =
     (let (dst, v) = (if v < 0 then (dst @ [45], s64 (- v)) else (dst, v)) in
      if v \<ge> 10000 then dst @ dec_int v
      else dst @ [byte_of (48 + v sdiv 1000 smod 10), byte_of (48 + v sdiv 100 smod 10),
                  byte_of (48 + v sdiv 10 smod 10), byte_of (48 + v smod 10)])"

definition append6 :: "bytes \<Rightarrow> int \<Rightarrow> bytes" where
  "append6 dst v =
     dst @ [byte_of (48 + v sdiv 100000 smod 10), byte_of (48 + v sdiv 10000 smod 10),
            byte_of (48 + v sdiv 1000 smod 10), byte_of (48 + v sdiv 100 smod 10),
            byte_of (48 + v sdiv 10 smod 10), byte_of (48 + v smod 10)]"

definition pgEpochUnix :: int where "pgEpochUnix = 946684800"
definition usecPerDay :: int where "usecPerDay = 86400 * 1000000"

section \<open>splitTime\<close>

text \<open>
  The tail of \<open>splitTime\<close>: days since 1970-01-01 to a civil date. The unsigned steps are kept
  at 64 bits by \<open>u64\<close>; \<open>era\<close> and \<open>y\<close> are \<open>int64\<close>.
\<close>

definition civil_of_days :: "int \<Rightarrow> int \<times> int \<times> int" where
  "civil_of_days days =
     (let z = days + 719468;
          era = (if z < 0 then z - 146096 else z);
          era = era sdiv 146097;
          doe = u64 (z - era * 146097);
          yoe = u64 (doe - doe div 1460 + doe div 36524 - doe div 146096) div 365;
          y = yoe + era * 400;
          doy = u64 (doe - u64 (365 * yoe + yoe div 4 - yoe div 100));
          mp = u64 (5 * doy + 2) div 153;
          d = u64 (doy - u64 (153 * mp + 2) div 5 + 1);
          m = (if mp < 10 then mp + 3 else u64 (mp - 9));
          y = (if m \<le> 2 then y + 1 else y)
      in (y, m, d))"

definition splitTime :: "int \<Rightarrow> int \<times> int \<times> int \<times> int \<times> int \<times> int" where
  "splitTime sec =
     (let days = sec sdiv 86400;
          rem = sec - days * 86400;
          (rem, days) = (if rem < 0 then (rem + 86400, days - 1) else (rem, days));
          hour = rem sdiv 3600;
          rem = rem - hour * 3600;
          min = rem sdiv 60;
          second = rem - min * 60;
          (year, month, day) = civil_of_days days
      in (year, month, day, hour, min, second))"

definition appendISOTimestamp :: "bytes \<Rightarrow> int \<Rightarrow> bytes \<Rightarrow> bytes" where
  "appendISOTimestamp dst usec tzSuffix =
     (let sec = pgEpochUnix + usec sdiv 1000000;
          frac = usec smod 1000000;
          (sec, frac) = (if frac < 0 then (sec - 1, frac + 1000000) else (sec, frac));
          (y, mo, d, hh, mm, ss) = splitTime sec;
          dst = appendInt4 dst y;
          dst = dst @ [45];
          dst = append2 dst mo;
          dst = dst @ [45];
          dst = append2 dst d;
          dst = dst @ [84];
          dst = append2 dst hh;
          dst = dst @ [58];
          dst = append2 dst mm;
          dst = dst @ [58];
          dst = append2 dst ss;
          dst = (if frac \<noteq> 0 then append6 (dst @ [46]) frac else dst)
      in dst @ tzSuffix)"

definition appendISODateOnly :: "bytes \<Rightarrow> int \<Rightarrow> bytes" where
  "appendISODateOnly dst usec =
     (let sec = pgEpochUnix + usec sdiv 1000000;
          (y, mo, d, _, _, _) = splitTime sec;
          dst = appendInt4 dst y;
          dst = dst @ [45];
          dst = append2 dst mo;
          dst = dst @ [45]
      in append2 dst d)"

definition MaxInt64 :: int where [simp]: "MaxInt64 = 2 ^ 63 - 1"
definition MinInt64 :: int where [simp]: "MinInt64 = - (2 ^ 63)"
definition MaxInt32 :: int where [simp]: "MaxInt32 = 2 ^ 31 - 1"
definition MinInt32 :: int where [simp]: "MinInt32 = - (2 ^ 31)"

definition encodeTimestampBinary :: encoder where
  "encodeTimestampBinary dst raw =
     (case raw of
        None \<Rightarrow> AppendNull dst
      | Some r \<Rightarrow>
          if length r \<noteq> 8 then AppendStringBytes dst r
          else
            let usec = beI64 r in
            if usec = MaxInt64 then dst @ bs ''\"infinity\"''
            else if usec = MinInt64 then dst @ bs ''\"-infinity\"''
            else
              let dst = dst @ [34];
                  dst = appendISOTimestamp dst usec []
              in dst @ [34])"

definition encodeTimestampTZBinary :: encoder where
  "encodeTimestampTZBinary dst raw =
     (case raw of
        None \<Rightarrow> AppendNull dst
      | Some r \<Rightarrow>
          if length r \<noteq> 8 then AppendStringBytes dst r
          else
            let usec = beI64 r in
            if usec = MaxInt64 then dst @ bs ''\"infinity\"''
            else if usec = MinInt64 then dst @ bs ''\"-infinity\"''
            else
              let dst = dst @ [34];
                  dst = appendISOTimestamp dst usec (bs ''Z'')
              in dst @ [34])"

definition encodeDateBinary :: encoder where
  "encodeDateBinary dst raw =
     (case raw of
        None \<Rightarrow> AppendNull dst
      | Some r \<Rightarrow>
          if length r \<noteq> 4 then AppendStringBytes dst r
          else
            let days = beI32 r in
            if days = MaxInt32 then dst @ bs ''\"infinity\"''
            else if days = MinInt32 then dst @ bs ''\"-infinity\"''
            else
              let usec = s64 (days * usecPerDay);
                  dst = dst @ [34];
                  dst = appendISODateOnly dst usec
              in dst @ [34])"

section \<open>The Gregorian calendar\<close>

text \<open>The reference: leap years, month lengths and the day after a date.\<close>

definition is_leap :: "int \<Rightarrow> bool" where
  "is_leap y \<longleftrightarrow> y mod 4 = 0 \<and> (y mod 100 \<noteq> 0 \<or> y mod 400 = 0)"

definition days_in_month :: "int \<Rightarrow> int \<Rightarrow> int" where
  "days_in_month y m =
     (if m = 2 then (if is_leap y then 29 else 28) else if m \<in> {4, 6, 9, 11} then 30 else 31)"

fun next_day :: "int \<times> int \<times> int \<Rightarrow> int \<times> int \<times> int" where
  "next_day (y, m, d) =
     (if d < days_in_month y m then (y, m, d + 1)
      else if m < 12 then (y, m + 1, 1)
      else (y + 1, 1, 1))"

lemma sdiv_nonneg: "0 \<le> a \<Longrightarrow> 0 < b \<Longrightarrow> (a :: int) sdiv b = a div b"
  by (cases "a = 0") (simp_all add: signed_divide_int_def)

lemma smod_nonneg: "0 \<le> a \<Longrightarrow> 0 < b \<Longrightarrow> (a :: int) smod b = a mod b"
  by (cases "a = 0") (simp_all add: signed_modulo_int_def)

lemma u64_id: "0 \<le> x \<Longrightarrow> x < 2 ^ 64 \<Longrightarrow> u64 x = x"
  unfolding u64_def by (rule take_bit_int_eq_self) simp_all

text \<open>Truncating division of a shifted negative number is rounding down.\<close>

lemma sdiv_neg: "a < 0 \<Longrightarrow> 0 < b \<Longrightarrow> (a :: int) sdiv b = - ((- a) div b)"
  by (simp add: signed_divide_int_def)

lemma neg_ceil_div:
  fixes z b :: int
  assumes "0 < b"
  shows "- ((b - 1 - z) div b) = z div b"
proof -
  have "b - 1 - z = b * (- (z div b)) + (b - 1 - z mod b)"
    using mult_div_mod_eq [of b z] by (simp add: algebra_simps)
  moreover have "0 \<le> b - 1 - z mod b" "b - 1 - z mod b < b"
    using pos_mod_bound [OF assms, of z] pos_mod_sign [OF assms, of z] by linarith+
  ultimately have "(b - 1 - z) div b = - (z div b)" by (metis int_div_pos_eq)
  then show ?thesis by simp
qed

lemma era_floor: "(if z < 0 then z - 146096 else z) sdiv 146097 = (z :: int) div 146097"
  using neg_ceil_div [of 146097 z] by (simp add: sdiv_nonneg sdiv_neg)

lemma day_floor:
  fixes sec :: int
  shows "(let days = sec sdiv 86400; rem = sec - days * 86400
          in if rem < 0 then (rem + 86400, days - 1) else (rem, days)) = (sec mod 86400, sec div 86400)"
proof (cases "sec < 0")
  case True
  then have s: "sec sdiv 86400 = (if sec mod 86400 = 0 then sec div 86400 else sec div 86400 + 1)"
    by (simp add: sdiv_neg zdiv_zminus1_eq_if)
  have "sec = 86400 * (sec div 86400) + sec mod 86400" "0 \<le> sec mod 86400" "sec mod 86400 < 86400"
    by simp_all
  then show ?thesis unfolding s Let_def minus_mult_div_eq_mod
    by (auto simp: algebra_simps minus_mult_div_eq_mod)
qed (simp add: Let_def sdiv_nonneg minus_div_mult_eq_mod not_less [symmetric])

text \<open>The year of the 400-year era, counted from March, and the first day of each such year.\<close>

definition yoe_of :: "int \<Rightarrow> int" where
  "yoe_of doe = (doe - doe div 1460 + doe div 36524 - doe div 146096) div 365"

definition ystart :: "int \<Rightarrow> int" where
  "ystart k = 365 * k + k div 4 - k div 100"

definition ylen :: "int \<Rightarrow> int" where
  "ylen k = (if is_leap (k + 1) then 366 else 365)"

lemma div_add_one:
  fixes d n :: int
  assumes "0 < n"
  shows "(d + 1) div n = d div n + (if n dvd d + 1 then 1 else 0)"
proof -
  let ?r = "d mod n"
  have d: "d = n * (d div n) + ?r" and r: "0 \<le> ?r" "?r < n" using assms by simp_all
  show ?thesis
  proof (cases "?r = n - 1")
    case True
    have e: "d + 1 = n * (d div n + 1)" unfolding distrib_left using True d by linarith
    then show ?thesis using assms by (simp only: e) simp
  next
    case False
    with r have "0 \<le> ?r + 1" "?r + 1 < n" by simp_all
    moreover have e: "d + 1 = n * (d div n) + (?r + 1)" using d by simp
    ultimately have "(d + 1) div n = d div n" "(d + 1) mod n = ?r + 1"
      by (metis int_div_pos_eq, metis int_mod_pos_eq)
    with r show ?thesis by (simp add: dvd_eq_mod_eq_0)
  qed
qed

lemma yoe_step: "yoe_of d \<le> yoe_of (d + 1)"
proof -
  have "(146096 :: int) dvd d + 1 \<Longrightarrow> 36524 dvd d + 1"
    by (rule dvd_trans [of 36524 146096]) simp_all
  then have "d - d div 1460 + d div 36524 - d div 146096
        \<le> (d + 1) - (d + 1) div 1460 + (d + 1) div 36524 - (d + 1) div 146096"
    by (simp add: div_add_one)
  then show ?thesis unfolding yoe_of_def by (rule zdiv_mono1) simp
qed

lemma yoe_mono: "a \<le> b \<Longrightarrow> yoe_of a \<le> yoe_of b"
proof (induction b rule: int_ge_induct)
  case (step i)
  then show ?case using yoe_step [of i] by linarith
qed simp

lemma yoe_table:
  "list_all (\<lambda>k. yoe_of (ystart k) = k \<and> yoe_of (ystart k + ylen k - 1) = k \<and>
      (k < 399 \<longrightarrow> ystart (k + 1) = ystart k + ylen k)) [0..399]"
  by code_simp

lemma yoe_ends:
  assumes "0 \<le> k" "k \<le> 399"
  shows "yoe_of (ystart k) = k" "yoe_of (ystart k + ylen k - 1) = k"
    "k < 399 \<Longrightarrow> ystart (k + 1) = ystart k + ylen k"
  using yoe_table assms by (auto simp: list_all_iff)

lemma yoe_unique:
  assumes "0 \<le> k" "k \<le> 399" "ystart k \<le> d" "d < ystart k + ylen k"
  shows "yoe_of d = k"
  using yoe_mono [OF assms(3)] yoe_mono [of d "ystart k + ylen k - 1"] yoe_ends [OF assms(1,2)] assms(4)
  by simp

lemma yoe_range:
  assumes "0 \<le> d" "d \<le> 146096"
  shows "0 \<le> yoe_of d" "yoe_of d \<le> 399"
  using yoe_mono [OF assms(1)] yoe_mono [OF assms(2)] by (simp_all add: yoe_of_def)

lemma yoe_bounds:
  assumes "0 \<le> d" "d \<le> 146096"
  shows "ystart (yoe_of d) \<le> d" "d < ystart (yoe_of d) + ylen (yoe_of d)"
proof -
  define k where "k = yoe_of d"
  have k: "0 \<le> k" "k \<le> 399" using yoe_range [OF assms] by (simp_all add: k_def)
  show "ystart (yoe_of d) \<le> d"
  proof (rule ccontr)
    assume "\<not> ystart (yoe_of d) \<le> d"
    then have lt: "d < ystart k" by (simp add: k_def)
    then have "k \<noteq> 0" using assms(1) by (auto simp: ystart_def)
    with k have k1: "0 \<le> k - 1" "k - 1 \<le> 399" "k - 1 < 399" by simp_all
    have "ystart k = ystart (k - 1) + ylen (k - 1)" using yoe_ends(3) [OF k1] by simp
    with lt yoe_mono [of d "ystart (k - 1) + ylen (k - 1) - 1"] yoe_ends(2) [OF k1(1,2)]
    show False by (simp add: k_def)
  qed
  show "d < ystart (yoe_of d) + ylen (yoe_of d)"
  proof (rule ccontr)
    assume "\<not> d < ystart (yoe_of d) + ylen (yoe_of d)"
    then have ge: "ystart k + ylen k \<le> d" by (simp add: k_def)
    have "k \<noteq> 399" using ge assms(2) by (auto simp: ystart_def ylen_def is_leap_def)
    with k have k1: "0 \<le> k + 1" "k + 1 \<le> 399" "k < 399" by simp_all
    from ge yoe_ends(3) [OF k k1(3)] yoe_mono [of "ystart (k + 1)" d] yoe_ends(1) [OF k1(1,2)]
    show False by (simp add: k_def)
  qed
qed

text \<open>Month and day of the day of a year that begins in March.\<close>

definition md_of :: "int \<Rightarrow> int \<times> int" where
  "md_of doy =
     (let mp = (5 * doy + 2) div 153 in
      (if mp < 10 then mp + 3 else mp - 9, doy - (153 * mp + 2) div 5 + 1))"

definition md_next :: "int \<times> int \<Rightarrow> int \<times> int" where
  "md_next md =
     (let (m, d) = md in
      if d < days_in_month 4 m then (m, d + 1) else if m < 12 then (m + 1, 1) else (1, 1))"

lemma md_table:
  "list_all (\<lambda>d. md_of (d + 1) = md_next (md_of d) \<and> (fst (md_of d) = 2 \<longrightarrow> snd (md_of d) = d - 336) \<and>
      1 \<le> fst (md_of d) \<and> fst (md_of d) \<le> 12 \<and> 1 \<le> snd (md_of d) \<and> snd (md_of d) \<le> days_in_month 4 (fst (md_of d)) \<and>
      (fst (md_of d) = 12 \<longrightarrow> snd (md_of d) \<le> 31)) [0..364]"
  "md_of 365 = (2, 29)" "md_of 364 = (2, 28)" "md_of 0 = (3, 1)"
  by code_simp+

lemma md_facts:
  assumes "0 \<le> d" "d \<le> 364"
  shows "md_of (d + 1) = md_next (md_of d)" "fst (md_of d) = 2 \<Longrightarrow> snd (md_of d) = d - 336"
    "1 \<le> fst (md_of d)" "fst (md_of d) \<le> 12" "1 \<le> snd (md_of d)"
    "snd (md_of d) \<le> days_in_month 4 (fst (md_of d))"
  using md_table(1) assms by (auto simp: list_all_iff)

text \<open>The civil date of day \<open>doe\<close> of era \<open>era\<close>.\<close>

definition civil_of_era :: "int \<Rightarrow> int \<Rightarrow> int \<times> int \<times> int" where
  "civil_of_era era doe =
     (let k = yoe_of doe; (m, d) = md_of (doe - ystart k)
      in (k + era * 400 + (if m \<le> 2 then 1 else 0), m, d))"

lemma doy_bounds:
  assumes "0 \<le> doe" "doe \<le> 146096"
  shows "0 \<le> doe - ystart (yoe_of doe)" "doe - ystart (yoe_of doe) < ylen (yoe_of doe)"
    "ylen (yoe_of doe) \<le> 366" "0 \<le> ystart (yoe_of doe)"
proof -
  have "yoe_of doe div 100 \<le> yoe_of doe div 4" using yoe_range(1) [OF assms] by (intro zdiv_mono2) simp_all
  then show "0 \<le> ystart (yoe_of doe)" using yoe_range(1) [OF assms] by (simp add: ystart_def)
qed (use yoe_bounds [OF assms] in \<open>auto simp: ylen_def\<close>)

lemma civil_of_days_eq: "civil_of_days n = civil_of_era ((n + 719468) div 146097) ((n + 719468) mod 146097)"
proof -
  define z doe where "z = n + 719468" and "doe = z mod 146097"
  define k doy where "k = yoe_of doe" and "doy = doe - ystart k"
  have doe: "0 \<le> doe" "doe \<le> 146096" by (simp_all add: doe_def)
  have k: "0 \<le> k" "k \<le> 399" using yoe_range [OF doe] by (simp_all add: k_def)
  have doy: "0 \<le> doy" "doy \<le> 365" "0 \<le> ystart k"
    using doy_bounds [OF doe] by (simp_all add: doy_def k_def ylen_def split: if_splits)
  have e: "u64 (z - z div 146097 * 146097) = doe"
    using doe by (simp add: doe_def minus_div_mult_eq_mod u64_id)
  have num: "0 \<le> doe - doe div 1460 + doe div 36524 - doe div 146096"
    "doe - doe div 1460 + doe div 36524 - doe div 146096 < 2 ^ 64"
    using doe zdiv_mono2 [of doe 1 1460] zdiv_mono2 [of doe 36524 146096] zdiv_mono2 [of doe 1 36524]
      pos_imp_zdiv_nonneg_iff [of 146096 doe] pos_imp_zdiv_nonneg_iff [of 1460 doe]
    by simp_all
  have y: "u64 (doe - doe div 1460 + doe div 36524 - doe div 146096) div 365 = k"
    using num by (simp add: u64_id k_def yoe_of_def)
  have ys: "u64 (365 * k + k div 4 - k div 100) = ystart k"
    using doy k yoe_bounds(1) [OF doe] doe by (simp add: ystart_def [symmetric] u64_id k_def [symmetric])
  have dy: "u64 (doe - ystart k) = doy" using doy by (simp add: doy_def [symmetric] u64_id)
  define mp where "mp = (5 * doy + 2) div 153"
  have mp: "u64 (5 * doy + 2) div 153 = mp" "0 \<le> mp" "mp \<le> 11"
    using doy by (simp_all add: mp_def u64_id)
  have d: "u64 (doy - u64 (153 * mp + 2) div 5 + 1) = doy - (153 * mp + 2) div 5 + 1"
  proof -
    have "u64 (153 * mp + 2) = 153 * mp + 2" using mp by (simp add: u64_id)
    moreover have "snd (md_of doy) = doy - (153 * mp + 2) div 5 + 1" by (simp add: md_of_def mp_def Let_def)
    moreover have "1 \<le> snd (md_of doy)"
      using doy md_facts(5) [of doy] md_table(2) by (cases "doy = 365") simp_all
    moreover have "0 \<le> (153 * mp + 2) div 5" using mp by simp
    ultimately show ?thesis using doy by (simp add: u64_id)
  qed
  have m: "(if mp < 10 then mp + 3 else u64 (mp - 9)) = (if mp < 10 then mp + 3 else mp - 9)"
    using mp by (simp add: u64_id)
  show ?thesis
    unfolding civil_of_days_def Let_def z_def [symmetric] era_floor e y ys dy mp(1) d m
    unfolding civil_of_era_def md_of_def Let_def doe_def [symmetric] k_def [symmetric] doy_def [symmetric] mp_def [symmetric]
    by simp
qed

lemma leap_era: "is_leap (k + era * 400 + 1) = is_leap (k + 1)"
proof -
  have "(k + era * 400 + 1) mod 4 = (k + 1) mod 4" "(k + era * 400 + 1) mod 100 = (k + 1) mod 100"
    "(k + era * 400 + 1) mod 400 = (k + 1) mod 400"
    using mod_mult_self1 [of "k + 1" "era * 100" 4] mod_mult_self1 [of "k + 1" "era * 4" 100]
      mod_mult_self1 [of "k + 1" era 400] by (simp_all add: algebra_simps)
  then show ?thesis by (simp add: is_leap_def)
qed

lemma days_in_month_4: "m \<noteq> 2 \<Longrightarrow> days_in_month y m = days_in_month 4 m"
  by (simp add: days_in_month_def)

text \<open>Inside a March-based year the date advances by one day.\<close>

lemma civil_in_year:
  assumes "0 \<le> doe" "doe < 146096" "doe - ystart (yoe_of doe) + 1 < ylen (yoe_of doe)"
  shows "civil_of_era era (doe + 1) = next_day (civil_of_era era doe)"
proof -
  define k doy where "k = yoe_of doe" and "doy = doe - ystart k"
  have doe: "0 \<le> doe" "doe \<le> 146096" using assms by simp_all
  have k: "0 \<le> k" "k \<le> 399" using yoe_range [OF doe] by (simp_all add: k_def)
  have doy: "0 \<le> doy" "doy \<le> 364" "doy + 1 < ylen k"
    using doy_bounds [OF doe] assms(3) by (simp_all add: doy_def k_def)
  have k': "yoe_of (doe + 1) = k"
    using k doy by (intro yoe_unique) (simp_all add: doy_def)
  obtain m d where md: "md_of doy = (m, d)" by (cases "md_of doy")
  have nx: "md_of (doy + 1) = md_next (m, d)" and f: "m = 2 \<Longrightarrow> d = doy - 336"
    and r: "1 \<le> m" "m \<le> 12" "1 \<le> d" "d \<le> days_in_month 4 m"
    using md_facts [OF doy(1,2)] md by auto
  have leap: "doy = 364 \<Longrightarrow> is_leap (k + 1)" using doy(3) by (simp add: ylen_def split: if_splits)
  have feb: "m = 2 \<Longrightarrow> d < days_in_month (k + era * 400 + 1) 2 \<and> d < 29"
    using f doy leap by (cases "doy = 364") (auto simp: days_in_month_def leap_era)
  have "civil_of_era era (doe + 1) = (let (m', d') = md_next (m, d) in (k + era * 400 + (if m' \<le> 2 then 1 else 0), m', d'))"
    unfolding civil_of_era_def Let_def k' using nx by (simp add: doy_def algebra_simps)
  moreover have "civil_of_era era doe = (k + era * 400 + (if m \<le> 2 then 1 else 0), m, d)"
    unfolding civil_of_era_def Let_def k_def [symmetric] doy_def [symmetric] md by simp
  ultimately show ?thesis
  proof (cases "m = 2")
    case True
    with feb \<open>civil_of_era era (doe + 1) = _\<close> \<open>civil_of_era era doe = _\<close> show ?thesis
      by (simp add: md_next_def days_in_month_def is_leap_def [of 4])
  next
    case False
    with r \<open>civil_of_era era (doe + 1) = _\<close> \<open>civil_of_era era doe = _\<close> show ?thesis
      using days_in_month_4 [OF False, of "k + era * 400"] days_in_month_4 [OF False, of "k + era * 400 + 1"]
      by (auto simp: md_next_def)
  qed
qed

text \<open>The last day of a March-based year is the last day of February.\<close>

lemma civil_year_end:
  assumes "0 \<le> doe" "doe \<le> 146096" "doe - ystart (yoe_of doe) + 1 = ylen (yoe_of doe)"
  shows "next_day (civil_of_era era doe) = (yoe_of doe + era * 400 + 1, 3, 1)"
  using assms md_table(2,3)
  by (cases "is_leap (yoe_of doe + 1)")
     (auto simp: civil_of_era_def ylen_def days_in_month_def leap_era dest!: eq_diff_eq [THEN iffD2])

lemma civil_next_year:
  assumes "0 \<le> doe" "doe < 146096" "doe - ystart (yoe_of doe) + 1 = ylen (yoe_of doe)"
  shows "civil_of_era era (doe + 1) = (yoe_of doe + era * 400 + 1, 3, 1)"
proof -
  define k where "k = yoe_of doe"
  have k: "0 \<le> k" "k \<le> 399" using yoe_range [of doe] assms by (simp_all add: k_def)
  have "k \<noteq> 399"
  proof
    assume "k = 399"
    with assms(2,3) show False by (simp add: k_def [symmetric] ystart_def ylen_def is_leap_def)
  qed
  with k have k1: "k < 399" "0 \<le> k + 1" "k + 1 \<le> 399" by simp_all
  have "doe + 1 = ystart (k + 1)" using yoe_ends(3) [OF k k1(1)] assms(3) by (simp add: k_def)
  then have "yoe_of (doe + 1) = k + 1" "doe + 1 - ystart (k + 1) = 0" using yoe_ends(1) [OF k1(2,3)] by simp_all
  then show ?thesis using md_table(4) by (simp add: civil_of_era_def k_def)
qed

lemma civil_succ: "civil_of_days (n + 1) = next_day (civil_of_days n)"
proof -
  define z where "z = n + 719468"
  define era doe where "era = z div 146097" and "doe = z mod 146097"
  have doe: "0 \<le> doe" "doe \<le> 146096" by (simp_all add: doe_def)
  have now: "civil_of_days n = civil_of_era era doe"
    by (simp add: civil_of_days_eq z_def era_def doe_def)
  have z: "z = 146097 * era + doe" by (simp add: era_def doe_def)
  show ?thesis
  proof (cases "doe = 146096")
    case True
    with z have "z + 1 = 146097 * (era + 1)" by simp
    then have "(z + 1) div 146097 = era + 1" "(z + 1) mod 146097 = 0" by simp_all
    then have "civil_of_days (n + 1) = civil_of_era (era + 1) 0"
      by (simp add: civil_of_days_eq z_def algebra_simps)
    also have "\<dots> = (400 * (era + 1), 3, 1)"
      using md_table(4) by (simp add: civil_of_era_def yoe_of_def ystart_def)
    also have "\<dots> = next_day (civil_of_era era doe)"
    proof -
      have y: "yoe_of 146096 = 399" by (simp add: yoe_of_def)
      have "(146096 :: int) - ystart (yoe_of 146096) + 1 = ylen (yoe_of 146096)"
        unfolding y by (simp add: ystart_def ylen_def is_leap_def)
      from civil_year_end [OF _ _ this, of era] show ?thesis by (simp add: True y)
    qed
    finally show ?thesis by (simp add: now)
  next
    case False
    with doe have lt: "doe < 146096" by simp
    have e: "z + 1 = 146097 * era + (doe + 1)" using z by simp
    have "(z + 1) div 146097 = era" "(z + 1) mod 146097 = doe + 1"
      using doe lt int_div_pos_eq [OF e] int_mod_pos_eq [OF e] by simp_all
    then have s: "civil_of_days (n + 1) = civil_of_era era (doe + 1)"
      by (simp add: civil_of_days_eq z_def algebra_simps)
    have "doe - ystart (yoe_of doe) < ylen (yoe_of doe)" using doy_bounds [OF doe] by simp
    then consider "doe - ystart (yoe_of doe) + 1 < ylen (yoe_of doe)"
      | "doe - ystart (yoe_of doe) + 1 = ylen (yoe_of doe)" by linarith
    then show ?thesis unfolding s now
      by cases (use civil_in_year [OF doe(1) lt] civil_year_end [OF doe] civil_next_year [OF doe(1) lt] in auto)
  qed
qed

lemma splitTime_eq:
  "splitTime sec =
     (let r = sec mod 86400; (y, m, d) = civil_of_days (sec div 86400)
      in (y, m, d, r div 3600, r mod 3600 div 60, r mod 60))"
proof -
  have r: "0 \<le> sec mod 86400" by simp
  have m: "sec mod 86400 - sec mod 86400 div 3600 * 3600 = sec mod 86400 mod 3600"
    by (simp only: minus_div_mult_eq_mod)
  have "x mod 3600 - x mod 3600 div 60 * 60 = x mod 60" for x :: int
    by (simp add: minus_div_mult_eq_mod mod_mod_cancel)
  then show ?thesis
    unfolding splitTime_def using day_floor [of sec]
    by (simp add: Let_def sdiv_nonneg m split: prod.splits if_splits)
qed

section \<open>Rendered fields\<close>

lemma byte_of_digit: "0 \<le> v \<Longrightarrow> v < 10 \<Longrightarrow> byte_of (48 + v) = digit (nat v)"
  by (simp add: byte_of_def digit_def)

lemma byte_of_digit_mod: "0 \<le> v \<Longrightarrow> byte_of (48 + v smod 10) = digit (nat v mod 10)"
  by (simp add: smod_nonneg byte_of_digit nat_mod_distrib)

lemma byte_of_digit_div:
  "0 \<le> v \<Longrightarrow> 0 < k \<Longrightarrow> byte_of (48 + v sdiv k smod 10) = digit (nat v div nat k mod 10)"
  by (simp add: smod_nonneg sdiv_nonneg byte_of_digit nat_mod_distrib nat_div_distrib
      pos_imp_zdiv_nonneg_iff)

lemma append2_pad: "0 \<le> v \<Longrightarrow> v < 100 \<Longrightarrow> append2 dst v = dst @ pad 2 (nat v)"
  by (simp add: append2_def numeral_2_eq_2 byte_of_digit_mod byte_of_digit sdiv_nonneg
      nat_div_distrib pos_imp_zdiv_nonneg_iff)

lemma pad_2: "pad 2 n = [digit (n div 10 mod 10), digit (n mod 10)]"
  by (simp add: numeral_2_eq_2)

lemma pad_4:
  "pad 4 n = [digit (n div 1000 mod 10), digit (n div 100 mod 10), digit (n div 10 mod 10), digit (n mod 10)]"
proof -
  have four: "(4 :: nat) = Suc (Suc (Suc (Suc 0)))" by simp
  show ?thesis unfolding four by (simp add: div_mult2_eq [symmetric])
qed

lemma pad_6:
  "pad 6 n = [digit (n div 100000 mod 10), digit (n div 10000 mod 10), digit (n div 1000 mod 10),
              digit (n div 100 mod 10), digit (n div 10 mod 10), digit (n mod 10)]"
proof -
  have six: "(6 :: nat) = Suc (Suc (Suc (Suc (Suc (Suc 0)))))" by simp
  show ?thesis unfolding six by (simp add: div_mult2_eq [symmetric])
qed

lemma append6_pad: "0 \<le> v \<Longrightarrow> append6 dst v = dst @ pad 6 (nat v)"
  by (simp add: append6_def pad_6 byte_of_digit_mod byte_of_digit_div)

text \<open>A year: at least four digits, with a minus sign when negative.\<close>

definition year_text :: "int \<Rightarrow> bytes" where
  "year_text y =
     (if y < 0 then [45] else []) @
     (if 10000 \<le> \<bar>y\<bar> then dec_nat (nat \<bar>y\<bar>) else pad 4 (nat \<bar>y\<bar>))"

lemma appendInt4_nonneg:
  "0 \<le> v \<Longrightarrow> appendInt4 dst v = dst @ (if 10000 \<le> v then dec_nat (nat v) else pad 4 (nat v))"
  by (simp add: appendInt4_def dec_int_def pad_4 byte_of_digit_mod byte_of_digit_div)

lemma appendInt4_year:
  assumes "- (2 ^ 63) < y" "y < 2 ^ 63"
  shows "appendInt4 dst y = dst @ year_text y"
proof (cases "y < 0")
  case True
  then have "appendInt4 dst y = appendInt4 (dst @ [45]) (- y)"
    using assms by (simp only: appendInt4_def s64_id Let_def if_True if_False prod.case neg_less_0_iff_less) simp
  with True show ?thesis by (simp add: appendInt4_nonneg year_text_def)
qed (simp add: appendInt4_nonneg year_text_def)

text \<open>Every civil date is a date of the calendar.\<close>

definition valid_date :: "int \<times> int \<times> int \<Rightarrow> bool" where
  "valid_date = (\<lambda>(y, m, d). 1 \<le> m \<and> m \<le> 12 \<and> 1 \<le> d \<and> d \<le> days_in_month y m)"

lemma valid_next_day: "valid_date t \<Longrightarrow> valid_date (next_day t)"
  by (cases t) (auto simp: valid_date_def days_in_month_def)

lemma civil_valid: "valid_date (civil_of_days n)"
proof -
  define doe where "doe = (n + 719468) mod 146097"
  define k doy where "k = yoe_of doe" and "doy = doe - ystart k"
  obtain m d where md: "md_of doy = (m, d)" by (cases "md_of doy")
  have doe: "0 \<le> doe" "doe \<le> 146096" by (simp_all add: doe_def)
  have doy: "0 \<le> doy" "doy < ylen k" using doy_bounds [OF doe] by (simp_all add: doy_def k_def)
  have c: "civil_of_days n = (k + (n + 719468) div 146097 * 400 + (if m \<le> 2 then 1 else 0), m, d)"
    by (simp add: civil_of_days_eq civil_of_era_def Let_def doe_def [symmetric] k_def [symmetric]
        doy_def [symmetric] md)
  show ?thesis
  proof (cases "doy = 365")
    case True
    then have "is_leap (k + 1)" using doy by (simp add: ylen_def split: if_splits)
    with True md md_table(2) show ?thesis
      by (simp add: c valid_date_def days_in_month_def leap_era)
  next
    case False
    with doy have "doy \<le> 364" by (simp add: ylen_def split: if_splits)
    with md_facts [OF doy(1) this] md show ?thesis
      by (auto simp: c valid_date_def days_in_month_def leap_era split: if_splits)
  qed
qed

lemma civil_year_bound: "civil_of_days n = (y, m, d) \<Longrightarrow> \<bar>y\<bar> \<le> 2 * \<bar>n\<bar> + 4000"
proof -
  assume "civil_of_days n = (y, m, d)"
  moreover define doe where "doe = (n + 719468) mod 146097"
  have "0 \<le> doe" "doe \<le> 146096" by (simp_all add: doe_def)
  note yoe_range [OF this]
  moreover have "\<bar>(n + 719468) div 146097\<bar> * 400 \<le> 2 * \<bar>n\<bar> + 3000"
    using mult_div_mod_eq [of 146097 "n + 719468"] \<open>0 \<le> doe\<close> \<open>doe \<le> 146096\<close> unfolding doe_def by linarith
  ultimately show ?thesis
    by (auto simp: civil_of_days_eq civil_of_era_def Let_def doe_def split: prod.splits if_splits)
qed


text \<open>The text of a date and of a time of day, from the fields of the calendar.\<close>

definition date_text :: "int \<times> int \<times> int \<Rightarrow> bytes" where
  "date_text = (\<lambda>(y, m, d). year_text y @ [45] @ pad 2 (nat m) @ [45] @ pad 2 (nat d))"

definition clock_text :: "int \<Rightarrow> bytes" where
  "clock_text s = pad 2 (nat (s div 3600)) @ [58] @ pad 2 (nat (s mod 3600 div 60)) @ [58] @ pad 2 (nat (s mod 60))"

definition micros_text :: "int \<Rightarrow> bytes" where
  "micros_text f = (if f = 0 then [] else [46] @ pad 6 (nat f))"

lemmas iso_text_defs = date_text_def year_text_def clock_text_def micros_text_def pad_2 pad_4 pad_6

lemma days_in_month_le: "days_in_month y m \<le> 31"
  by (simp add: days_in_month_def)

lemma append_date:
  assumes "civil_of_days n = (y, m, d)" "\<bar>n\<bar> < 2 ^ 60"
  shows "append2 (append2 (appendInt4 dst y @ [45]) m @ [45]) d = dst @ date_text (y, m, d)"
proof -
  have "valid_date (y, m, d)" using civil_valid [of n] assms(1) by simp
  then have "1 \<le> m" "m \<le> 12" "1 \<le> d" "d \<le> 31"
    using days_in_month_le [of y m] by (auto simp: valid_date_def)
  moreover have "- (2 ^ 63) < y" "y < 2 ^ 63" using civil_year_bound [OF assms(1)] assms(2) by auto
  ultimately show ?thesis by (simp add: appendInt4_year append2_pad date_text_def)
qed

lemma usec_floor:
  fixes usec :: int
  shows "(let sec = e + usec sdiv 1000000; frac = usec smod 1000000
          in if frac < 0 then (sec - 1, frac + 1000000) else (sec, frac))
         = (e + usec div 1000000, usec mod 1000000)"
proof (cases "usec < 0")
  case True
  then have s: "usec sdiv 1000000 = (if usec mod 1000000 = 0 then usec div 1000000 else usec div 1000000 + 1)"
    by (simp add: sdiv_neg zdiv_zminus1_eq_if)
  have d: "usec = 1000000 * (usec div 1000000) + usec mod 1000000" "0 \<le> usec mod 1000000" "usec mod 1000000 < 1000000"
    by simp_all
  have "usec smod 1000000 = (if usec mod 1000000 = 0 then 0 else usec mod 1000000 - 1000000)"
    using True by (simp add: signed_modulo_int_def zmod_zminus1_eq_if)
  with s d show ?thesis by (auto simp: Let_def)
qed (simp add: Let_def sdiv_nonneg smod_nonneg not_less [symmetric])

lemma appendISOTimestamp_text:
  assumes "- (2 ^ 63) \<le> usec" "usec < 2 ^ 63"
  shows "appendISOTimestamp dst usec tz =
         (let sec = pgEpochUnix + usec div 1000000
          in dst @ date_text (civil_of_days (sec div 86400)) @ [84] @ clock_text (sec mod 86400) @
             micros_text (usec mod 1000000) @ tz)"
proof -
  define sec where "sec = pgEpochUnix + usec div 1000000"
  define t where "t = sec mod 86400"
  have t: "0 \<le> t" "t < 86400" by (simp_all add: t_def)
  obtain y m d where c: "civil_of_days (sec div 86400) = (y, m, d)" by (cases "civil_of_days (sec div 86400)")
  have n: "\<bar>sec div 86400\<bar> < 2 ^ 60" using assms unfolding sec_def pgEpochUnix_def by (simp add: abs_less_iff) linarith
  have st: "splitTime sec = (y, m, d, t div 3600, t mod 3600 div 60, t mod 60)"
    by (simp add: splitTime_eq c t_def Let_def)
  have b: "0 \<le> t div 3600" "t div 3600 < 100" "0 \<le> t mod 3600 div 60" "t mod 3600 div 60 < 100"
    "0 \<le> t mod 60" "t mod 60 < 100" using t pos_mod_bound [of 3600 t] pos_mod_bound [of 60 t]
    by (simp_all add: pos_imp_zdiv_nonneg_iff)
  have f: "0 \<le> usec mod 1000000" by simp
  have "appendISOTimestamp dst usec tz = dst @ date_text (y, m, d) @ [84] @ clock_text t @ micros_text (usec mod 1000000) @ tz"
    unfolding appendISOTimestamp_def Let_def usec_floor [unfolded Let_def] sec_def [symmetric] prod.case st
      append_date [OF c n] append2_pad [OF b(1,2)] append2_pad [OF b(3,4)] append2_pad [OF b(5,6)]
      append6_pad [OF f] clock_text_def micros_text_def
    by (cases "usec mod 1000000 = 0") (simp_all only: append_assoc if_True if_False simp_thms append.simps)
  then show ?thesis by (simp add: Let_def c sec_def [symmetric] t_def)
qed


text \<open>The safe range of \<open>encodeDateBinary\<close>: the days whose microsecond count fits 64 bits.\<close>

lemma date_usec: "\<bar>days\<bar> \<le> 106751991 \<Longrightarrow> s64 (days * usecPerDay) = days * usecPerDay"
  by (rule s64_id) (auto simp: usecPerDay_def)

lemma appendISODateOnly_text:
  assumes "\<bar>days\<bar> \<le> 106751991"
  shows "appendISODateOnly dst (days * usecPerDay) = dst @ date_text (civil_of_days (days + 10957))"
proof -
  have "days * usecPerDay sdiv 1000000 = days * 86400"
    by (cases "days < 0") (simp_all add: usecPerDay_def sdiv_neg sdiv_nonneg)
  then have sec: "pgEpochUnix + days * usecPerDay sdiv 1000000 = (days + 10957) * 86400"
    by (simp add: pgEpochUnix_def)
  obtain y m d where c: "civil_of_days (days + 10957) = (y, m, d)" by (cases "civil_of_days (days + 10957)")
  have "\<bar>days + 10957\<bar> < 2 ^ 60" using assms by auto
  from append_date [OF c this, of dst] show ?thesis
    unfolding appendISODateOnly_def sec by (simp add: splitTime_eq c Let_def)
qed

section \<open>Properties\<close>

text \<open>
  C5. \<open>splitTime\<close> is the proleptic Gregorian calendar: second 0 is 1970-01-01 00:00:00, a day
  later is the next day by the leap-year and month-length rules at the same time of day, the
  time of day splits the seconds since midnight, and the date does not depend on it.
\<close>

theorem splitTime_gregorian:
  "splitTime 0 = (1970, 1, 1, 0, 0, 0) \<and>
   (\<exists>y m d h mi s. splitTime sec = (y, m, d, h, mi, s) \<and>
      splitTime (sec + 86400) = (let (y', m', d') = next_day (y, m, d) in (y', m', d', h, mi, s)) \<and>
      splitTime (sec - sec mod 86400) = (y, m, d, 0, 0, 0) \<and>
      valid_date (y, m, d) \<and> 0 \<le> h \<and> h < 24 \<and> 0 \<le> mi \<and> mi < 60 \<and> 0 \<le> s \<and> s < 60 \<and>
      3600 * h + 60 * mi + s = sec mod 86400)"
proof
  show "splitTime 0 = (1970, 1, 1, 0, 0, 0)" by code_simp
  obtain y m d where c: "civil_of_days (sec div 86400) = (y, m, d)" by (cases "civil_of_days (sec div 86400)")
  define t where "t = sec mod 86400"
  have t: "0 \<le> t" "t < 86400" by (simp_all add: t_def)
  have m60: "t mod 3600 mod 60 = t mod 60" by (simp add: mod_mod_cancel)
  have split: "splitTime sec = (y, m, d, t div 3600, t mod 3600 div 60, t mod 60)"
    by (simp add: splitTime_eq c t_def Let_def)
  moreover have "splitTime (sec + 86400) =
      (let (y', m', d') = next_day (y, m, d) in (y', m', d', t div 3600, t mod 3600 div 60, t mod 60))"
    using civil_succ [of "sec div 86400"] div_add_self2 [of 86400 sec]
    by (simp only: splitTime_eq c t_def Let_def mod_add_self2)
  moreover have "splitTime (sec - sec mod 86400) = (y, m, d, 0, 0, 0)"
    by (simp add: splitTime_eq c Let_def minus_mod_eq_mult_div)
  moreover have "valid_date (y, m, d)" using civil_valid [of "sec div 86400"] c by simp
  moreover have "3600 * (t div 3600) + 60 * (t mod 3600 div 60) + t mod 60 = t"
    using mult_div_mod_eq [of 3600 t] mult_div_mod_eq [of 60 "t mod 3600"] m60 by linarith
  moreover have "0 \<le> t div 3600" "t div 3600 < 24" "0 \<le> t mod 3600 div 60" "t mod 3600 div 60 < 60"
    "0 \<le> t mod 60" "t mod 60 < 60"
    using t pos_mod_bound [of 3600 t] pos_mod_bound [of 60 t] by (simp_all add: pos_imp_zdiv_nonneg_iff)
  ultimately show "\<exists>y m d h mi s. splitTime sec = (y, m, d, h, mi, s) \<and>
      splitTime (sec + 86400) = (let (y', m', d') = next_day (y, m, d) in (y', m', d', h, mi, s)) \<and>
      splitTime (sec - sec mod 86400) = (y, m, d, 0, 0, 0) \<and>
      valid_date (y, m, d) \<and> 0 \<le> h \<and> h < 24 \<and> 0 \<le> mi \<and> mi < 60 \<and> 0 \<le> s \<and> s < 60 \<and>
      3600 * h + 60 * mi + s = sec mod 86400"
    unfolding t_def [symmetric] by blast
qed

text \<open>
  C6. A \<open>timestamp\<close> or \<open>timestamptz\<close> cell renders as its ISO 8601 text: for every 64-bit
  microsecond count but the two sentinels, date and time of day of the instant counted from
  2000-01-01 (rounding down, so also before the epoch), six fractional digits when there are any,
  and a trailing \<open>Z\<close> for \<open>timestamptz\<close>.
\<close>

theorem timestamp_text:
  assumes "- (2 ^ 63) < usec" "usec < 2 ^ 63 - 1"
  shows "let sec = 946684800 + usec div 1000000;
             iso = date_text (civil_of_days (sec div 86400)) @ [84] @ clock_text (sec mod 86400) @
                   micros_text (usec mod 1000000)
         in encodeTimestampBinary dst (Some (putU64 (word_of_int usec))) = dst @ [34] @ iso @ [34] \<and>
            encodeTimestampTZBinary dst (Some (putU64 (word_of_int usec))) = dst @ [34] @ iso @ [90, 34]"
proof -
  have "beI64 (putU64 (word_of_int usec)) = usec" using assms by (simp del: power_numeral)
  with assms appendISOTimestamp_text [of usec] show ?thesis
    by (simp add: encodeTimestampBinary_def encodeTimestampTZBinary_def Let_def pgEpochUnix_def)
qed

theorem timestamp_text_witness:
  "encodeTimestampBinary [] (Some (putU64 (word_of_int (- 1)))) = bs ''\"1999-12-31T23:59:59.999999\"'' \<and>
   encodeTimestampTZBinary [] (Some (putU64 (word_of_int (- 1)))) = bs ''\"1999-12-31T23:59:59.999999Z\"''"
proof -
  have "date_text (civil_of_days ((946684800 + (- 1) div 1000000) div 86400)) @ [84] @
        clock_text ((946684800 + (- 1) div 1000000) mod 86400) @ micros_text ((- 1) mod 1000000)
        = bs ''1999-12-31T23:59:59.999999''"
  proof -
    have "civil_of_days ((946684800 + (- 1) div 1000000) div 86400) = (1999, 12, 31)" by code_simp
    then show ?thesis by (simp add: iso_text_defs digit_def)
  qed
  with timestamp_text [of "- 1" "[]"] show ?thesis by (simp add: Let_def)
qed

text \<open>
  A \<open>date\<close> cell whose day count stays within 106751991 days of 2000-01-01 renders as that
  calendar date.
\<close>

theorem date_text_in_range:
  assumes "\<bar>days\<bar> \<le> 106751991"
  shows "encodeDateBinary dst (Some (putU32 (word_of_int days))) =
         dst @ [34] @ date_text (civil_of_days (days + 10957)) @ [34]"
proof -
  have "beI32 (putU32 (word_of_int days)) = days" "days \<noteq> MaxInt32" "days \<noteq> MinInt32" using assms by auto
  with assms show ?thesis
    by (simp add: encodeDateBinary_def Let_def date_usec appendISODateOnly_text del: MaxInt32_def MinInt32_def)
qed

theorem date_text_in_range_witness:
  "encodeDateBinary [] (Some (putU32 (word_of_int 59))) = bs ''\"2000-02-29\"''"
proof -
  have "date_text (civil_of_days (59 + 10957)) = bs ''2000-02-29''"
  proof -
    have "civil_of_days (59 + 10957) = (2000, 2, 29)" by code_simp
    then show ?thesis by (simp add: iso_text_defs digit_def)
  qed
  with date_text_in_range [of 59 "[]"] show ?thesis by simp
qed

text \<open>
  Beyond that range the product with the microseconds of a day wraps: the day after the last
  safe one, a date PostgreSQL accepts, renders as a date before Christ.
\<close>

lemma date_overflow:
  "encodeDateBinary [] (Some (putU32 (word_of_int 106751992))) = bs ''\"-290278-12-23\"''"
  "date_text (civil_of_days (106751992 + 10957)) = bs ''294277-01-10''"
proof -
  have u: "s64 (106751992 * usecPerDay) = - 9223371964909551616" by code_simp
  have "splitTime (pgEpochUnix + (- 9223371964909551616) sdiv 1000000) = (- 290278, 12, 23, 15, 58, 11)" by code_simp
  then have a: "appendISODateOnly dst (- 9223371964909551616) = dst @ bs ''-290278-12-23''" for dst
    by (simp add: appendISODateOnly_def appendInt4_year append2_pad iso_text_defs dec_nat.simps digit_def)
  have "beI32 (putU32 (word_of_int 106751992)) = 106751992" by (rule beI_put_nil(2)) simp_all
  then show "encodeDateBinary [] (Some (putU32 (word_of_int 106751992))) = bs ''\"-290278-12-23\"''"
    by (simp add: encodeDateBinary_def Let_def u a)
  have "civil_of_days (106751992 + 10957) = (294277, 1, 10)" by code_simp
  then show "date_text (civil_of_days (106751992 + 10957)) = bs ''294277-01-10''"
    by (simp add: iso_text_defs dec_nat.simps digit_def)
qed

end
