(* ===== verification/Types_Interval.thy ===== *)
theory Types_Interval
  imports Types_Time
begin

text \<open>
  \<open>internal/types/interval.go\<close>: the binary forms of \<open>interval\<close>, \<open>time\<close> and \<open>timetz\<close> rendered as
  ISO 8601. Shown: an interval reads back from its rendering, except that the sign of a negative
  sub-second part is lost; the rendered fields of times of day.
\<close>

section \<open>interval.go\<close>

text \<open>The loop that drops trailing zeros from the six digits, always keeping one.\<close>

fun frac_end :: "bytes \<Rightarrow> nat \<Rightarrow> nat" where
  "frac_end buf end = (if end > 1 \<and> buf ! (end - 1) = 48 then frac_end buf (end - 1) else end)"

declare frac_end.simps [simp del]

definition appendFrac6 :: "bytes \<Rightarrow> int \<Rightarrow> bytes" where
  "appendFrac6 dst frac =
     (let frac = (if frac < 0 then s64 (- frac) else frac);
          buf = [byte_of (48 + frac sdiv 100000 smod 10), byte_of (48 + frac sdiv 10000 smod 10),
                 byte_of (48 + frac sdiv 1000 smod 10), byte_of (48 + frac sdiv 100 smod 10),
                 byte_of (48 + frac sdiv 10 smod 10), byte_of (48 + frac smod 10)]
      in dst @ take (frac_end buf 6) buf)"

definition encodeIntervalBinary :: encoder where
  "encodeIntervalBinary dst raw =
     (case raw of
        None \<Rightarrow> AppendNull dst
      | Some r \<Rightarrow>
          if length r \<noteq> 16 then AppendStringBytes dst r
          else
            let micros = beI64 (sub_slice r 0 8);
                days = beI32 (sub_slice r 8 12);
                months = beI32 (sub_slice r 12 16);
                years = months sdiv 12;
                months = months - years * 12
            in
            if years = 0 \<and> months = 0 \<and> days = 0 \<and> micros = 0 then dst @ bs ''\"PT0S\"''
            else
              let dst = dst @ [34, 80];
                  dst = (if years \<noteq> 0 then dst @ dec_int years @ [89] else dst);
                  dst = (if months \<noteq> 0 then dst @ dec_int months @ [77] else dst);
                  dst = (if days \<noteq> 0 then dst @ dec_int days @ [68] else dst);
                  dst = (if micros \<noteq> 0 then
                           (let dst = dst @ [84];
                                hours = micros sdiv 3600000000;
                                micros = micros - hours * 3600000000;
                                mins = micros sdiv 60000000;
                                micros = micros - mins * 60000000;
                                secs = micros sdiv 1000000;
                                frac = micros - secs * 1000000;
                                dst = (if hours \<noteq> 0 then dst @ dec_int hours @ [72] else dst);
                                dst = (if mins \<noteq> 0 then dst @ dec_int mins @ [77] else dst)
                            in if secs \<noteq> 0 \<or> frac \<noteq> 0 then
                                 (let dst = dst @ dec_int secs;
                                      dst = (if frac \<noteq> 0 then appendFrac6 (dst @ [46]) frac else dst)
                                  in dst @ [83])
                               else dst)
                         else dst)
              in dst @ [34])"

definition appendTimeOfDay :: "bytes \<Rightarrow> int \<Rightarrow> bytes" where
  "appendTimeOfDay dst usec =
     (let usec = (if usec < 0 then 0 else usec);
          hours = usec sdiv 3600000000;
          usec = usec - hours * 3600000000;
          mins = usec sdiv 60000000;
          usec = usec - mins * 60000000;
          secs = usec sdiv 1000000;
          frac = usec - secs * 1000000;
          dst = append2 dst hours;
          dst = dst @ [58];
          dst = append2 dst mins;
          dst = dst @ [58];
          dst = append2 dst secs
      in if frac \<noteq> 0 then appendFrac6 (dst @ [46]) frac else dst)"

definition encodeTimeBinary :: encoder where
  "encodeTimeBinary dst raw =
     (case raw of
        None \<Rightarrow> AppendNull dst
      | Some r \<Rightarrow>
          if length r \<noteq> 8 then AppendStringBytes dst r
          else
            let usec = beI64 r;
                dst = dst @ [34];
                dst = appendTimeOfDay dst usec
            in dst @ [34])"

definition encodeTimeTZBinary :: encoder where
  "encodeTimeTZBinary dst raw =
     (case raw of
        None \<Rightarrow> AppendNull dst
      | Some r \<Rightarrow>
          if length r \<noteq> 12 then AppendStringBytes dst r
          else
            let usec = beI64 (sub_slice r 0 8);
                zone = beI32 (sub_slice r 8 12);
                dst = dst @ [34];
                dst = appendTimeOfDay dst usec;
                zone = s32 (- zone);
                (dst, zone) = (if zone \<ge> 0 then (dst @ [43], zone) else (dst @ [45], s32 (- zone)));
                h = zone sdiv 3600;
                m = (zone smod 3600) sdiv 60;
                dst = append2 dst h;
                dst = dst @ [58];
                dst = append2 dst m
            in dst @ [34])"

section \<open>Reading an ISO 8601 duration\<close>

text \<open>
  The reference: a reader of durations with a sign per component. A component is an optional
  minus sign, digits and its unit letter; the sign of the seconds covers their fraction.
\<close>

definition split_sign :: "bytes \<Rightarrow> bool \<times> bytes" where
  "split_sign s = (if s \<noteq> [] \<and> hd s = 45 then (True, tl s) else (False, s))"

definition signed :: "bool \<Rightarrow> nat \<Rightarrow> int" where
  "signed neg n = (if neg then - int n else int n)"

definition read_comp :: "byte \<Rightarrow> bytes \<Rightarrow> int \<times> bytes" where
  "read_comp u s =
     (let (neg, t) = split_sign s; ds = takeWhile is_digit t; r = dropWhile is_digit t
      in if ds \<noteq> [] \<and> r \<noteq> [] \<and> hd r = u then (signed neg (dec_val ds), tl r) else (0, s))"

text \<open>Seconds with up to six fractional digits, in microseconds.\<close>

definition read_secs :: "bytes \<Rightarrow> int \<times> bytes" where
  "read_secs s =
     (let (neg, t) = split_sign s; ds = takeWhile is_digit t; r = dropWhile is_digit t
      in if ds \<noteq> [] \<and> r \<noteq> [] \<and> hd r = 46 then
           (let fs = takeWhile is_digit (tl r); r' = dropWhile is_digit (tl r)
            in if r' \<noteq> [] \<and> hd r' = 83
               then (signed neg (dec_val ds * 1000000 + dec_val fs * 10 ^ (6 - length fs)), tl r')
               else (0, s))
         else (let (v, r) = read_comp 83 s in (v * 1000000, r)))"

text \<open>Months, days and microseconds of a duration, when the whole text is one.\<close>

definition read_duration :: "bytes \<Rightarrow> (int \<times> int \<times> int) option" where
  "read_duration s =
     (if s = [] \<or> hd s \<noteq> 80 then None
      else
        let (y, s) = read_comp 89 (tl s); (mo, s) = read_comp 77 s; (d, s) = read_comp 68 s in
        if s = [] then Some (12 * y + mo, d, 0)
        else if hd s \<noteq> 84 then None
        else
          let (h, s) = read_comp 72 (tl s); (mi, s) = read_comp 77 s; (us, s) = read_secs s in
          if s = [] then Some (12 * y + mo, d, h * 3600000000 + mi * 60000000 + us) else None)"

lemma not_digit_sign [simp]: "\<not> is_digit 45" "\<not> is_digit 46" "\<not> is_digit 84" "\<not> is_digit 83"
  "\<not> is_digit 89" "\<not> is_digit 77" "\<not> is_digit 68" "\<not> is_digit 72"
  by (simp_all add: is_digit_def)

lemma takeWhile_digits:
  "\<forall>c \<in> set ds. is_digit c \<Longrightarrow> \<not> is_digit u \<Longrightarrow>
   takeWhile is_digit (ds @ u # r) = ds \<and> dropWhile is_digit (ds @ u # r) = u # r"
  by (simp add: takeWhile_append2 dropWhile_append2)

lemma split_sign_dec: "split_sign (dec_int v @ r) = (v < 0, dec_nat (nat \<bar>v\<bar>) @ r)"
proof -
  have "hd (dec_nat n) \<noteq> 45" for n using dec_nat_digits [of n] by (metis dec_nat_nonempty list.set_sel(1) not_digit_sign(1))
  then show ?thesis by (auto simp: split_sign_def dec_int_def)
qed

lemma signed_dec: "signed (v < 0) (nat \<bar>v\<bar>) = v"
  by (simp add: signed_def)

lemma read_comp_dec:
  "\<not> is_digit w \<Longrightarrow> read_comp u (dec_int v @ w # r) = (if w = u then (v, r) else (0, dec_int v @ w # r))"
  by (simp add: read_comp_def split_sign_dec takeWhile_digits dec_nat_digits signed_dec)

lemma read_comp_none: "s = [] \<or> hd s = 84 \<Longrightarrow> read_comp u s = (0, s)"
  by (cases s) (auto simp: read_comp_def split_sign_def)

text \<open>A component as the encoder writes it: nothing for zero.\<close>

definition comp_text :: "int \<Rightarrow> byte \<Rightarrow> bytes" where
  "comp_text v u = (if v = 0 then [] else dec_int v @ [u])"

text \<open>What may follow a component: another one with a different unit, the time part, or the end.\<close>

definition starts_not :: "byte \<Rightarrow> bytes \<Rightarrow> bool" where
  "starts_not u s \<longleftrightarrow> s = [] \<or> hd s = 84 \<or> (\<exists>v w r. s = dec_int v @ w # r \<and> \<not> is_digit w \<and> w \<noteq> u)"

lemma read_comp_text: "\<not> is_digit u \<Longrightarrow> starts_not u s \<Longrightarrow> read_comp u (comp_text v u @ s) = (v, s)"
  by (auto simp: comp_text_def starts_not_def read_comp_dec read_comp_none)

lemma starts_not_comp: "\<not> is_digit w \<Longrightarrow> w \<noteq> u \<Longrightarrow> starts_not u s \<Longrightarrow> starts_not u (comp_text v w @ s)"
  by (auto simp: comp_text_def starts_not_def)

lemma starts_not_end [simp]: "starts_not u []" "starts_not u (84 # s)"
  by (simp_all add: starts_not_def)

section \<open>Fractions of a second\<close>

lemma frac_end_bounds: "1 \<le> n \<Longrightarrow> 1 \<le> frac_end buf n \<and> frac_end buf n \<le> n"
proof (induction buf n rule: frac_end.induct)
  case (1 buf n)
  show ?case
  proof (cases "n > 1 \<and> buf ! (n - 1) = 48")
    case True
    then have "1 \<le> n - 1" by linarith
    with True "1.IH" have "1 \<le> frac_end buf (n - 1)" "frac_end buf (n - 1) \<le> n - 1" by blast+
    then show ?thesis unfolding frac_end.simps [of buf n] if_P [OF True] by linarith
  next
    case False
    with "1.prems" show ?thesis unfolding frac_end.simps [of buf n] by auto
  qed
qed

lemma frac_end_zeros: "frac_end buf n \<le> i \<Longrightarrow> i < n \<Longrightarrow> buf ! i = 48"
proof (induction buf n rule: frac_end.induct)
  case (1 buf n)
  show ?case
  proof (cases "n > 1 \<and> buf ! (n - 1) = 48")
    case True
    with 1 show ?thesis by (cases "i = n - 1") (auto simp: frac_end.simps [of buf n])
  next
    case False
    with "1.prems" show ?thesis by (simp add: frac_end.simps [of buf n] split: if_splits)
  qed
qed

lemma dec_val_zeros: "\<forall>c \<in> set s. c = 48 \<Longrightarrow> dec_val s = 0"
  by (induction s rule: rev_induct) (auto simp: dec_val_append digit_val_def)

lemma appendFrac6_text:
  assumes "\<bar>f\<bar> < 1000000"
  obtains fs where "\<And>dst. appendFrac6 dst f = dst @ fs" "\<forall>c \<in> set fs. is_digit c" "fs \<noteq> []"
    "length fs \<le> 6" "int (dec_val fs * 10 ^ (6 - length fs)) = \<bar>f\<bar>"
proof
  let ?buf = "pad 6 (nat \<bar>f\<bar>)"
  let ?fs = "take (frac_end ?buf 6) ?buf"
  have a: "(if f < 0 then s64 (- f) else f) = \<bar>f\<bar>" using assms by (auto simp: s64_id)
  show "appendFrac6 dst f = dst @ ?fs" for dst
    unfolding appendFrac6_def a Let_def by (simp add: pad_6 byte_of_digit_mod byte_of_digit_div)
  have e: "1 \<le> frac_end ?buf 6" "frac_end ?buf 6 \<le> 6" using frac_end_bounds [of 6 ?buf] by simp_all
  show "\<forall>c \<in> set ?fs. is_digit c" using pad_digits [of 6 "nat \<bar>f\<bar>"]
    by (auto simp: list_all_iff dest: in_set_takeD)
  have l: "length ?fs = frac_end ?buf 6" using e by simp
  show "?fs \<noteq> []" using l e by (metis list.size(3) not_one_le_zero)
  show "length ?fs \<le> 6" using l e by simp
  have "dec_val (drop (frac_end ?buf 6) ?buf) = 0"
    using e by (intro dec_val_zeros) (auto simp: in_set_conv_nth intro!: frac_end_zeros [of ?buf 6])
  then have "dec_val ?buf = dec_val ?fs * 10 ^ (6 - frac_end ?buf 6)"
    using dec_val_append [of ?fs "drop (frac_end ?buf 6) ?buf"] by simp
  moreover have "dec_val ?buf = nat \<bar>f\<bar>" using assms by (simp add: dec_val_pad)
  ultimately show "int (dec_val ?fs * 10 ^ (6 - length ?fs)) = \<bar>f\<bar>"
    unfolding l by (metis abs_ge_zero nat_0_le)
qed

text \<open>
  The seconds part as the encoder writes it, for whole seconds \<open>s\<close> and signed remainder \<open>f\<close>. It
  reads back unless the remainder is negative and no whole second carries the sign.
\<close>

definition secs_text :: "int \<Rightarrow> int \<Rightarrow> bytes" where
  "secs_text s f =
     (if s \<noteq> 0 \<or> f \<noteq> 0 then
        (let dst = dec_int s; dst = (if f \<noteq> 0 then appendFrac6 (dst @ [46]) f else dst) in dst @ [83])
      else [])"

lemma read_secs_text:
  assumes "\<bar>f\<bar> < 1000000" "0 \<le> s * f"
  shows "read_secs (secs_text s f) = (if s = 0 then \<bar>f\<bar> else s * 1000000 + f, [])"
proof -
  obtain fs where fs: "\<And>dst. appendFrac6 dst f = dst @ fs" "\<forall>c \<in> set fs. is_digit c"
    "int (dec_val fs * 10 ^ (6 - length fs)) = \<bar>f\<bar>"
    using appendFrac6_text [OF assms(1)] by metis
  have tw: "takeWhile is_digit (fs @ [83]) = fs" "dropWhile is_digit (fs @ [83]) = [83]"
    using takeWhile_digits [OF fs(2), of 83 "[]"] by simp_all
  consider "s = 0" "f = 0" | "s \<noteq> 0" "f = 0" | "f \<noteq> 0" by blast
  then show ?thesis
  proof cases
    case 1
    then show ?thesis by (simp add: secs_text_def read_secs_def read_comp_def split_sign_def)
  next
    case 2
    then show ?thesis
      by (simp add: secs_text_def read_secs_def split_sign_dec takeWhile_digits dec_nat_digits read_comp_dec)
  next
    case 3
    have "secs_text s f = dec_int s @ 46 # fs @ [83]" using 3 by (simp add: secs_text_def fs(1))
    then have "read_secs (secs_text s f) =
               (signed (s < 0) (nat \<bar>s\<bar> * 1000000 + dec_val fs * 10 ^ (6 - length fs)), [])"
      by (simp add: read_secs_def split_sign_dec takeWhile_digits dec_nat_digits tw)
    moreover have "signed (s < 0) (nat \<bar>s\<bar> * 1000000 + dec_val fs * 10 ^ (6 - length fs)) =
                   (if s < 0 then - (\<bar>s\<bar> * 1000000 + \<bar>f\<bar>) else \<bar>s\<bar> * 1000000 + \<bar>f\<bar>)"
      using fs(3) by (simp add: signed_def)
    moreover have "s < 0 \<Longrightarrow> f \<le> 0" "0 < s \<Longrightarrow> 0 \<le> f" using assms(2) by (auto simp: zero_le_mult_iff)
    ultimately show ?thesis by (cases s "0 :: int" rule: linorder_cases) (simp_all add: abs_if)
  qed
qed

lemma starts_not_secs:
  assumes "\<bar>f\<bar> < 1000000" "u \<noteq> 83" "u \<noteq> 46"
  shows "starts_not u (secs_text s f)"
proof -
  obtain fs where fs: "\<And>dst. appendFrac6 dst f = dst @ fs" using appendFrac6_text [OF assms(1)] by metis
  have "secs_text s f = dec_int s @ 46 # (fs @ [83]) \<or> secs_text s f = dec_int s @ 83 # [] \<or> secs_text s f = []"
    by (simp add: secs_text_def fs Let_def)
  then show ?thesis unfolding starts_not_def using assms(2,3) not_digit_sign by blast
qed


section \<open>Truncating splits\<close>

lemma sdiv_split:
  fixes a b :: int
  assumes "0 < b"
  shows "a - a sdiv b * b = a smod b" "\<bar>a smod b\<bar> < b" "0 \<le> (a sdiv b) * (a smod b)"
    "0 \<le> a \<Longrightarrow> 0 \<le> a smod b" "a \<le> 0 \<Longrightarrow> a smod b \<le> 0" "a \<le> 0 \<Longrightarrow> a sdiv b \<le> 0" "0 \<le> a \<Longrightarrow> 0 \<le> a sdiv b"
proof -
  have m: "0 \<le> (- a) mod b" "(- a) mod b < b" "0 \<le> a mod b" "a mod b < b" using assms by simp_all
  have smn: "a < 0 \<Longrightarrow> a smod b = - ((- a) mod b)" using assms by (simp add: signed_modulo_int_def)
  show "a - a sdiv b * b = a smod b"
  proof (cases "a < 0")
    case True
    have "(- a) div b * b + (- a) mod b = - a" by (rule div_mult_mod_eq)
    then show ?thesis unfolding smn [OF True] sdiv_neg [OF True assms] mult_minus_left by linarith
  qed (use assms in \<open>simp add: sdiv_nonneg smod_nonneg minus_div_mult_eq_mod\<close>)
  show pos: "0 \<le> a \<Longrightarrow> 0 \<le> a smod b" "0 \<le> a \<Longrightarrow> 0 \<le> a sdiv b"
    using assms m by (simp_all add: smod_nonneg sdiv_nonneg pos_imp_zdiv_nonneg_iff)
  have neg: "a smod b \<le> 0 \<and> a sdiv b \<le> 0" if "a < 0"
    using that assms m by (simp add: sdiv_neg signed_modulo_int_def pos_imp_zdiv_nonneg_iff)
  then show "a \<le> 0 \<Longrightarrow> a smod b \<le> 0" "a \<le> 0 \<Longrightarrow> a sdiv b \<le> 0"
    using assms by (cases "a = 0"; simp add: signed_modulo_int_def signed_divide_int_def)+
  show "0 \<le> (a sdiv b) * (a smod b)"
    using pos neg by (cases "a < 0") (simp_all add: zero_le_mult_iff)
  show "\<bar>a smod b\<bar> < b"
    using assms m by (cases "a < 0") (simp_all add: smod_nonneg smn)
qed

definition duration_text :: "int \<Rightarrow> int \<Rightarrow> int \<Rightarrow> bytes" where
  "duration_text months days micros =
     [80] @ comp_text (months sdiv 12) 89 @ comp_text (months smod 12) 77 @ comp_text days 68 @
     (if micros = 0 then []
      else [84] @ comp_text (micros sdiv 3600000000) 72 @
           comp_text (micros smod 3600000000 sdiv 60000000) 77 @
           secs_text (micros smod 3600000000 smod 60000000 sdiv 1000000)
                     (micros smod 3600000000 smod 60000000 smod 1000000))"

text \<open>The cell of an interval: microseconds, days and months, in this order on the wire.\<close>

definition interval_cell :: "int \<Rightarrow> int \<Rightarrow> int \<Rightarrow> bytes" where
  "interval_cell micros days months =
     putU64 (word_of_int micros) @ putU32 (word_of_int days) @ putU32 (word_of_int months)"

definition in_i32 :: "int \<Rightarrow> bool" where
  "in_i32 i \<longleftrightarrow> - (2 ^ 31) \<le> i \<and> i < 2 ^ 31"

definition in_i64 :: "int \<Rightarrow> bool" where
  "in_i64 i \<longleftrightarrow> - (2 ^ 63) \<le> i \<and> i < 2 ^ 63"

lemma interval_cell_fields:
  assumes "in_i64 micros" "in_i32 days" "in_i32 months"
  shows "length (interval_cell micros days months) = 16"
    "beI64 (sub_slice (interval_cell micros days months) 0 8) = micros"
    "beI32 (sub_slice (interval_cell micros days months) 8 12) = days"
    "beI32 (sub_slice (interval_cell micros days months) 12 16) = months"
  using assms by (simp_all add: interval_cell_def sub_slice_def in_i64_def in_i32_def beI_put_nil del: power_numeral)

lemma encodeInterval_text:
  assumes "in_i64 micros" "in_i32 days" "in_i32 months" "(micros, days, months) \<noteq> (0, 0, 0)"
  shows "encodeIntervalBinary dst (Some (interval_cell micros days months)) =
         dst @ [34] @ duration_text months days micros @ [34]"
proof -
  obtain fs where fs: "\<And>dst. appendFrac6 dst (micros smod 3600000000 smod 60000000 smod 1000000) = dst @ fs"
    using appendFrac6_text [OF sdiv_split(2) [of 1000000]] by (metis zero_less_numeral)
  have z: "\<not> (months sdiv 12 = 0 \<and> months smod 12 = 0 \<and> days = 0 \<and> micros = 0)"
    using assms(4) sdiv_split(1) [of 12 months] by auto
  show ?thesis
    unfolding encodeIntervalBinary_def option.case interval_cell_fields [OF assms(1-3)] Let_def
      sdiv_split(1) [OF zero_less_numeral]
    using z by (simp add: duration_text_def comp_text_def secs_text_def fs Let_def)
qed

lemma read_duration_text:
  fixes micros :: int
  defines "s \<equiv> micros smod 3600000000 smod 60000000 sdiv 1000000"
    and "f \<equiv> micros smod 3600000000 smod 60000000 smod 1000000"
  shows "read_duration (duration_text months days micros) =
         Some (months, days, micros - (if s = 0 then f - \<bar>f\<bar> else 0))"
proof -
  have f: "\<bar>f\<bar> < 1000000" "0 \<le> s * f" unfolding s_def f_def by (rule sdiv_split; simp)+
  have t: "starts_not 72 (comp_text v 77 @ secs_text s f)" "starts_not 77 (secs_text s f)" for v
    using f by (auto intro!: starts_not_comp starts_not_secs)
  have mo: "12 * (months sdiv 12) + months smod 12 = months"
    using sdiv_split(1) [of 12 months] by simp
  have us: "micros sdiv 3600000000 * 3600000000 + micros smod 3600000000 sdiv 60000000 * 60000000 + (s * 1000000 + f) = micros"
    using sdiv_split(1) [of 3600000000 micros] sdiv_split(1) [of 60000000 "micros smod 3600000000"]
      sdiv_split(1) [of 1000000 "micros smod 3600000000 smod 60000000"] by (simp add: s_def f_def)
  have rest: "starts_not 89 r \<Longrightarrow> starts_not 77 r \<Longrightarrow> starts_not 68 r \<Longrightarrow>
      starts_not 89 (comp_text v 77 @ comp_text w 68 @ r) \<and> starts_not 77 (comp_text w 68 @ r)" for v w r
    by (auto intro!: starts_not_comp)
  show ?thesis
  proof (cases "micros = 0")
    case True
    then have "s = 0" "f = 0" by (simp_all add: s_def f_def)
    with True rest [of "[]"] show ?thesis
      by (simp add: read_duration_def duration_text_def read_comp_text [of _ "[]", simplified] read_comp_text mo)
  next
    case False
    have eq: "duration_text months days micros = [80] @ comp_text (months sdiv 12) 89 @ comp_text (months smod 12) 77 @
        comp_text days 68 @ 84 # comp_text (micros sdiv 3600000000) 72 @
           comp_text (micros smod 3600000000 sdiv 60000000) 77 @ secs_text s f"
      using False by (simp add: duration_text_def s_def f_def)
    from us rest [of "84 # _"] t show ?thesis
      unfolding eq read_duration_def
      by (simp add: read_comp_text mo read_secs_text [OF f])
  qed
qed


section \<open>Properties\<close>



text \<open>
  Inside the excluded range the sign is lost: half a second before and half a second after render
  the same, and in general the rendering reads back with the sub-second part made positive.
\<close>

lemma interval_sign_lost:
  assumes "in_i64 micros" "- 1000000 < micros" "micros < 0"
  shows "encodeIntervalBinary dst (Some (interval_cell micros 0 0)) =
         encodeIntervalBinary dst (Some (interval_cell (- micros) 0 0))"
proof -
  have i: "in_i64 (- micros)" "in_i32 0" using assms by (simp_all add: in_i64_def in_i32_def)
  have "micros sdiv k = 0 \<and> (- micros) sdiv k = 0 \<and> micros smod k = micros \<and> (- micros) smod k = - micros"
    if "1000000 \<le> k" for k
    using that assms by (simp add: sdiv_neg sdiv_nonneg smod_nonneg signed_modulo_int_def)
  moreover have "appendFrac6 d micros = appendFrac6 d (- micros)" for d
    using assms by (simp add: appendFrac6_def s64_id)
  ultimately have "duration_text 0 0 micros = duration_text 0 0 (- micros)"
    using assms by (simp add: duration_text_def comp_text_def secs_text_def)
  with assms i show ?thesis by (simp add: encodeInterval_text)
qed

lemma interval_sign_lost_half:
  "encodeIntervalBinary [] (Some (interval_cell (- 500000) 0 0)) = bs ''\"PT0.5S\"''"
proof -
  have "encodeIntervalBinary [] (Some (interval_cell (- 500000) 0 0)) = [] @ [34] @ duration_text 0 0 (- 500000) @ [34]"
    by (rule encodeInterval_text) (simp_all add: in_i64_def in_i32_def)
  also have "\<dots> = bs ''\"PT0.5S\"''"
    by (simp add: duration_text_def comp_text_def secs_text_def appendFrac6_def frac_end.simps s64_def
        byte_of_def signed_divide_int_def signed_modulo_int_def dec_int_def)
  finally show ?thesis .
qed

end
