(* ===== verification/Float_Format.thy ===== *)
theory Float_Format
  imports Json_Grammar
begin

text \<open>
  \<open>strconv.AppendFloat(dst, v, 'g', -1, bits)\<close>, the part of Go's standard library the binary
  float encoders call: the shortest decimal that rounds back to the float, in \<open>%e\<close> form when the
  decimal exponent is below -4 or at least 6, else in \<open>%f\<close> form. The interval of decimals that
  round to the float is computed exactly, with natural numbers scaled by a power of ten. Shown:
  the digits lie in the rounding interval, so the text denotes the float, and the text is a JSON
  number.
\<close>

section \<open>Binary layout\<close>

record float_info =
  mantbits :: nat
  expbits :: nat
  bias :: int

definition float32info :: float_info where
  "float32info = \<lparr>mantbits = 23, expbits = 8, bias = - 127\<rparr>"

definition float64info :: float_info where
  "float64info = \<lparr>mantbits = 52, expbits = 11, bias = - 1023\<rparr>"

definition float_neg :: "float_info \<Rightarrow> nat \<Rightarrow> bool" where
  "float_neg flt b \<longleftrightarrow> b div 2 ^ (expbits flt + mantbits flt) \<noteq> 0"

definition float_field :: "float_info \<Rightarrow> nat \<Rightarrow> nat" where
  "float_field flt b = b div 2 ^ mantbits flt mod 2 ^ expbits flt"

definition float_frac :: "float_info \<Rightarrow> nat \<Rightarrow> nat" where
  "float_frac flt b = b mod 2 ^ mantbits flt"

definition float_is_nan :: "float_info \<Rightarrow> nat \<Rightarrow> bool" where
  "float_is_nan flt b \<longleftrightarrow> float_field flt b = 2 ^ expbits flt - 1 \<and> float_frac flt b \<noteq> 0"

definition float_is_inf :: "float_info \<Rightarrow> nat \<Rightarrow> bool" where
  "float_is_inf flt b \<longleftrightarrow> float_field flt b = 2 ^ expbits flt - 1 \<and> float_frac flt b = 0"

text \<open>A finite float is \<open>mant * 2 ^ (exp - mantbits)\<close>.\<close>

definition float_mant :: "float_info \<Rightarrow> nat \<Rightarrow> nat" where
  "float_mant flt b = (if float_field flt b = 0 then float_frac flt b else float_frac flt b + 2 ^ mantbits flt)"

definition float_exp :: "float_info \<Rightarrow> nat \<Rightarrow> int" where
  "float_exp flt b = (if float_field flt b = 0 then 1 else int (float_field flt b)) + bias flt"

section \<open>Shortest digits\<close>

text \<open>
  In units of \<open>10 ^ - s\<close> the float is \<open>V\<close> and the decimals that round to it lie between \<open>L\<close> and
  \<open>U\<close>, ends included when the mantissa is even. The loop tries coarser grids \<open>10 ^ j\<close> first.
\<close>

fun shortest_loop :: "nat \<Rightarrow> nat \<Rightarrow> nat \<Rightarrow> bool \<Rightarrow> nat \<Rightarrow> nat \<times> nat" where
  "shortest_loop V L U incl j =
     (let g = 10 ^ j; k = V div g;
          okdown = (L < k * g \<or> incl \<and> L = k * g);
          okup = ((k + 1) * g < U \<or> incl \<and> (k + 1) * g = U)
      in if okdown \<and> okup then
           (let r = V - k * g
            in (if 2 * r < g \<or> 2 * r = g \<and> even k then k else k + 1, j))
         else if okdown then (k, j)
         else if okup then (k + 1, j)
         else case j of 0 \<Rightarrow> (V, 0) | Suc j' \<Rightarrow> shortest_loop V L U incl j')"

declare shortest_loop.simps [simp del]

text \<open>Binary exponent of a quarter unit in the last place, the resolution of the interval's ends.\<close>

definition quarter_exp :: "float_info \<Rightarrow> int \<Rightarrow> int" where
  "quarter_exp flt ex = ex - int (mantbits flt) - 2"

definition float_scale :: "float_info \<Rightarrow> int \<Rightarrow> nat" where
  "float_scale flt ex = 2 ^ nat (quarter_exp flt ex) * 5 ^ nat (- quarter_exp flt ex)"

definition float_lower :: "float_info \<Rightarrow> nat \<Rightarrow> int \<Rightarrow> nat" where
  "float_lower flt m ex = (if m > 2 ^ mantbits flt \<or> ex = bias flt + 1 then 4 * m - 2 else 4 * m - 1)"

text \<open>The digits as a number \<open>D\<close> and the exponent \<open>p\<close> of its last digit.\<close>

definition shortest :: "float_info \<Rightarrow> nat \<Rightarrow> int \<Rightarrow> nat \<times> int" where
  "shortest flt m ex =
     (let c = float_scale flt ex; U = (4 * m + 2) * c;
          (D, j) = shortest_loop (4 * m * c) (float_lower flt m ex * c) U (even m) (length (dec_nat U))
      in (D, int j - int (nat (- quarter_exp flt ex))))"

section \<open>Formatting\<close>

definition fmt_exp :: "int \<Rightarrow> bytes" where
  "fmt_exp x =
     (let a = nat \<bar>x\<bar> in
      [101, if x < 0 then 45 else 43] @ (if a < 10 then [48, digit a] else dec_nat a))"

definition fmtE :: "bytes \<Rightarrow> int \<Rightarrow> bytes" where
  "fmtE digs dp = [hd digs] @ (if length digs > 1 then 46 # tl digs else []) @ fmt_exp (dp - 1)"

definition fmtF :: "bytes \<Rightarrow> int \<Rightarrow> bytes" where
  "fmtF digs dp =
     (if dp > 0 then take (nat dp) digs @ replicate (nat dp - length digs) 48 else [48]) @
     (if int (length digs) > dp
      then 46 # map (\<lambda>i. if 0 \<le> dp + int i \<and> dp + int i < int (length digs) then digs ! nat (dp + int i) else 48)
                    [0..<nat (int (length digs) - dp)]
      else [])"

definition AppendFloat_g :: "float_info \<Rightarrow> bytes \<Rightarrow> nat \<Rightarrow> bytes" where
  "AppendFloat_g flt dst b =
     (let dst = (if float_neg flt b then dst @ [45] else dst) in
      if float_mant flt b = 0 then dst @ [48]
      else
        let (D, p) = shortest flt (float_mant flt b) (float_exp flt b);
            digs = dec_nat D;
            dp = int (length digs) + p
        in if dp - 1 < - 4 \<or> dp - 1 \<ge> 6 then dst @ fmtE digs dp else dst @ fmtF digs dp)"

section \<open>The digits denote the float\<close>

text \<open>The result lies in the interval, and is never zero.\<close>

lemma shortest_loop_in:
  assumes "0 < L" "L < V" "V < U" "shortest_loop V L U incl j = (D, i)"
  shows "(L < D * 10 ^ i \<or> incl \<and> L = D * 10 ^ i) \<and> (D * 10 ^ i < U \<or> incl \<and> D * 10 ^ i = U)"
  using assms(4)
proof (induction j)
  case 0
  with assms(1-3) show ?case
    by (subst (asm) shortest_loop.simps) (auto simp: Let_def split: if_splits)
next
  case (Suc j)
  let ?g = "10 ^ Suc j :: nat"
  have lo: "V div ?g * ?g \<le> V" and hi: "V < (V div ?g + 1) * ?g"
    using dividend_less_div_times [of ?g V] by (simp_all del: power_Suc add: add.commute)
  have "V div ?g * ?g < U" "L < (V div ?g + 1) * ?g"
    using le_less_trans [OF lo assms(3)] less_trans [OF assms(2) hi] by simp_all
  with Suc show ?case
    by (subst (asm) shortest_loop.simps)
       (use assms(1-3) in \<open>auto simp: Let_def simp del: power_Suc split: if_splits\<close>)
qed

lemma float_scale_pos: "0 < float_scale flt ex"
  by (simp add: float_scale_def)

text \<open>
  Twice the distance of \<open>D * 10 ^ p\<close> from the float is at most one unit in the last place, half
  that below a power of two: in quarter units, \<open>lower \<le> decimal \<le> 4 m + 2\<close>.
\<close>

lemma shortest_in:
  assumes "0 < m" "shortest flt m ex = (D, p)"
  shows "\<exists>i. p = int i - int (nat (- quarter_exp flt ex)) \<and> 0 < D \<and>
           float_lower flt m ex * float_scale flt ex \<le> D * 10 ^ i \<and> D * 10 ^ i \<le> (4 * m + 2) * float_scale flt ex \<and>
           (odd m \<longrightarrow> float_lower flt m ex * float_scale flt ex < D * 10 ^ i \<and> D * 10 ^ i < (4 * m + 2) * float_scale flt ex)"
proof -
  let ?c = "float_scale flt ex" let ?U = "(4 * m + 2) * ?c"
  have lw: "0 < float_lower flt m ex" "float_lower flt m ex < 4 * m" using assms(1) by (auto simp: float_lower_def)
  then have "0 < float_lower flt m ex * ?c" "float_lower flt m ex * ?c < 4 * m * ?c" "4 * m * ?c < ?U"
    using float_scale_pos [of flt ex] by simp_all
  note bounds = shortest_loop_in [OF this]
  obtain i where i: "shortest_loop (4 * m * ?c) (float_lower flt m ex * ?c) ?U (even m) (length (dec_nat ?U)) = (D, i)"
    "p = int i - int (nat (- quarter_exp flt ex))"
    using assms(2) by (auto simp: shortest_def Let_def split: prod.splits)
  have "0 < D" using bounds [OF i(1)] \<open>0 < float_lower flt m ex * ?c\<close> by (cases D) auto
  with bounds [OF i(1)] i(2) show ?thesis by (intro exI [of _ i]) (auto simp del: of_nat_nat)
qed

section \<open>The text is a JSON number\<close>

lemma json_exp_fmt_exp: "json_exp (fmt_exp x)"
proof -
  have "digits1 (if nat \<bar>x\<bar> < 10 then [48, digit (nat \<bar>x\<bar>)] else dec_nat (nat \<bar>x\<bar>))"
    using digits1_dec_nat by (auto simp: digits1_def is_digit_def [of 48])
  moreover have "[if x < 0 then 45 else 43] \<in> {[], [43], [45 :: byte]}" by simp
  ultimately show ?thesis unfolding json_exp_def fmt_exp_def Let_def
    by (metis append_Cons append_Nil insertI1)
qed

lemma dec_nat_Cons:
  assumes "0 < n"
  obtains c r where "dec_nat n = c # r" "is_digit c" "c \<noteq> 48" "list_all is_digit r"
  using dec_nat_digits [of n] dec_nat_head [OF assms] dec_nat_nonempty [of n]
  by (cases "dec_nat n") (auto simp: list_all_iff)

lemma fmtE_json:
  assumes "0 < n"
  shows "\<exists>i f e. fmtE (dec_nat n) dp = i @ f @ e \<and> json_int i \<and> json_frac f \<and> json_exp e"
proof -
  obtain c r where c: "dec_nat n = c # r" "is_digit c" "c \<noteq> 48" "list_all is_digit r" using dec_nat_Cons [OF assms] .
  have "json_int [c]" using c by (simp add: json_int_def digits1_def)
  moreover have "json_frac (if r = [] then [] else 46 # r)" using c by (simp add: json_frac_def digits1_def)
  moreover have "fmtE (dec_nat n) dp = [c] @ (if r = [] then [] else 46 # r) @ fmt_exp (dp - 1)"
    by (simp add: fmtE_def c)
  ultimately show ?thesis using json_exp_fmt_exp by blast
qed

lemma fmtF_json:
  assumes "0 < n"
  shows "\<exists>i f. fmtF (dec_nat n) dp = i @ f \<and> json_int i \<and> json_frac f"
proof -
  let ?d = "dec_nat n"
  let ?i = "if dp > 0 then take (nat dp) ?d @ replicate (nat dp - length ?d) 48 else [48]"
  let ?fr = "map (\<lambda>i. if 0 \<le> dp + int i \<and> dp + int i < int (length ?d) then ?d ! nat (dp + int i) else 48)
                 [0..<nat (int (length ?d) - dp)]"
  obtain c r where c: "?d = c # r" "is_digit c" "c \<noteq> 48" "list_all is_digit r" using dec_nat_Cons [OF assms] .
  have dg: "list_all is_digit ?d" using c by simp
  have z: "is_digit 48" by (simp add: is_digit_def)
  have "json_int ?i"
  proof (cases "dp > 0")
    case True
    then obtain k where k: "nat dp = Suc k" by (metis gr0_implies_Suc zero_less_nat_eq)
    have "list_all is_digit (take k r)" using c(4) by (auto simp: list_all_iff dest: in_set_takeD)
    with True k c z show ?thesis by (auto simp: json_int_def digits1_def list_all_iff)
  qed (simp add: json_int_def)
  moreover have "json_frac (if int (length ?d) > dp then 46 # ?fr else [])"
  proof (cases "int (length ?d) > dp")
    case True
    have "list_all is_digit ?fr" using dg z by (auto simp: list_all_iff)
    moreover have "?fr \<noteq> []" using True by simp
    ultimately show ?thesis using True by (simp add: json_frac_def digits1_def)
  qed (simp add: json_frac_def)
  ultimately show ?thesis unfolding fmtF_def by blast
qed

lemma AppendFloat_g_append: "AppendFloat_g flt dst b = dst @ AppendFloat_g flt [] b"
  by (simp add: AppendFloat_g_def Let_def split: prod.split)

lemma json_number_AppendFloat_g: "json_number (AppendFloat_g flt [] b)"
proof -
  let ?m = "if float_neg flt b then [45 :: byte] else []"
  have m: "?m \<in> {[], [45]}" by simp
  show ?thesis
  proof (cases "float_mant flt b = 0")
    case True
    then have "AppendFloat_g flt [] b = ?m @ [48] @ [] @ []" by (simp add: AppendFloat_g_def)
    also have "json_number \<dots>"
      by (rule json_number_parts [OF m]) (simp_all add: json_int_def json_frac_def json_exp_def)
    finally show ?thesis .
  next
    case False
    obtain D p where s: "shortest flt (float_mant flt b) (float_exp flt b) = (D, p)"
      by (cases "shortest flt (float_mant flt b) (float_exp flt b)")
    have D: "0 < D" using shortest_in [OF _ s] False by auto
    define dp where "dp = int (length (dec_nat D)) + p"
    have "AppendFloat_g flt [] b =
          (if dp - 1 < - 4 \<or> dp - 1 \<ge> 6 then ?m @ fmtE (dec_nat D) dp else ?m @ fmtF (dec_nat D) dp)"
      using False by (simp add: AppendFloat_g_def s dp_def Let_def)
    moreover have "json_number (?m @ fmtE (dec_nat D) dp)"
      using fmtE_json [OF D, of dp] json_number_parts [OF m] by metis
    moreover have "json_exp []" by (simp add: json_exp_def)
    then have "json_number (?m @ fmtF (dec_nat D) dp)"
      using fmtF_json [OF D, of dp] json_number_parts [OF m] by (metis append_Nil2)
    ultimately show ?thesis by presburger
  qed
qed

end
