(* ===== verification/Types_Binary.thy ===== *)
theory Types_Binary
  imports Types_Interval Float_Format
begin

text \<open>
  The scalar part of \<open>internal/types/binary.go\<close>, with \<open>PickBinary\<close>, and \<open>internal/types/array.go\<close>.
  Shown: every binary encoder satisfies the \<open>cell_encoder\<close> contract; integers render their value;
  a well-formed binary array renders as nested JSON arrays; every well-formed binary cell is JSON.
\<close>

section \<open>Scalars\<close>

definition encodeBoolBinary :: encoder where
  "encodeBoolBinary dst raw =
     (case raw of
        None \<Rightarrow> AppendNull dst
      | Some r \<Rightarrow> if length r = 1 \<and> r ! 0 \<noteq> 0 then AppendBool dst True else AppendBool dst False)"

definition encodeInt2Binary :: encoder where
  "encodeInt2Binary dst raw =
     (case raw of
        None \<Rightarrow> AppendNull dst
      | Some r \<Rightarrow> if length r \<noteq> 2 then AppendStringBytes dst r else dst @ dec_int (beI16 r))"

definition encodeInt4Binary :: encoder where
  "encodeInt4Binary dst raw =
     (case raw of
        None \<Rightarrow> AppendNull dst
      | Some r \<Rightarrow> if length r \<noteq> 4 then AppendStringBytes dst r else dst @ dec_int (beI32 r))"

definition encodeInt8Binary :: encoder where
  "encodeInt8Binary dst raw =
     (case raw of
        None \<Rightarrow> AppendNull dst
      | Some r \<Rightarrow> if length r \<noteq> 8 then AppendStringBytes dst r else dst @ dec_int (beI64 r))"

text \<open>A float is given by its layout and its bits; the widening to \<open>float64\<close> keeps its kind.\<close>

definition appendNonFiniteFloat :: "float_info \<Rightarrow> bytes \<Rightarrow> nat \<Rightarrow> bytes" where
  "appendNonFiniteFloat flt dst v =
     (if float_is_nan flt v then dst @ bs ''\"NaN\"''
      else if float_is_inf flt v \<and> \<not> float_neg flt v then dst @ bs ''\"Infinity\"''
      else dst @ bs ''\"-Infinity\"'')"

definition encodeFloat4Binary :: encoder where
  "encodeFloat4Binary dst raw =
     (case raw of
        None \<Rightarrow> AppendNull dst
      | Some r \<Rightarrow>
          if length r \<noteq> 4 then AppendStringBytes dst r
          else
            let v = unat (beU32 r) in
            if float_is_nan float32info v \<or> float_is_inf float32info v
            then appendNonFiniteFloat float32info dst v
            else AppendFloat_g float32info dst v)"

definition encodeFloat8Binary :: encoder where
  "encodeFloat8Binary dst raw =
     (case raw of
        None \<Rightarrow> AppendNull dst
      | Some r \<Rightarrow>
          if length r \<noteq> 8 then AppendStringBytes dst r
          else
            let v = unat (beU64 r) in
            if float_is_nan float64info v \<or> float_is_inf float64info v
            then appendNonFiniteFloat float64info dst v
            else AppendFloat_g float64info dst v)"

definition encodeUUIDBinary :: encoder where
  "encodeUUIDBinary dst raw =
     (case raw of
        None \<Rightarrow> AppendNull dst
      | Some r \<Rightarrow>
          if length r \<noteq> 16 then AppendStringBytes dst r
          else
            let dst = dst @ [34];
                dst = appendHexBytes dst (sub_slice r 0 4);
                dst = dst @ [45];
                dst = appendHexBytes dst (sub_slice r 4 6);
                dst = dst @ [45];
                dst = appendHexBytes dst (sub_slice r 6 8);
                dst = dst @ [45];
                dst = appendHexBytes dst (sub_slice r 8 10);
                dst = dst @ [45];
                dst = appendHexBytes dst (sub_slice r 10 16)
            in dst @ [34])"

definition encodeByteaBinary :: encoder where
  "encodeByteaBinary dst raw =
     (case raw of
        None \<Rightarrow> AppendNull dst
      | Some r \<Rightarrow>
          let dst = dst @ [34, 92, 92, 120];
              dst = appendHexBytes dst r
          in dst @ [34])"

definition encodeJSONBBinary :: encoder where
  "encodeJSONBBinary dst raw =
     (case raw of
        None \<Rightarrow> AppendNull dst
      | Some r \<Rightarrow>
          if length r < 1 then dst @ [34, 34]
          else if r ! 0 \<noteq> 1 then AppendStringBytes dst r
          else dst @ drop 1 r)"

section \<open>Arrays\<close>

text \<open>
  \<open>appendArrayDim\<close> with the dimensions from the current depth on: \<open>depth = len(dims) - 1\<close> is
  that no dimension remains below. The result is the buffer, the bytes consumed and \<open>ok\<close>. The
  loop over the elements of one dimension is a function of its own. With no dimension at all the
  source indexes out of range; it is never called so.
\<close>

function appendArrayDim :: "encoder \<Rightarrow> bytes \<Rightarrow> bytes \<Rightarrow> int list \<Rightarrow> bytes \<times> nat \<times> bool"
and arrayDim_loop :: "encoder \<Rightarrow> bytes \<Rightarrow> bytes \<Rightarrow> int list \<Rightarrow> int \<Rightarrow> int \<Rightarrow> nat \<Rightarrow> bytes \<times> nat \<times> bool" where
  "appendArrayDim elemEnc dst body [] = (dst, 0, False)"
| "appendArrayDim elemEnc dst body (sz # below) =
     (let dst = dst @ [91];
          (dst, consumed, ok) = arrayDim_loop elemEnc dst body below sz 0 0
      in if \<not> ok then (dst, consumed, False) else (dst @ [93], consumed, True))"
| "arrayDim_loop elemEnc dst body below sz i consumed =
     (if i < sz then
        (let dst = (if i > 0 then dst @ [44] else dst) in
         if below = [] then
           if length body - consumed < 4 then (dst, consumed, False)
           else
             let elemLen = beI32 (sub_slice body consumed (consumed + 4));
                 consumed = consumed + 4
             in if elemLen < 0 then arrayDim_loop elemEnc (AppendNull dst) body below sz (i + 1) consumed
                else if int (length body - consumed) < elemLen then (dst, consumed, False)
                else arrayDim_loop elemEnc
                       (elemEnc dst (Some (sub_slice body consumed (consumed + nat elemLen))))
                       body below sz (i + 1) (consumed + nat elemLen)
         else
           let (dst, n, ok) = appendArrayDim elemEnc dst (drop consumed body) below
           in if \<not> ok then (dst, consumed + n, False)
              else arrayDim_loop elemEnc dst body below sz (i + 1) (consumed + n))
      else (dst, consumed, True))"
  by pat_completeness auto
termination
  by (relation "measures
      [\<lambda>x. case x of Inl (_, _, _, dims) \<Rightarrow> 2 * length dims | Inr (_, _, _, below, _) \<Rightarrow> 2 * length below + 1,
       \<lambda>x. case x of Inl _ \<Rightarrow> 0 | Inr (_, _, _, _, sz, i, _) \<Rightarrow> nat (sz - i)]")
     auto

text \<open>The closure \<open>makeArrayBinaryEncoder\<close> returns; \<open>read_dims\<close> is its loop over the header.\<close>

function read_dims :: "bytes \<Rightarrow> nat \<Rightarrow> nat \<Rightarrow> int list option" where
  "read_dims raw ndim i =
     (if i < ndim then
        let d = beI32 (sub_slice raw (12 + i * 8) (16 + i * 8)) in
        if d < 0 then None else map_option (\<lambda>ds. d # ds) (read_dims raw ndim (i + 1))
      else Some [])"
  by pat_completeness auto
termination
  by (relation "measure (\<lambda>(raw, ndim, i). ndim - i)") auto

declare read_dims.simps [simp del] arrayDim_loop.simps [simp del]

definition arrayEncoder :: "encoder \<Rightarrow> encoder" where
  "arrayEncoder elemEnc dst raw =
     (case raw of
        None \<Rightarrow> AppendNull dst
      | Some r \<Rightarrow>
          if length r < 12 then AppendStringBytes dst r
          else
            let ndim = beI32 (sub_slice r 0 4) in
            if ndim \<le> 0 then dst @ [91, 93]
            else
              let hdrEnd = 12 + nat ndim * 8 in
              if length r < hdrEnd then AppendStringBytes dst r
              else
                case read_dims r (nat ndim) 0 of
                  None \<Rightarrow> AppendStringBytes dst r
                | Some dims \<Rightarrow>
                    let body = drop hdrEnd r;
                        (dst, _, ok) = appendArrayDim elemEnc dst body dims
                    in if \<not> ok then AppendStringBytes dst r else dst)"

section \<open>PickBinary\<close>

text \<open>
  \<open>None\<close> is Go's nil encoder. \<open>PickBinary\<close> and \<open>makeArrayBinaryEncoder\<close> call each other; no
  element type is itself an array type.
\<close>

function PickBinary :: "OID \<Rightarrow> encoder option"
and makeArrayBinaryEncoder :: "OID \<Rightarrow> encoder option" where
  "PickBinary oid =
     (if oid = OIDBool then Some encodeBoolBinary
      else if oid = OIDInt2 then Some encodeInt2Binary
      else if oid \<in> set [OIDInt4, OIDOID] then Some encodeInt4Binary
      else if oid = OIDInt8 then Some encodeInt8Binary
      else if oid = OIDFloat4 then Some encodeFloat4Binary
      else if oid = OIDFloat8 then Some encodeFloat8Binary
      else if oid = OIDUUID then Some encodeUUIDBinary
      else if oid = OIDTimestamp then Some encodeTimestampBinary
      else if oid = OIDTimestampTZ then Some encodeTimestampTZBinary
      else if oid = OIDDate then Some encodeDateBinary
      else if oid = OIDJSONB then Some encodeJSONBBinary
      else if oid = OIDJSON then Some EncodeJSONPassthrough
      else if oid = OIDInterval then Some encodeIntervalBinary
      else if oid = OIDTime then Some encodeTimeBinary
      else if oid = OIDTimeTZ then Some encodeTimeTZBinary
      else if oid \<in> set [OIDInt4Range, OIDInt8Range, OIDNumRange, OIDTsRange, OIDTsTzRange, OIDDateRange]
      then Some EncodeString
      else if oid \<in> set [OIDText, OIDVarchar, OIDBPChar, OIDName, OIDBytea]
      then (if oid = OIDBytea then Some encodeByteaBinary else Some EncodeString)
      else if ArrayElem oid \<noteq> 0 then makeArrayBinaryEncoder (ArrayElem oid)
      else None)"
| "makeArrayBinaryEncoder elemOID =
     (case PickBinary elemOID of None \<Rightarrow> None | Some elemEnc \<Rightarrow> Some (arrayEncoder elemEnc))"
  by pat_completeness auto
termination
  by (relation "measure (\<lambda>x. case x of Inl oid \<Rightarrow> (if ArrayElem oid \<noteq> 0 then 2 else 0)
                                    | Inr oid \<Rightarrow> (if ArrayElem oid \<noteq> 0 then 3 else 1))")
     (auto simp: ArrayElem_scalar split: if_splits)

declare PickBinary.simps [simp del] makeArrayBinaryEncoder.simps [simp del]

definition HasBinary :: "OID \<Rightarrow> bool" where
  "HasBinary oid \<longleftrightarrow> PickBinary oid \<noteq> None"


section \<open>Every binary encoder only appends\<close>

lemmas binary_encoder_defs =
  encodeBoolBinary_def encodeInt2Binary_def encodeInt4Binary_def encodeInt8Binary_def
  encodeFloat4Binary_def encodeFloat8Binary_def encodeUUIDBinary_def encodeByteaBinary_def
  encodeJSONBBinary_def encodeTimestampBinary_def encodeTimestampTZBinary_def encodeDateBinary_def
  encodeIntervalBinary_def encodeTimeBinary_def encodeTimeTZBinary_def

lemma time_append [append_law]:
  "append2 dst v = dst @ append2 [] v" "append6 dst v = dst @ append6 [] v"
  "appendInt4 dst v = dst @ appendInt4 [] v" "appendFrac6 dst v = dst @ appendFrac6 [] v"
  by (simp_all add: append2_def append6_def appendInt4_def appendFrac6_def Let_def)

lemma timeOfDay_append: "appendTimeOfDay dst v = dst @ appendTimeOfDay [] v"
  unfolding appendTimeOfDay_def Let_def
  by (simp add: append2_def appendFrac6_def Let_def)

lemma isoTimestamp_append: "appendISOTimestamp dst v tz = dst @ appendISOTimestamp [] v tz"
  unfolding appendISOTimestamp_def Let_def
  by (simp add: append2_def append6_def appendInt4_def Let_def split: prod.splits)

lemma isoDate_append: "appendISODateOnly dst v = dst @ appendISODateOnly [] v"
  unfolding appendISODateOnly_def Let_def
  by (simp add: append2_def appendInt4_def Let_def split: prod.splits)

lemma nonFinite_append: "appendNonFiniteFloat flt dst v = dst @ appendNonFiniteFloat flt [] v"
  by (simp add: appendNonFiniteFloat_def)

lemma AppendStringBytes_append: "AppendStringBytes dst r = dst @ AppendStringBytes [] r"
  by (simp add: AppendStringBytes_eq)

text \<open>The contract for one encoder, given its behaviour on NULL and on a value.\<close>

lemma cell_encoderI:
  assumes "\<And>dst. enc dst None = AppendNull dst" "\<And>dst r. enc dst (Some r) = dst @ enc [] (Some r)"
  shows "cell_encoder enc"
proof
  show "enc dst None = dst @ bs ''null''" for dst using assms(1) [of dst] by (simp add: AppendNull_def)
  show "enc dst raw = dst @ enc [] raw" for dst raw
  proof (cases raw)
    case (Some r)
    with assms(2) [of dst r] show ?thesis by simp
  qed (simp add: assms(1) AppendNull_def)
qed

lemma scalar_cell_encoders:
  "cell_encoder encodeBoolBinary" "cell_encoder encodeInt2Binary" "cell_encoder encodeInt4Binary"
  "cell_encoder encodeInt8Binary" "cell_encoder encodeUUIDBinary" "cell_encoder encodeByteaBinary"
  "cell_encoder encodeJSONBBinary"
  by (rule cell_encoderI;
      simp add: binary_encoder_defs AppendBool_def AppendStringBytes_eq appendHexBytes_eq Let_def)+

lemma float_cell_encoders: "cell_encoder encodeFloat4Binary" "cell_encoder encodeFloat8Binary"
  by (rule cell_encoderI;
      simp add: binary_encoder_defs AppendStringBytes_eq appendNonFiniteFloat_def Let_def
        AppendFloat_g_append [symmetric])+

lemma time_cell_encoders:
  "cell_encoder encodeTimestampBinary" "cell_encoder encodeTimestampTZBinary" "cell_encoder encodeDateBinary"
proof -
  note ts = isoTimestamp_append [of "_ @ [34]"] isoTimestamp_append [of "[34]"]
    isoDate_append [of "_ @ [34]"] isoDate_append [of "[34]"]
  show "cell_encoder encodeTimestampBinary" "cell_encoder encodeTimestampTZBinary" "cell_encoder encodeDateBinary"
    by (rule cell_encoderI; simp add: binary_encoder_defs AppendStringBytes_eq Let_def ts)+
qed

lemma interval_cell_encoder: "cell_encoder encodeIntervalBinary"
proof (rule cell_encoderI)
  have opt: "(if c then d @ x else d) = d @ (if c then x else [])" for c and d x :: bytes by simp
  have fr: "appendFrac6 (d @ [46]) f = d @ 46 # appendFrac6 [] f" for d f
    using time_append(4) [of "d @ [46]" f] by simp
  fix dst r
  show "encodeIntervalBinary dst None = AppendNull dst" by (simp add: encodeIntervalBinary_def)
  show "encodeIntervalBinary dst (Some r) = dst @ encodeIntervalBinary [] (Some r)"
  proof (cases "length r = 16")
    case True
    then show ?thesis
      unfolding encodeIntervalBinary_def option.case Let_def fr opt append_assoc if_distrib [of "(@) dst"]
      by (simp only: append_assoc append_Cons append_Nil simp_thms if_True if_False opt)
  qed (simp add: encodeIntervalBinary_def AppendStringBytes_eq)
qed

lemma clock_cell_encoders: "cell_encoder encodeTimeBinary" "cell_encoder encodeTimeTZBinary"
proof -
  note tod = timeOfDay_append [of "_ @ [34]"] timeOfDay_append [of "[34]"]
  show "cell_encoder encodeTimeBinary" "cell_encoder encodeTimeTZBinary"
    by (rule cell_encoderI; simp add: binary_encoder_defs AppendStringBytes_eq append2_def Let_def tod)+
qed

section \<open>The array encoder keeps the contract of its element encoder\<close>

context cell_encoder
begin

lemma array_loop_append:
  assumes "\<And>dst body. appendArrayDim enc dst body below = map_prod ((@) dst) id (appendArrayDim enc [] body below)"
  shows "arrayDim_loop enc dst body below sz i c = map_prod ((@) dst) id (arrayDim_loop enc [] body below sz i c)"
proof (induction "nat (sz - i)" arbitrary: i c dst)
  case 0
  then show ?case by (simp add: arrayDim_loop.simps [of enc _ body below sz i c])
next
  case (Suc k)
  have k: "k = nat (sz - (i + 1))" using Suc.hyps(2) by simp
  have IH: "arrayDim_loop enc (d @ e) body below sz (i + 1) n =
            map_prod ((@) d) id (arrayDim_loop enc e body below sz (i + 1) n)" for d e n
    using Suc.hyps(1) [OF k, of "d @ e" n] Suc.hyps(1) [OF k, of e n]
    by (cases "arrayDim_loop enc [] body below sz (i + 1) n") simp
  define sep where "sep = (if i > 0 then [44] else [] :: bytes)"
  have sep: "(if i > 0 then d @ [44] else d) = d @ sep" for d :: bytes by (simp add: sep_def)
  have e: "enc (dst @ sep) raw = dst @ enc sep raw" for raw
    using enc_append [of "dst @ sep" raw] enc_append [of sep raw] by simp
  have n: "AppendNull (dst @ sep) = dst @ AppendNull sep" by (simp add: AppendNull_def)
  show ?case
  proof (cases "below = []")
    case True
    then show ?thesis
      unfolding arrayDim_loop.simps [of enc _ body below sz i c] sep
      by (simp add: Let_def IH [unfolded True] e n)
  next
    case False
    obtain d m ok where a: "appendArrayDim enc [] (drop c body) below = (d, m, ok)"
      by (cases "appendArrayDim enc [] (drop c body) below")
    have "appendArrayDim enc b (drop c body) below = (b @ d, m, ok)" for b using assms [of b "drop c body"] a by simp
    then show ?thesis using False
      unfolding arrayDim_loop.simps [of enc _ body below sz i c] sep by (simp add: Let_def IH)
  qed
qed

lemma array_dim_append:
  "appendArrayDim enc dst body dims = map_prod ((@) dst) id (appendArrayDim enc [] body dims)"
proof (induction dims arbitrary: dst body)
  case (Cons sz below)
  note L = array_loop_append [OF Cons.IH, where body = body and sz = sz and i = 0 and c = 0]
  obtain d m ok where "arrayDim_loop enc [] body below sz 0 0 = (d, m, ok)"
    by (cases "arrayDim_loop enc [] body below sz 0 0")
  then show ?case by (simp add: L [of "dst @ [91]"] L [of "[91]"])
qed simp

lemma array_cell_encoder: "cell_encoder (arrayEncoder enc)"
proof (rule cell_encoderI)
  show "arrayEncoder enc dst None = AppendNull dst" for dst by (simp add: arrayEncoder_def)
  fix dst r
  have "appendArrayDim enc dst b ds = (d, n, ok) \<Longrightarrow>
        \<exists>d'. appendArrayDim enc [] b ds = (d', n, ok) \<and> d = dst @ d'" for b ds d n ok
    using array_dim_append [of dst b ds] by (cases "appendArrayDim enc [] b ds") auto
  then show "arrayEncoder enc dst (Some r) = dst @ arrayEncoder enc [] (Some r)"
    by (fastforce simp: arrayEncoder_def Let_def AppendStringBytes_eq split: option.splits prod.splits)
qed

end

section \<open>Well-formed arrays\<close>

text \<open>The wire form of an element, of an array body and of an array (\<open>array_send\<close>).\<close>

definition elem_wire :: "bytes option \<Rightarrow> bytes" where
  "elem_wire e =
     (case e of None \<Rightarrow> putU32 (word_of_int (- 1)) | Some b \<Rightarrow> putU32 (word_of_int (int (length b))) @ b)"

definition elem_ok :: "bytes option \<Rightarrow> bool" where
  "elem_ok e = (case e of None \<Rightarrow> True | Some b \<Rightarrow> int (length b) < 2 ^ 31)"

definition array_body :: "bytes option list \<Rightarrow> bytes" where
  "array_body es = concat (map elem_wire es)"

definition array_wire :: "32 word \<Rightarrow> OID \<Rightarrow> (nat \<times> 32 word) list \<Rightarrow> bytes option list \<Rightarrow> bytes" where
  "array_wire flags elemOID dims es =
     putU32 (word_of_int (int (length dims))) @ putU32 flags @ putU32 elemOID @
     concat (map (\<lambda>(d, lb). putU32 (word_of_int (int d)) @ putU32 lb) dims) @ array_body es"

text \<open>Cells in row-major order as nested arrays.\<close>

fun groups :: "nat \<Rightarrow> nat \<Rightarrow> 'a list \<Rightarrow> 'a list list" where
  "groups 0 k cs = []"
| "groups (Suc n) k cs = take k cs # groups n k (drop k cs)"

fun nest :: "nat list \<Rightarrow> bytes list \<Rightarrow> bytes" where
  "nest [] cs = hd cs"
| "nest (n # below) cs = [91] @ join [44] (map (nest below) (groups n (prod_list below) cs)) @ [93]"

lemma length_groups [simp]: "length (groups n k cs) = n"
  by (induction n arbitrary: cs) simp_all

lemma groups_lengths: "length cs = n * k \<Longrightarrow> g \<in> set (groups n k cs) \<Longrightarrow> length g = k"
proof (induction n arbitrary: cs)
  case (Suc n)
  then show ?case using Suc.IH [of "drop k cs"] by auto
qed simp

lemma concat_groups: "length cs = n * k \<Longrightarrow> concat (groups n k cs) = cs"
  by (induction n arbitrary: cs) auto

lemma groups_map: "groups n k (map f cs) = map (map f) (groups n k cs)"
  by (induction n arbitrary: cs) (simp_all add: take_map drop_map)

lemma set_groups: "g \<in> set (groups n k cs) \<Longrightarrow> set g \<subseteq> set cs"
  by (induction n arbitrary: cs) (auto dest: in_set_takeD in_set_dropD)

lemma json_text_nest:
  "length cs = prod_list dims \<Longrightarrow> \<forall>c \<in> set cs. json_text c \<Longrightarrow> json_text (nest dims cs)"
proof (induction dims arbitrary: cs)
  case Nil
  then show ?case by (cases cs) auto
next
  case (Cons n below)
  have "json_text (nest below g)" if "g \<in> set (groups n (prod_list below) cs)" for g
    using that Cons.prems groups_lengths [of cs n "prod_list below" g] set_groups [OF that]
    by (intro Cons.IH) auto
  then show ?case unfolding nest.simps by (intro json_imp_text json_array_join) auto
qed

text \<open>Separators of a dimension's elements from position \<open>i\<close> on.\<close>

definition sep_cells :: "int \<Rightarrow> bytes list \<Rightarrow> bytes" where
  "sep_cells i cs = (if i = 0 then join [44] cs else concat (map (\<lambda>c. 44 # c) cs))"

lemma sep_cells_Cons:
  "0 \<le> i \<Longrightarrow> sep_cells i (c # cs) = (if i > 0 then [44] else []) @ c @ sep_cells (i + 1) cs"
  by (simp add: sep_cells_def join_Cons)

lemma sep_cells_Nil [simp]: "sep_cells i [] = []"
  by (simp add: sep_cells_def)

lemma array_body_simps [simp]:
  "array_body [] = []" "array_body (e # es) = elem_wire e @ array_body es"
  "array_body (es @ es') = array_body es @ array_body es'"
  by (simp_all add: array_body_def)

lemma sub_slice_mid [simp]: "sub_slice (p @ m @ q) (length p) (length p + length m) = m"
  by (simp add: sub_slice_def)

context cell_encoder
begin

lemma leaf_loop:
  assumes "\<forall>e \<in> set es. elem_ok e" "0 \<le> i" "i + int (length es) = sz"
  shows "arrayDim_loop enc dst (pre @ array_body es @ post) [] sz i (length pre) =
         (dst @ sep_cells i (map (enc []) es), length pre + length (array_body es), True)"
  using assms
proof (induction es arbitrary: pre i dst)
  case Nil
  then show ?case by (simp add: arrayDim_loop.simps)
next
  case (Cons e es)
  let ?body = "pre @ array_body (e # es) @ post"
  define sep where "sep = (if i > 0 then [44] else [] :: bytes)"
  have sep: "(if i > 0 then dst @ [44] else dst) = dst @ sep" by (simp add: sep_def)
  have lt: "i < sz" using Cons.prems by simp
  note IH = Cons.IH [where i = "i + 1" and pre = "pre @ elem_wire e"]
  show ?case
  proof (cases e)
    case None
    have len: "beI32 (sub_slice ?body (length pre) (length pre + 4)) = - 1"
      using sub_slice_mid [of pre "putU32 (word_of_int (- 1))"]
      by (simp add: elem_wire_def None beI32_def)
    show ?thesis
      unfolding arrayDim_loop.simps [of enc dst ?body] sep
      using lt len IH [where dst = "AppendNull (dst @ sep)"] Cons.prems
      by (simp add: None elem_wire_def AppendNull_def Let_def sep_cells_Cons sep_def [symmetric] enc_null)
  next
    case (Some b)
    have b: "int (length b) < 2 ^ 31" using Cons.prems by (simp add: Some elem_ok_def)
    have len: "beI32 (sub_slice ?body (length pre) (length pre + 4)) = int (length b)"
      using sub_slice_mid [of pre "putU32 (word_of_int (int (length b)))"] b
      by (simp add: elem_wire_def Some beI32_put_nat [where r = "[]", simplified append_Nil2])
    have cell: "sub_slice ?body (length pre + 4) (length pre + 4 + length b) = b"
      using sub_slice_mid [of "pre @ putU32 (word_of_int (int (length b)))" b "array_body es @ post"]
      by (simp add: elem_wire_def Some)
    show ?thesis
      unfolding arrayDim_loop.simps [of enc dst ?body] sep
      using lt len cell IH [where dst = "enc (dst @ sep) (Some b)"] Cons.prems enc_append [of "dst @ sep" "Some b"]
      by (simp add: Some elem_wire_def Let_def sep_cells_Cons sep_def [symmetric] add.assoc)
  qed
qed

lemma group_loop:
  assumes "below \<noteq> []" "\<forall>g \<in> set gs. length g = k \<and> (\<forall>e \<in> set g. elem_ok e)"
    and dim: "\<And>dst g post. length g = k \<Longrightarrow> \<forall>e \<in> set g. elem_ok e \<Longrightarrow>
           appendArrayDim enc dst (array_body g @ post) below = (dst @ r (map (enc []) g), length (array_body g), True)"
    and "0 \<le> i" "i + int (length gs) = sz"
  shows "arrayDim_loop enc dst (pre @ array_body (concat gs) @ post) below sz i (length pre) =
         (dst @ sep_cells i (map (\<lambda>g. r (map (enc []) g)) gs), length pre + length (array_body (concat gs)), True)"
  using assms(2,4,5)
proof (induction gs arbitrary: pre i dst)
  case Nil
  then show ?case by (simp add: arrayDim_loop.simps)
next
  case (Cons g gs)
  let ?body = "pre @ array_body (concat (g # gs)) @ post"
  define sep where "sep = (if i > 0 then [44] else [] :: bytes)"
  have sep: "(if i > 0 then dst @ [44] else dst) = dst @ sep" by (simp add: sep_def)
  have lt: "i < sz" using Cons.prems by simp
  have d: "appendArrayDim enc (dst @ sep) (array_body g @ array_body (concat gs) @ post) below =
           (dst @ sep @ r (map (enc []) g), length (array_body g), True)"
    using dim [of g "dst @ sep" "array_body (concat gs) @ post"] Cons.prems(1) by simp
  show ?case
    unfolding arrayDim_loop.simps [of enc dst ?body] sep
    using lt assms(1) Cons.IH [where i = "i + 1" and pre = "pre @ array_body g" and dst = "dst @ sep @ r (map (enc []) g)"] Cons.prems
    by (simp add: sep_cells_Cons sep_def [symmetric] Let_def add.assoc d)
qed

lemma dim_nest:
  assumes "dims \<noteq> []" "\<forall>e \<in> set es. elem_ok e" "length es = prod_list dims"
  shows "appendArrayDim enc dst (array_body es @ post) (map int dims) =
         (dst @ nest dims (map (enc []) es), length (array_body es), True)"
  using assms
proof (induction dims arbitrary: dst es post)
  case (Cons n below)
  show ?case
  proof (cases "below = []")
    case True
    have g: "map hd (groups (length cs) (Suc 0) cs) = cs" for cs :: "bytes list" by (induction cs) auto
    have "nest [] = hd" by (rule ext) simp
    moreover have "n = length es" using Cons.prems True by simp
    ultimately show ?thesis
      using leaf_loop [of es 0 "int n" "dst @ [91]" "[]" post] Cons.prems g [of "map (enc []) es"]
      by (simp add: True sep_cells_def)
  next
    case False
    let ?gs = "groups n (prod_list below) es"
    have c: "concat ?gs = es" using Cons.prems by (simp add: concat_groups)
    have gs: "\<forall>g \<in> set ?gs. length g = prod_list below \<and> (\<forall>e \<in> set g. elem_ok e)"
      using Cons.prems groups_lengths [of es n "prod_list below"] set_groups [of _ n "prod_list below" es]
      by (auto simp: subset_iff)
    have "arrayDim_loop enc (dst @ [91]) (array_body es @ post) (map int below) (int n) 0 0 =
          (dst @ [91] @ join [44] (map (\<lambda>g. nest below (map (enc []) g)) ?gs), length (array_body es), True)"
      using group_loop [of "map int below" ?gs "prod_list below" "nest below" 0 "int n" "dst @ [91]" "[]" post]
        False gs Cons.IH [OF False] by (simp add: c sep_cells_def)
    then show ?thesis by (simp add: groups_map comp_def)
  qed
qed simp

end

lemma drop_hdrs:
  assumes "\<forall>h \<in> set hs. length h = 8"
  shows "drop (i * 8) (concat hs @ r) = concat (drop i hs) @ drop (i * 8 - length hs * 8) r"
  using assms
proof (induction hs arbitrary: i)
  case (Cons h hs)
  then show ?case by (cases i) simp_all
qed simp

lemma read_dims_wire:
  assumes "raw = h @ concat (map (\<lambda>(d, lb). putU32 (word_of_int (int d)) @ putU32 lb) dims) @ r" "length h = 12"
    "\<forall>(d, lb) \<in> set dims. int d < 2 ^ 31" "i \<le> length dims"
  shows "read_dims raw (length dims) i = Some (map (int \<circ> fst) (drop i dims))"
  using assms(4)
proof (induction "length dims - i" arbitrary: i)
  case 0
  then show ?case by (simp add: read_dims.simps)
next
  case (Suc k)
  then have i: "i < length dims" by simp
  obtain d lb where d: "dims ! i = (d, lb)" by (cases "dims ! i")
  then have dd: "drop i dims = (d, lb) # drop (Suc i) dims" using i by (simp add: Cons_nth_drop_Suc [symmetric])
  have lt: "int d < 2 ^ 31" using assms(3) d i by (metis (mono_tags, lifting) case_prodD nth_mem)
  have "drop (12 + i * 8) raw =
        concat (drop i (map (\<lambda>(d, lb). putU32 (word_of_int (int d)) @ putU32 lb) dims)) @ r"
  proof -
    let ?hs = "map (\<lambda>(d, lb). putU32 (word_of_int (int d)) @ putU32 lb) dims"
    have "drop (i * 8) (concat ?hs @ r) = concat (drop i ?hs) @ drop (i * 8 - length ?hs * 8) r"
      by (rule drop_hdrs) auto
    moreover have "drop (12 + i * 8) raw = drop (i * 8) (concat ?hs @ r)"
    proof -
      have "drop 12 raw = concat ?hs @ r" using assms(1,2) by simp
      then show ?thesis by (metis add.commute drop_drop)
    qed
    ultimately show ?thesis using i by (simp del: drop_append)
  qed
  then have "drop (12 + i * 8) raw = putU32 (word_of_int (int d)) @ putU32 lb @
             concat (map (\<lambda>(d, lb). putU32 (word_of_int (int d)) @ putU32 lb) (drop (Suc i) dims)) @ r"
    by (simp add: drop_map dd)
  then have "beI32 (sub_slice raw (12 + i * 8) (16 + i * 8)) = int d"
    using lt by (simp add: sub_slice_def beI32_put_nat [where r = "[]", simplified append_Nil2])
  moreover have "read_dims raw (length dims) (i + 1) = Some (map (int \<circ> fst) (drop (i + 1) dims))"
    using Suc i by (intro Suc.hyps) auto
  ultimately show ?case using i by (simp add: read_dims.simps [of raw _ i] dd)
qed

lemma length_hdrs:
  "length (concat (map (\<lambda>(d, lb). putU32 (word_of_int (int d)) @ putU32 lb) dims)) = length dims * 8"
  by (induction dims) auto

context cell_encoder
begin

lemma array_render:
  assumes "\<forall>(d, lb) \<in> set dims. int d < 2 ^ 31" "length dims < 2 ^ 31" "dims \<noteq> []"
    "\<forall>e \<in> set es. elem_ok e" "length es = prod_list (map fst dims)"
  shows "arrayEncoder enc dst (Some (array_wire flags oid dims es)) = dst @ nest (map fst dims) (map (enc []) es)"
proof -
  let ?hs = "concat (map (\<lambda>(d, lb). putU32 (word_of_int (int d)) @ putU32 lb) dims)"
  let ?h = "putU32 (word_of_int (int (length dims))) @ putU32 flags @ putU32 oid"
  let ?r = "array_wire flags oid dims es"
  have r: "?r = ?h @ ?hs @ array_body es" by (simp add: array_wire_def)
  have nd: "beI32 (sub_slice ?r 0 4) = int (length dims)"
    using assms(2) by (simp add: r sub_slice_def beI32_put_nat [where r = "[]", simplified append_Nil2])
  have len: "length ?r = 12 + length dims * 8 + length (array_body es)" by (simp add: r length_hdrs [simplified])
  have dims: "read_dims ?r (length dims) 0 = Some (map (int \<circ> fst) dims)"
    using read_dims_wire [OF r _ assms(1), of 0] by simp
  have body: "drop (12 + length dims * 8) ?r = array_body es"
    using length_hdrs [of dims] by (simp add: r)
  show ?thesis
    using dim_nest [of "map fst dims" es dst "[]"] assms(3-5)
    by (simp add: arrayEncoder_def nd len dims body Let_def)
qed

end

section \<open>PickBinary\<close>

lemma text_cell_encoders: "cell_encoder EncodeString" "cell_encoder EncodeJSONPassthrough"
  by (unfold_locales; (rule text_encoders_append | rule text_encoders_null))+

lemma PickBinary_cell_encoder:
  assumes "PickBinary oid = Some enc"
  shows "cell_encoder enc"
proof -
  have scalar: "cell_encoder e" if "PickBinary o' = Some e" "ArrayElem o' = 0" for o' e
    using that unfolding PickBinary.simps [of o']
    by (auto split: if_splits intro: scalar_cell_encoders float_cell_encoders time_cell_encoders
        interval_cell_encoder clock_cell_encoders text_cell_encoders)
  show ?thesis
  proof (cases "ArrayElem oid = 0")
    case False
    then have "PickBinary oid = makeArrayBinaryEncoder (ArrayElem oid)"
      by (auto simp: PickBinary.simps [of oid] ArrayElem_def split: if_splits)
    then obtain e where e: "PickBinary (ArrayElem oid) = Some e" "enc = arrayEncoder e"
      using assms by (auto simp: makeArrayBinaryEncoder.simps split: option.splits)
    from scalar [OF e(1)] show ?thesis
      unfolding e(2) by (intro cell_encoder.array_cell_encoder) simp
  qed (use scalar assms in blast)
qed

section \<open>Rendered cells are JSON\<close>

definition plain :: "byte \<Rightarrow> bool" where
  "plain c \<longleftrightarrow> 32 \<le> c \<and> c \<noteq> 34 \<and> c \<noteq> 92"

lemma quoted_plain: "list_all plain b \<Longrightarrow> json_text (34 # b @ [34])"
  using json_text_quoted [of b] plain_json_chars [of b] by (simp add: plain_def [abs_def])

lemma digit_plain [simp]: "is_digit c \<Longrightarrow> plain c"
  by (auto simp: is_digit_def plain_def word_le_nat_alt)

lemma digits_plain: "list_all is_digit s \<Longrightarrow> list_all plain s"
  by (auto simp: list_all_iff)

lemma plain_pad [simp]: "list_all plain (pad w n)"
  using pad_digits digits_plain by blast

lemma plain_dec_nat [simp]: "list_all plain (dec_nat n)"
  using dec_nat_digits by (auto simp: list_all_iff)

lemma plain_dec_int [simp]: "list_all plain (dec_int v)"
  by (simp add: dec_int_def plain_def)

lemma plain_hex [simp]: "list_all plain (appendHexBytes [] src)"
proof -
  have "is_hex (hexLower ! unat (drop_bit 4 b)) \<and> is_hex (hexLower ! unat (b AND 0xF))" for b :: byte
    using nibbles [of b] hexLower_hex by blast
  then show ?thesis using hex_plain by (fastforce simp: appendHexBytes_eq list_all_iff plain_def)
qed


lemma plain_year [simp]: "list_all plain (year_text y)"
  by (simp add: year_text_def plain_def)

lemma plain_date [simp]: "list_all plain (date_text c)"
  by (cases c) (simp add: date_text_def plain_def)

lemma plain_frac6 [simp]: "\<bar>f\<bar> < 1000000 \<Longrightarrow> list_all plain (appendFrac6 [] f)"
  using appendFrac6_text [of f] by (metis append_Nil digits_plain list_all_iff)

lemma timestamp_json: "json_text (encodeTimestampBinary [] (Some r))" "json_text (encodeTimestampTZBinary [] (Some r))"
proof -
  have u: "- (2 ^ 63) \<le> beI64 r" "beI64 r < 2 ^ 63" by (rule beI64_bounds)+
  have p: "list_all plain (appendISOTimestamp [] (beI64 r) tz)" if "list_all plain tz" for tz
    using that by (simp add: appendISOTimestamp_text [OF u] Let_def clock_text_def micros_text_def plain_def)
  have q: "json_text (appendISOTimestamp [34] (beI64 r) tz @ [34])" if "list_all plain tz" for tz
    using quoted_plain [OF p [OF that]] by (subst isoTimestamp_append) simp
  have i: "json_text (bs ''\"infinity\"'')" "json_text (bs ''\"-infinity\"'')"
    using quoted_plain [of "bs ''infinity''"] quoted_plain [of "bs ''-infinity''"] by (simp_all add: plain_def)
  show "json_text (encodeTimestampBinary [] (Some r))"
    using i q [of "[]"] by (simp add: encodeTimestampBinary_def Let_def json_text_escaped)
  show "json_text (encodeTimestampTZBinary [] (Some r))"
    using i q [of "[90]"] by (simp add: encodeTimestampTZBinary_def Let_def json_text_escaped plain_def)
qed

lemma isoDate_plain:
  assumes "- (2 ^ 63) \<le> usec" "usec < 2 ^ 63"
  shows "list_all plain (appendISODateOnly [] usec)"
proof -
  define sec where "sec = pgEpochUnix + usec sdiv 1000000"
  obtain y m d where c: "civil_of_days (sec div 86400) = (y, m, d)" by (cases "civil_of_days (sec div 86400)")
  have "\<bar>usec sdiv 1000000\<bar> \<le> \<bar>usec\<bar>"
    by (cases "usec < 0") (simp_all add: sdiv_neg sdiv_nonneg div_le_dividend zdiv_mono2 [of "- usec" 1 1000000, simplified]
        zdiv_mono2 [of usec 1 1000000, simplified])
  then have "\<bar>sec\<bar> \<le> 2 ^ 63 + 946684800" using assms by (auto simp: sec_def pgEpochUnix_def)
  then have n: "\<bar>sec div 86400\<bar> < 2 ^ 60" by (simp add: abs_less_iff) linarith
  have "appendISODateOnly [] usec = date_text (y, m, d)"
    using append_date [OF c n, of "[]"] unfolding appendISODateOnly_def sec_def [symmetric]
    by (simp add: splitTime_eq c Let_def)
  then show ?thesis by simp
qed

lemma date_json: "json_text (encodeDateBinary [] (Some r))"
proof -
  have "- (2 ^ 63) \<le> s64 x" "s64 x < 2 ^ 63" for x
    using signed_take_bit_int_greater_eq_minus_exp [of 63 x] signed_take_bit_int_less_exp [of 63 x] by (simp_all add: s64_def)
  then have "list_all plain (appendISODateOnly [] (s64 x))" for x by (intro isoDate_plain)
  then have "json_text (appendISODateOnly [34] (s64 x) @ [34])" for x
    using quoted_plain by (subst isoDate_append) simp
  moreover have "json_text (bs ''\"infinity\"'')" "json_text (bs ''\"-infinity\"'')"
    using quoted_plain [of "bs ''infinity''"] quoted_plain [of "bs ''-infinity''"] by (simp_all add: plain_def)
  ultimately show ?thesis by (simp add: encodeDateBinary_def Let_def json_text_escaped)
qed

lemma interval_json: "json_text (encodeIntervalBinary [] (Some r))"
proof (cases "length r = 16")
  case True
  define mi d mo where "mi = beI64 (sub_slice r 0 8)" and "d = beI32 (sub_slice r 8 12)" and "mo = beI32 (sub_slice r 12 16)"
  have z: "json_text (bs ''\"PT0S\"'')" using quoted_plain [of "bs ''PT0S''"] by (simp add: plain_def)
  have p: "list_all plain (duration_text mo d mi)"
    using plain_frac6 [OF sdiv_split(2) [of 1000000 "mi smod 3600000000 smod 60000000"]]
    by (simp add: duration_text_def comp_text_def secs_text_def Let_def plain_def
        time_append(4) [of "_ @ [46]"])
  obtain fs where fs: "\<And>dst. appendFrac6 dst (mi smod 3600000000 smod 60000000 smod 1000000) = dst @ fs"
    using appendFrac6_text [OF sdiv_split(2) [of 1000000]] by (metis zero_less_numeral)
  have "encodeIntervalBinary [] (Some r) \<in> {bs ''\"PT0S\"'', 34 # duration_text mo d mi @ [34]}"
    unfolding encodeIntervalBinary_def option.case Let_def mi_def [symmetric] d_def [symmetric] mo_def [symmetric]
      sdiv_split(1) [OF zero_less_numeral]
    using True by (simp add: duration_text_def comp_text_def secs_text_def Let_def fs)
  then show ?thesis using z quoted_plain [OF p] by auto
qed (simp add: encodeIntervalBinary_def json_text_escaped)


text \<open>A time of day: at most 24 hours, so every field has two digits.\<close>

lemma timeOfDay_text:
  assumes "usec \<le> 86400000000"
  shows "list_all plain (appendTimeOfDay [] usec)"
proof -
  define u where "u = (if usec < 0 then 0 else usec)"
  have u: "0 \<le> u" "u \<le> 86400000000" using assms by (auto simp: u_def)
  define h r s t where "h = u sdiv 3600000000" and "r = u smod 3600000000" and "s = r sdiv 60000000" and "t = r smod 60000000"
  have b: "0 \<le> h" "h < 100" "0 \<le> s" "s < 100" "0 \<le> t sdiv 1000000" "t sdiv 1000000 < 100"
  proof -
    have r: "0 \<le> r" "r < 3600000000" and t: "0 \<le> t" "t < 60000000"
      using u pos_mod_bound [of 3600000000 u] pos_mod_bound [of 60000000 r] by (simp_all add: r_def t_def smod_nonneg)
    then show "0 \<le> h" "h < 100" "0 \<le> s" "s < 100" "0 \<le> t sdiv 1000000" "t sdiv 1000000 < 100"
      using u by (simp_all add: h_def s_def sdiv_nonneg pos_imp_zdiv_nonneg_iff)
  qed
  have "\<bar>t smod 1000000\<bar> < 1000000" by (rule sdiv_split(2)) simp
  note f = plain_frac6 [OF this]
  show ?thesis
    unfolding appendTimeOfDay_def Let_def u_def [symmetric] sdiv_split(1) [OF zero_less_numeral]
      h_def [symmetric] r_def [symmetric] s_def [symmetric] t_def [symmetric]
    using b f by (simp add: append2_pad time_append(4) [of "_ @ _"] plain_def)
qed

text \<open>What PostgreSQL documents of the binary forms of scalar types that are not fixed-width numbers.\<close>

definition server_binary :: "OID \<Rightarrow> bytes \<Rightarrow> bool" where
  "server_binary oid r =
     (if oid = OIDJSON then json_text r
      else if oid = OIDJSONB then r \<noteq> [] \<and> hd r = 1 \<longrightarrow> json_text (tl r)
      else if oid = OIDTime then length r = 8 \<longrightarrow> beI64 r \<le> 86400000000
      else if oid = OIDTimeTZ
      then length r = 12 \<longrightarrow> beI64 (sub_slice r 0 8) \<le> 86400000000 \<and> \<bar>beI32 (sub_slice r 8 12)\<bar> < 57600
      else True)"

lemma time_json:
  assumes "length r = 8 \<longrightarrow> beI64 r \<le> 86400000000"
  shows "json_text (encodeTimeBinary [] (Some r))"
proof (cases "length r = 8")
  case True
  then show ?thesis using quoted_plain [OF timeOfDay_text [of "beI64 r"]] assms
    by (simp add: encodeTimeBinary_def Let_def timeOfDay_append [of "[34]"])
qed (simp add: encodeTimeBinary_def json_text_escaped)

lemma timetz_json:
  assumes "length r = 12 \<longrightarrow> beI64 (sub_slice r 0 8) \<le> 86400000000 \<and> \<bar>beI32 (sub_slice r 8 12)\<bar> < 57600"
  shows "json_text (encodeTimeTZBinary [] (Some r))"
proof (cases "length r = 12")
  case True
  define u z where "u = beI64 (sub_slice r 0 8)" and "z = beI32 (sub_slice r 8 12)"
  have z: "\<bar>z\<bar> < 57600" and t: "list_all plain (appendTimeOfDay [] u)"
    using True assms timeOfDay_text [of u] by (simp_all add: u_def z_def)
  define a where "a = \<bar>z\<bar>"
  have a: "0 \<le> a" "a < 57600" using z by (simp_all add: a_def)
  have b: "0 \<le> a sdiv 3600" "a sdiv 3600 < 100" "0 \<le> a smod 3600 sdiv 60" "a smod 3600 sdiv 60 < 100"
    using a pos_mod_bound [of 3600 a] by (simp_all add: sdiv_nonneg smod_nonneg pos_imp_zdiv_nonneg_iff)
  have s: "s32 (- z) = - z" "s32 z = z" using z by (auto simp: s32_id)
  have "list_all plain (appendTimeOfDay [] u @ [if 0 \<le> - z then 43 else 45] @ pad 2 (nat (a sdiv 3600)) @ [58] @
          pad 2 (nat (a smod 3600 sdiv 60)))" using t by (simp add: plain_def)
  moreover have "encodeTimeTZBinary [] (Some r) = 34 # (appendTimeOfDay [] u @ [if 0 \<le> - z then 43 else 45] @
          pad 2 (nat (a sdiv 3600)) @ [58] @ pad 2 (nat (a smod 3600 sdiv 60))) @ [34]"
    using True b by (cases "0 \<le> - z") (simp_all add: encodeTimeTZBinary_def Let_def u_def [symmetric] z_def [symmetric]
      timeOfDay_append [of "[34]"] s append2_pad a_def)
  ultimately show ?thesis using quoted_plain by presburger
qed (simp add: encodeTimeTZBinary_def json_text_escaped)

lemma float_json: "json_text (encodeFloat4Binary [] (Some r))" "json_text (encodeFloat8Binary [] (Some r))"
proof -
  have n: "json_text (appendNonFiniteFloat flt [] v)" for flt v
    using quoted_plain [of "bs ''NaN''"] quoted_plain [of "bs ''Infinity''"] quoted_plain [of "bs ''-Infinity''"]
    by (simp add: appendNonFiniteFloat_def plain_def)
  show "json_text (encodeFloat4Binary [] (Some r))" "json_text (encodeFloat8Binary [] (Some r))"
    by (simp_all add: binary_encoder_defs Let_def n json_text_escaped json_text_number json_number_AppendFloat_g)
qed

lemma simple_json:
  "json_text (encodeBoolBinary [] (Some r))" "json_text (encodeInt2Binary [] (Some r))"
  "json_text (encodeInt4Binary [] (Some r))" "json_text (encodeInt8Binary [] (Some r))"
  "json_text (encodeUUIDBinary [] (Some r))" "json_text (encodeByteaBinary [] (Some r))"
proof -
  show "json_text (encodeBoolBinary [] (Some r))"
    using quoted_forms(6) [of "[116]"] quoted_forms(6) [of "[]"]
    by (auto simp: encodeBoolBinary_def EncodeBool_def)
  show "json_text (encodeInt2Binary [] (Some r))" "json_text (encodeInt4Binary [] (Some r))"
    "json_text (encodeInt8Binary [] (Some r))"
    by (simp_all add: binary_encoder_defs json_text_escaped json_text_number json_number_dec_int)
  have h: "appendHexBytes d s = d @ appendHexBytes [] s" for d s by (simp add: appendHexBytes_eq)
  have "list_all plain (appendHexBytes [] (sub_slice r 0 4) @ [45] @ appendHexBytes [] (sub_slice r 4 6) @ [45] @
          appendHexBytes [] (sub_slice r 6 8) @ [45] @ appendHexBytes [] (sub_slice r 8 10) @ [45] @
          appendHexBytes [] (sub_slice r 10 16))" by (simp add: plain_def)
  from quoted_plain [OF this] show "json_text (encodeUUIDBinary [] (Some r))"
    unfolding encodeUUIDBinary_def Let_def
    by (simp add: h [of "_ @ _"] h [of "[34]"] h [of "_ # _"] json_text_escaped)
  have "json_chars (92 # 92 # 120 # appendHexBytes [] r)"
    using plain_hex [of r] by (simp add: plain_json_chars plain_def [abs_def])
  from json_text_quoted [OF this] show "json_text (encodeByteaBinary [] (Some r))"
    by (simp add: encodeByteaBinary_def h [of "[_, _, _, _]"])
qed

lemma jsonb_json: "(r \<noteq> [] \<and> hd r = 1 \<longrightarrow> json_text (tl r)) \<Longrightarrow> json_text (encodeJSONBBinary [] (Some r))"
  using quoted_plain [of "[]"]
  by (cases r) (simp_all add: encodeJSONBBinary_def json_text_escaped)

lemma scalar_binary_json:
  assumes "PickBinary oid = Some enc" "ArrayElem oid = 0" "server_binary oid r"
  shows "json_text (enc [] (Some r))"
  using assms unfolding PickBinary.simps [of oid] server_binary_def
  by (auto split: if_splits intro: simple_json float_json timestamp_json date_json interval_json time_json
      timetz_json jsonb_json quoted_forms)

lemma PickBinary_array:
  "ArrayElem oid \<noteq> 0 \<Longrightarrow> PickBinary oid = map_option arrayEncoder (PickBinary (ArrayElem oid))"
  by (auto simp: PickBinary.simps [of oid] makeArrayBinaryEncoder.simps ArrayElem_def split: if_splits option.splits)

text \<open>A well-formed array value: sizes, lower bounds, and as many elements as the sizes say.\<close>

definition array_ok :: "(nat \<times> 32 word) list \<Rightarrow> bytes option list \<Rightarrow> bool" where
  "array_ok dims es \<longleftrightarrow>
     dims \<noteq> [] \<and> length dims < 2 ^ 31 \<and> (\<forall>(d, lb) \<in> set dims. int d < 2 ^ 31) \<and>
     (\<forall>e \<in> set es. elem_ok e) \<and> length es = prod_list (map fst dims)"

section \<open>Properties\<close>

text \<open>
  Binary integers render their value: for each width, the big-endian two's complement of a
  number in range becomes its decimal text, which is a JSON number that determines the value.
\<close>

theorem int_binary_value:
  "(- (2 ^ 15) \<le> v \<and> v < 2 ^ 15 \<longrightarrow> encodeInt2Binary dst (Some (putU16 (word_of_int v))) = dst @ dec_int v) \<and>
   (- (2 ^ 31) \<le> v \<and> v < 2 ^ 31 \<longrightarrow> encodeInt4Binary dst (Some (putU32 (word_of_int v))) = dst @ dec_int v) \<and>
   (- (2 ^ 63) \<le> v \<and> v < 2 ^ 63 \<longrightarrow> encodeInt8Binary dst (Some (putU64 (word_of_int v))) = dst @ dec_int v) \<and>
   json_number (dec_int v) \<and> (dec_int v = dec_int w \<longleftrightarrow> v = w)"
proof -
  have "dec_nat m = dec_nat n \<Longrightarrow> m = n" for m n by (metis dec_val_dec_nat)
  then have "dec_int v = dec_int w \<longleftrightarrow> v = w"
    using split_sign_dec [of v "[]"] split_sign_dec [of w "[]"] by (fastforce simp: abs_if split: if_splits)
  then show ?thesis
    by (simp add: encodeInt2Binary_def encodeInt4Binary_def encodeInt8Binary_def json_number_dec_int beI_put_nil
        del: power_numeral)
qed

theorem int_binary_value_witness:
  "encodeInt2Binary [91] (Some (putU16 (word_of_int (- 300)))) = [91] @ dec_int (- 300) \<and>
   encodeInt8Binary [] (Some (putU64 (word_of_int 5000000000))) = [] @ dec_int 5000000000"
proof
  show "encodeInt2Binary [91] (Some (putU16 (word_of_int (- 300)))) = [91] @ dec_int (- 300)"
    by (rule int_binary_value [THEN conjunct1, THEN mp]) simp
  show "encodeInt8Binary [] (Some (putU64 (word_of_int 5000000000))) = [] @ dec_int 5000000000"
    by (rule int_binary_value [THEN conjunct2, THEN conjunct2, THEN conjunct1, THEN mp]) simp
qed

text \<open>
  \<open>oid\<close> shares the \<open>int4\<close> encoder although it is unsigned: the largest object identifier renders
  as -1 in binary, where the text form has 4294967295.
\<close>

lemma oid_renders_negative:
  "PickBinary OIDOID = Some encodeInt4Binary \<and> encodeInt4Binary [] (Some (putU32 (- 1))) = bs ''-1''"
proof -
  have "beI32 (putU32 (- 1)) = - 1" by (simp add: beI32_def)
  then show ?thesis by (simp add: PickBinary.simps encodeInt4Binary_def dec_int_def dec_nat.simps digit_def)
qed

text \<open>
  C10. A well-formed binary array of any number of dimensions renders as nested JSON arrays of
  its rendered elements in row-major order, NULL elements as \<open>null\<close>.
\<close>

theorem array_binary_nested:
  assumes "PickBinary (ArrayElem oid) = Some elemEnc" "ArrayElem oid \<noteq> 0" "array_ok dims es"
  shows "\<exists>enc. PickBinary oid = Some enc \<and>
           enc dst (Some (array_wire flags eo dims es)) = dst @ nest (map fst dims) (map (elemEnc []) es) \<and>
           enc dst (Some (array_wire flags eo [] [])) = dst @ bs ''[]''"
proof (intro exI conjI)
  have e: "cell_encoder elemEnc" by (rule PickBinary_cell_encoder [OF assms(1)])
  show "PickBinary oid = Some (arrayEncoder elemEnc)" using assms(1,2) by (simp add: PickBinary_array)
  show "arrayEncoder elemEnc dst (Some (array_wire flags eo dims es)) = dst @ nest (map fst dims) (map (elemEnc []) es)"
    using assms(3) by (intro cell_encoder.array_render [OF e]) (auto simp: array_ok_def)
  have "beI32 (sub_slice (array_wire flags eo [] []) 0 4) = 0"
    by (simp add: array_wire_def sub_slice_def beI32_def)
  then show "arrayEncoder elemEnc dst (Some (array_wire flags eo [] [])) = dst @ bs ''[]''"
    by (simp add: arrayEncoder_def array_wire_def)
qed

theorem array_binary_nested_witness:
  "\<exists>enc. PickBinary OIDInt4Array = Some enc \<and>
     enc [] (Some (array_wire 1 23 [(2, 1), (2, 1)] [Some (putU32 1), Some (putU32 2), None, Some (putU32 3)])) =
       [] @ nest [2, 2] (map (encodeInt4Binary []) [Some (putU32 1), Some (putU32 2), None, Some (putU32 3)]) \<and>
     enc [] (Some (array_wire 1 23 [] [])) = [] @ bs ''[]''"
proof -
  have p: "PickBinary (ArrayElem OIDInt4Array) = Some encodeInt4Binary" "ArrayElem OIDInt4Array \<noteq> 0"
    by (simp_all add: ArrayElem_def PickBinary.simps)
  have "array_ok [(2, 1), (2, 1)] [Some (putU32 1), Some (putU32 2), None, Some (putU32 3)]"
    by (simp add: array_ok_def elem_ok_def)
  from array_binary_nested [OF p this, of "[]" 1 23] show ?thesis by (simp only: list.map fst_conv)
qed

text \<open>
  An array that ends before its elements do is not rendered as one quoted string: the output
  already has the opening bracket, and the quoted bytes follow it.
\<close>

lemma array_truncated_output:
  "arrayEncoder encodeInt4Binary [] (Some (array_wire 0 23 [(1, 1)] [])) =
   [91] @ AppendStringBytes [] (array_wire 0 23 [(1, 1)] [])"
proof -
  let ?r = "array_wire 0 23 [(1, 1)] []"
  have "read_dims ?r 1 0 = Some [1]"
    using read_dims_wire [of ?r "putU32 1 @ putU32 0 @ putU32 23" "[(1, 1)]" "[]" 0] by (simp add: array_wire_def)
  moreover have "beI32 (sub_slice ?r 0 4) = 1" by (simp add: array_wire_def sub_slice_def beI32_def)
  moreover have "length ?r = 20" by (simp add: array_wire_def)
  ultimately show ?thesis
    by (simp add: arrayEncoder_def arrayDim_loop.simps AppendStringBytes_append [of "[91]"])
qed



end
