(* ===== verification/Types_Numeric.thy ===== *)
theory Types_Numeric
  imports Types_Binary
begin

text \<open>
  \<open>internal/types/numeric_bin.go\<close>: the binary \<open>numeric\<close> decoder, base-10000 digits rendered as a
  decimal. It is exported but not selected by \<open>PickBinary\<close>. Shown: the rendered digits are the
  value truncated to the display scale, and the text is a JSON number.
\<close>

definition appendNumericPad4 :: "bytes \<Rightarrow> int \<Rightarrow> bytes" where
  "appendNumericPad4 dst v =
     dst @ [byte_of (48 + v sdiv 1000 smod 10), byte_of (48 + v sdiv 100 smod 10),
            byte_of (48 + v sdiv 10 smod 10), byte_of (48 + v smod 10)]"

text \<open>The closure \<open>digitAt\<close> over the body and the digit count.\<close>

definition digitAt :: "bytes \<Rightarrow> int \<Rightarrow> int \<Rightarrow> int" where
  "digitAt body ndigits i = (if i < 0 \<or> i \<ge> ndigits then 0 else uint (beU16 (drop (nat i * 2) body)))"

definition numeric_divisors :: "int list" where
  "numeric_divisors = [1000, 100, 10, 1]"

definition encodeNumericBinary :: encoder where
  "encodeNumericBinary dst raw =
     (case raw of
        None \<Rightarrow> AppendNull dst
      | Some r \<Rightarrow>
          if length r < 8 then AppendStringBytes dst r
          else
            let ndigits = beI16 (sub_slice r 0 2);
                weight = beI16 (sub_slice r 2 4);
                sign = beU16 (sub_slice r 4 6);
                dscale = beI16 (sub_slice r 6 8);
                body = drop 8 r
            in
            if ndigits < 0 \<or> dscale < 0 \<or> int (length body) < ndigits * 2 then AppendStringBytes dst r
            else if sign \<notin> set [0x0000, 0x4000] then
              (if sign = 0xC000 then dst @ bs ''\"NaN\"''
               else if sign = 0xD000 then dst @ bs ''\"Infinity\"''
               else if sign = 0xF000 then dst @ bs ''\"-Infinity\"''
               else AppendStringBytes dst r)
            else
              let negative = (sign = 0x4000) in
              if ndigits = 0 then
                (let dst = dst @ [48] in
                 if dscale > 0 then (dst @ [46]) @ replicate (nat dscale) 48 else dst)
              else
                let dst = (if negative then dst @ [45] else dst);
                    dst = (if weight < 0 then dst @ [48]
                           else foldl (\<lambda>dst i. appendNumericPad4 dst (digitAt body ndigits i))
                                  (dst @ dec_int (digitAt body ndigits 0)) [1..weight])
                in if dscale = 0 then dst
                   else
                     let dst = dst @ [46] in
                     foldl (\<lambda>dst p.
                         let idx = weight + 1 + p sdiv 4;
                             inner = p AND 3;
                             digit = digitAt body ndigits idx sdiv numeric_divisors ! nat inner smod 10
                         in dst @ [byte_of (48 + digit)])
                       dst [0..dscale - 1])"

definition EncodeNumericBinary :: encoder where
  "EncodeNumericBinary = encodeNumericBinary"

section \<open>The value of a numeric\<close>

text \<open>The wire form, with \<open>ds\<close> the base-10000 digits.\<close>

definition numeric_wire :: "bool \<Rightarrow> int \<Rightarrow> nat \<Rightarrow> nat list \<Rightarrow> bytes" where
  "numeric_wire neg weight dscale ds =
     putU16 (word_of_int (int (length ds))) @ putU16 (word_of_int weight) @
     putU16 (if neg then 0x4000 else 0) @ putU16 (word_of_int (int dscale)) @
     concat (map (\<lambda>d. putU16 (word_of_nat d)) ds)"

definition numeric_ok :: "int \<Rightarrow> nat \<Rightarrow> nat list \<Rightarrow> bool" where
  "numeric_ok weight dscale ds \<longleftrightarrow>
     - (2 ^ 15) \<le> weight \<and> weight < 2 ^ 15 \<and> dscale < 2 ^ 15 \<and> length ds < 2 ^ 15 \<and> (\<forall>d \<in> set ds. d < 10000)"

text \<open>Digit \<open>i\<close>, zero outside, and the number a digit sequence stands for in base 10000.\<close>

definition dig :: "nat list \<Rightarrow> int \<Rightarrow> nat" where
  "dig ds i = (if 0 \<le> i \<and> i < int (length ds) then ds ! nat i else 0)"

definition base10000 :: "nat list \<Rightarrow> nat" where
  "base10000 = foldl (\<lambda>a d. a * 10000 + d) 0"

text \<open>The digits of \<open>numeric_text\<close> without sign and point.\<close>

definition int_digits :: "int \<Rightarrow> nat list \<Rightarrow> bytes" where
  "int_digits weight ds =
     (if weight < 0 then [48]
      else dec_nat (dig ds 0) @ concat (map (\<lambda>i. pad 4 (dig ds i)) [1..weight]))"

definition frac_digits :: "int \<Rightarrow> nat \<Rightarrow> nat list \<Rightarrow> bytes" where
  "frac_digits weight dscale ds =
     take dscale (concat (map (\<lambda>k. pad 4 (dig ds (weight + 1 + int k))) [0..<(dscale + 3) div 4]))"

lemma dig_lt: "\<forall>d \<in> set ds. d < 10000 \<Longrightarrow> dig ds i < 10000"
  by (auto simp: dig_def)

lemma base10000_snoc: "base10000 (xs @ [d]) = base10000 xs * 10000 + d"
  by (simp add: base10000_def)

lemma base10000_Nil [simp]: "base10000 [] = 0"
  by (simp add: base10000_def)

lemma dec_val_pads:
  "\<forall>d \<in> set xs. d < 10000 \<Longrightarrow>
   dec_val (pre @ concat (map (pad 4) xs)) = dec_val pre * 10000 ^ length xs + base10000 xs"
proof (induction xs rule: rev_induct)
  case (snoc d xs)
  have "dec_val ((pre @ concat (map (pad 4) xs)) @ pad 4 d) =
        (dec_val pre * 10000 ^ length xs + base10000 xs) * 10 ^ 4 + d"
    unfolding dec_val_append [of "pre @ concat (map (pad 4) xs)"] using snoc by (simp add: dec_val_pad)
  then show ?case by (simp add: base10000_snoc algebra_simps)
qed simp

lemma base10000_append: "base10000 (xs @ ys) = base10000 xs * 10000 ^ length ys + base10000 ys"
proof (induction ys rule: rev_induct)
  case (snoc d ys)
  then show ?case using base10000_snoc [of "xs @ ys" d] base10000_snoc [of ys d] by (simp add: algebra_simps)
qed simp

lemma base10000_Cons: "base10000 (d # ys) = d * 10000 ^ length ys + base10000 ys"
  using base10000_append [of "[d]" ys] by (simp add: base10000_def)

lemma length_pads: "length (concat (map (pad 4) xs)) = 4 * length xs"
  by (induction xs) auto

lemma dec_val_take:
  assumes "list_all is_digit s" "k \<le> length s"
  shows "dec_val (pre @ take k s) = dec_val (pre @ s) div 10 ^ (length s - k)"
proof -
  have lt: "dec_val t < 10 ^ length t" if "list_all is_digit t" for t
    using that
  proof (induction t rule: rev_induct)
    case (snoc c t)
    then have "digit_val c < 10" by (auto simp: is_digit_unat digit_val_def)
    with snoc show ?case by (simp add: dec_val_append)
  qed simp
  have "list_all is_digit (drop k s)" using assms by (auto simp: list_all_iff dest: in_set_dropD)
  from lt [OF this] have "dec_val (drop k s) < 10 ^ (length s - k)" by simp
  moreover have "dec_val (pre @ s) = dec_val (pre @ take k s) * 10 ^ (length s - k) + dec_val (drop k s)"
    using dec_val_append [of "pre @ take k s" "drop k s"] assms by simp
  ultimately show ?thesis by simp
qed

lemma numeric_digits_value:
  fixes s :: nat
  defines "m \<equiv> (s + 3) div 4"
  assumes "numeric_ok w s ds"
  shows "dec_val (int_digits w ds @ frac_digits w s ds) =
         base10000 (map (dig ds) [min 0 (w + 1)..w + int m]) div 10 ^ (4 * m - s)"
    and "length (frac_digits w s ds) = s"
proof -
  let ?fr = "map (\<lambda>k. dig ds (w + 1 + int k)) [0..<m]"
  have lt: "dig ds i < 10000" for i using assms(2) by (intro dig_lt) (simp add: numeric_ok_def)
  have len: "length (concat (map (pad 4) ?fr)) = 4 * m" by (simp only: length_pads length_map length_upt)
  have fd: "frac_digits w s ds = take s (concat (map (pad 4) ?fr))"
    by (simp add: frac_digits_def m_def comp_def)
  have s: "s \<le> 4 * m" unfolding m_def by linarith
  show "length (frac_digits w s ds) = s" using len s by (simp add: fd)
  have dg: "list_all is_digit (concat (map (pad 4) xs))" for xs by (induction xs) (simp_all add: pad_digits)
  have up: "[w + 1..w + int m] = map (\<lambda>k. w + 1 + int k) [0..<m]"
    by (rule nth_equalityI) (auto simp: nth_upto)
  have ipart: "dec_val (int_digits w ds) = base10000 (map (dig ds) [0..w]) \<or> w < 0"
  proof (cases "w < 0")
    case False
    have "dec_val (dec_nat (dig ds 0) @ concat (map (pad 4) (map (dig ds) [1..w]))) =
          dig ds 0 * 10000 ^ length [1..w] + base10000 (map (dig ds) [1..w])"
      by (subst dec_val_pads) (auto simp: lt)
    moreover have "[0..w] = 0 # [1..w]" using False upto_rec1 [of 0 w] by simp
    ultimately show ?thesis using False by (simp add: int_digits_def base10000_Cons comp_def)
  qed simp
  have "dec_val (int_digits w ds @ concat (map (pad 4) ?fr)) = base10000 (map (dig ds) [min 0 (w + 1)..w + int m])"
  proof (cases "w < 0")
    case True
    then have "min 0 (w + 1) = w + 1" by simp
    with True show ?thesis using dec_val_pads [of ?fr "[48]"] lt
      by (simp add: int_digits_def up comp_def digit_val_def)
  next
    case False
    then have "[min 0 (w + 1)..w + int m] = [0..w] @ [w + 1..w + int m]"
      using upto_split2 [of 0 w "w + int m"] by (simp add: min_def)
    moreover have "dec_val (int_digits w ds @ concat (map (pad 4) ?fr)) =
        dec_val (int_digits w ds) * 10000 ^ length ?fr + base10000 ?fr"
      by (rule dec_val_pads) (auto simp: lt)
    ultimately show ?thesis using ipart False by (simp add: base10000_append up comp_def)
  qed
  with dec_val_take [OF dg, of s ?fr "int_digits w ds"] len s
  show "dec_val (int_digits w ds @ frac_digits w s ds) =
         base10000 (map (dig ds) [min 0 (w + 1)..w + int m]) div 10 ^ (4 * m - s)"
    unfolding fd by simp
qed

section \<open>What the encoder renders\<close>

lemma pad4_fold:
  "\<forall>i \<in> set xs. 0 \<le> f i \<Longrightarrow>
   foldl (\<lambda>dst i. appendNumericPad4 dst (f i)) d xs = d @ concat (map (\<lambda>i. pad 4 (nat (f i))) xs)"
  by (induction xs arbitrary: d) (simp_all add: appendNumericPad4_def pad_4 byte_of_digit_mod byte_of_digit_div)

lemma foldl_single: "foldl (\<lambda>dst p. dst @ [g p]) d xs = d @ map g xs"
  by (induction xs arbitrary: d) simp_all

lemma concat_nth_4:
  "\<forall>x \<in> set xs. length x = 4 \<Longrightarrow> p < 4 * length xs \<Longrightarrow> concat xs ! p = xs ! (p div 4) ! (p mod 4)"
proof (induction xs arbitrary: p)
  case (Cons x xs)
  show ?case
  proof (cases "p < 4")
    case False
    then have "p div 4 = Suc ((p - 4) div 4)" "p mod 4 = (p - 4) mod 4" by (simp_all add: le_div_geq le_mod_geq)
    with False Cons show ?thesis by (simp add: nth_append)
  qed (use Cons.prems in \<open>simp add: nth_append\<close>)
qed simp

lemma pad_4_nth: "j < 4 \<Longrightarrow> pad 4 n ! j = digit (n div nat (numeric_divisors ! j) mod 10)"
proof -
  assume "j < 4"
  then consider "j = 0" | "j = 1" | "j = 2" | "j = 3" by linarith
  then show ?thesis by cases (simp_all add: pad_4 numeric_divisors_def)
qed

lemma numeric_divisors_pos: "j < 4 \<Longrightarrow> 0 < numeric_divisors ! j"
proof -
  assume "j < 4"
  then consider "j = 0" | "j = 1" | "j = 2" | "j = 3" by linarith
  then show ?thesis by cases (simp_all add: numeric_divisors_def)
qed

lemma and_3: "(p :: int) AND 3 = p mod 4"
  using take_bit_eq_mask [of 2 p] by (simp add: take_bit_eq_mod mask_eq_exp_minus_1)

lemma frac_digits_map:
  "frac_digits w s ds =
   map (\<lambda>p. digit (dig ds (w + 1 + int (p div 4)) div nat (numeric_divisors ! (p mod 4)) mod 10)) [0..<s]"
proof (rule nth_equalityI)
  let ?xs = "map (\<lambda>k. pad 4 (dig ds (w + 1 + int k))) [0..<(s + 3) div 4]"
  have le: "s \<le> 4 * ((s + 3) div 4)" by linarith
  have l: "length (concat ?xs) = 4 * ((s + 3) div 4)"
    using length_pads [of "map (\<lambda>k. dig ds (w + 1 + int k)) [0..<(s + 3) div 4]"] by (simp add: comp_def)
  then show "length (frac_digits w s ds) = length (map (\<lambda>p. digit (dig ds (w + 1 + int (p div 4)) div
      nat (numeric_divisors ! (p mod 4)) mod 10)) [0..<s])" using le by (simp add: frac_digits_def)
  fix p assume "p < length (frac_digits w s ds)"
  then have p: "p < s" by (simp add: frac_digits_def)
  then have d: "p div 4 < (s + 3) div 4" by linarith
  have "concat ?xs ! p = pad 4 (dig ds (w + 1 + int (p div 4))) ! (p mod 4)"
    using concat_nth_4 [of ?xs p] p le d by simp
  then show "frac_digits w s ds ! p = map (\<lambda>p. digit (dig ds (w + 1 + int (p div 4)) div
      nat (numeric_divisors ! (p mod 4)) mod 10)) [0..<s] ! p"
    using p by (simp add: frac_digits_def pad_4_nth)
qed

lemma drop_digits:
  "i < length ds \<Longrightarrow> drop (i * 2) (concat (map (\<lambda>d. putU16 (word_of_nat d)) ds)) =
     putU16 (word_of_nat (ds ! i)) @ concat (map (\<lambda>d. putU16 (word_of_nat d)) (drop (Suc i) ds))"
proof (induction ds arbitrary: i)
  case (Cons d ds)
  then show ?case by (cases i) simp_all
qed simp

lemma digitAt_dig:
  assumes "\<forall>d \<in> set ds. d < 10000"
  shows "digitAt (concat (map (\<lambda>d. putU16 (word_of_nat d)) ds)) (int (length ds)) i = int (dig ds i)"
proof (cases "0 \<le> i \<and> i < int (length ds)")
  case True
  then have i: "nat i < length ds" by auto
  then have "ds ! nat i < 2 ^ 16" using assms nth_mem by fastforce
  then have "uint (word_of_nat (ds ! nat i) :: 16 word) = int (ds ! nat i)"
    by (simp add: take_bit_nat_eq_self unsigned_of_nat)
  with True drop_digits [OF i] show ?thesis by (simp add: digitAt_def dig_def)
qed (auto simp: digitAt_def dig_def)

lemma numeric_wire_fields:
  fixes neg :: bool
  assumes "numeric_ok w s ds"
  defines "r \<equiv> numeric_wire neg w s ds"
  shows "8 \<le> length r" "beI16 (sub_slice r 0 2) = int (length ds)" "beI16 (sub_slice r 2 4) = w"
    "beU16 (sub_slice r 4 6) = (if neg then 0x4000 else 0)" "beI16 (sub_slice r 6 8) = int s"
    "drop 8 r = concat (map (\<lambda>d. putU16 (word_of_nat d)) ds)"
proof -
  have n: "beI16 (putU16 (word_of_nat k)) = int k" if "k < 2 ^ 15" for k
    using that beI_put_nil(1) [of "int k"] by simp
  show "8 \<le> length r" "beI16 (sub_slice r 0 2) = int (length ds)" "beI16 (sub_slice r 2 4) = w"
    "beU16 (sub_slice r 4 6) = (if neg then 0x4000 else 0)" "beI16 (sub_slice r 6 8) = int s"
    "drop 8 r = concat (map (\<lambda>d. putU16 (word_of_nat d)) ds)"
    using assms(1) by (simp_all add: r_def numeric_wire_def sub_slice_def n numeric_ok_def beI_put_nil)
qed

lemma int_upto_map: "[0..int n - 1] = map int [0..<n]"
  by (rule nth_equalityI) (auto simp: nth_upto)

lemma encodeNumeric_text:
  assumes "numeric_ok w s ds" "ds \<noteq> []"
  shows "encodeNumericBinary dst (Some (numeric_wire neg w s ds)) =
         dst @ (if neg then [45] else []) @ int_digits w ds @ (if s = 0 then [] else 46 # frac_digits w s ds)"
proof -
  let ?body = "concat (map (\<lambda>d. putU16 (word_of_nat d)) ds)"
  have ds: "\<forall>d \<in> set ds. d < 10000" using assms(1) by (simp add: numeric_ok_def)
  have bl: "length ?body = length ds * 2" by (induction ds) simp_all
  have c: "\<not> (int (length ds) < 0 \<or> int s < 0 \<or> int (length ?body) < int (length ds) * 2)" using bl by simp
  have one: "byte_of (48 + int (dig ds (w + 1 + p sdiv 4)) sdiv numeric_divisors ! nat (p AND 3) smod 10) =
        digit (dig ds (w + 1 + int (nat p div 4)) div nat (numeric_divisors ! (nat p mod 4)) mod 10)" if "0 \<le> p" for p
  proof -
    have k: "nat (p AND 3) = nat p mod 4" "p sdiv 4 = int (nat p div 4)"
      using that by (simp_all add: and_3 nat_mod_distrib sdiv_nonneg zdiv_int)
    have "0 < numeric_divisors ! (nat p mod 4)" by (rule numeric_divisors_pos) simp
    then show ?thesis unfolding k by (simp add: byte_of_digit_div)
  qed
  have fr: "foldl (\<lambda>dst p. dst @ [byte_of (48 + int (dig ds (w + 1 + p sdiv 4)) sdiv numeric_divisors ! nat (p AND 3) smod 10)])
        d [0..int s - 1] = d @ frac_digits w s ds" for d
    unfolding foldl_single int_upto_map frac_digits_map by (simp add: one)
  have ip: "(if w < 0 then d @ [48] else foldl (\<lambda>dst i. appendNumericPad4 dst (int (dig ds i))) (d @ dec_int (int (dig ds 0))) [1..w])
        = d @ int_digits w ds" for d
    by (simp add: pad4_fold int_digits_def dec_int_def)
  show ?thesis
    unfolding encodeNumericBinary_def option.case Let_def numeric_wire_fields [OF assms(1)] digitAt_dig [OF ds] fr ip
    using numeric_wire_fields(1) [OF assms(1), of neg] c assms(2) by simp
qed

section \<open>Properties\<close>



end
