(* ===== verification/Pgerr.thy ===== *)
theory Pgerr
  imports Prelude
begin

text \<open>
  \<open>internal/pgerr\<close>: server errors and notices. Shown: every field list the server can frame is
  read back, later duplicates winning, whatever follows the terminator.
\<close>

text \<open>\<open>bytes.IndexByte(b, c)\<close> of the standard library: -1 when absent.\<close>

fun IndexByte :: "bytes \<Rightarrow> byte \<Rightarrow> int" where
  "IndexByte [] c = - 1"
| "IndexByte (b # r) c = (if b = c then 0 else let i = IndexByte r c in if i < 0 then - 1 else i + 1)"

lemma IndexByte_append: "c \<notin> set v \<Longrightarrow> IndexByte (v @ c # r) c = int (length v)"
  by (induction v) auto

lemma IndexByte_absent: "IndexByte b c < 0 \<longleftrightarrow> c \<notin> set b"
proof (induction b)
  case (Cons a b)
  then show ?case by (cases "IndexByte b c < 0") (auto simp: Let_def)
qed simp

lemma IndexByte_present:
  "0 \<le> IndexByte b c \<Longrightarrow>
   \<exists>v r. b = v @ c # r \<and> c \<notin> set v \<and> IndexByte b c = int (length v)"
proof (induction b)
  case (Cons a b)
  show ?case
  proof (cases "a = c")
    case True
    then show ?thesis by (intro exI [of _ "[]"] exI [of _ b]) simp
  next
    case False
    with Cons.prems have "0 \<le> IndexByte b c" by (auto simp: Let_def split: if_splits)
    with Cons.IH obtain v r where "b = v @ c # r" "c \<notin> set v" "IndexByte b c = int (length v)" by blast
    with False show ?thesis by (intro exI [of _ "a # v"] exI [of _ r]) simp
  qed
qed simp

record pg_error =
  Severity :: bytes
  Code :: bytes
  Message :: bytes
  Detail :: bytes
  Hint :: bytes
  Where :: bytes
  Fields :: "byte \<rightharpoonup> bytes"

definition Error_string :: "pg_error \<Rightarrow> bytes" where
  "Error_string e = bs ''postgres: '' @ Severity e @ bs '' '' @ Code e @ bs '': '' @ Message e"

text \<open>The \<open>switch\<close> on the field code.\<close>

definition set_field :: "byte \<Rightarrow> bytes \<Rightarrow> pg_error \<Rightarrow> pg_error" where
  "set_field code val e =
     (if code = 83 then e\<lparr>Severity := val\<rparr>
      else if code = 67 then e\<lparr>Code := val\<rparr>
      else if code = 77 then e\<lparr>Message := val\<rparr>
      else if code = 68 then e\<lparr>Detail := val\<rparr>
      else if code = 72 then e\<lparr>Hint := val\<rparr>
      else if code = 87 then e\<lparr>Where := val\<rparr>
      else e)"

function Parse_loop :: "bytes \<Rightarrow> pg_error \<Rightarrow> pg_error" where
  "Parse_loop body e =
     (case body of
        [] \<Rightarrow> e
      | code # body \<Rightarrow>
          if code = 0 then e
          else
            let i = IndexByte body 0 in
            if i < 0 then e
            else
              let val = take (nat i) body;
                  body = drop (nat (i + 1)) body;
                  e = e\<lparr>Fields := (Fields e)(code \<mapsto> val)\<rparr>
              in Parse_loop body (set_field code val e))"
  by pat_completeness auto
termination
  by (relation "measure (\<lambda>(body, e). length body)") auto

declare Parse_loop.simps [simp del]

definition empty_error :: pg_error where
  "empty_error = \<lparr>Severity = [], Code = [], Message = [], Detail = [], Hint = [], Where = [], Fields = Map.empty\<rparr>"

definition Parse :: "bytes \<Rightarrow> pg_error" where
  "Parse body = Parse_loop body empty_error"

section \<open>Framed fields\<close>

definition field_wire :: "byte \<times> bytes \<Rightarrow> bytes" where
  "field_wire = (\<lambda>(c, v). c # v @ [0])"

definition fields_ok :: "(byte \<times> bytes) list \<Rightarrow> bool" where
  "fields_ok fs \<longleftrightarrow> (\<forall>(c, v) \<in> set fs. c \<noteq> 0 \<and> 0 \<notin> set v)"

definition add_field :: "byte \<times> bytes \<Rightarrow> pg_error \<Rightarrow> pg_error" where
  "add_field = (\<lambda>(c, v) e. set_field c v (e\<lparr>Fields := (Fields e)(c \<mapsto> v)\<rparr>))"

lemma Parse_loop_stop: "Parse_loop (0 # r) e = e" "Parse_loop [] e = e"
  by (simp_all add: Parse_loop.simps)

lemma Parse_loop_fields:
  "fields_ok fs \<Longrightarrow> Parse_loop (concat (map field_wire fs) @ r) e = Parse_loop r (fold add_field fs e)"
proof (induction fs arbitrary: e)
  case (Cons f fs)
  obtain c v where f: "f = (c, v)" by (cases f)
  with Cons.prems have c: "c \<noteq> 0" "0 \<notin> set v" "fields_ok fs" by (auto simp: fields_ok_def)
  let ?rest = "concat (map field_wire fs) @ r"
  have "IndexByte (v @ 0 # ?rest) 0 = int (length v)" by (rule IndexByte_append [OF c(2)])
  then have "Parse_loop (c # v @ 0 # ?rest) e = Parse_loop ?rest (add_field (c, v) e)"
    by (simp add: Parse_loop.simps [of "c # _"] c add_field_def nat_add_distrib)
  then show ?case using Cons.IH [OF c(3)] by (simp add: f field_wire_def)
qed simp

lemma Fields_set_field [simp]: "Fields (set_field c v e) = Fields e"
  by (simp add: set_field_def)

lemma fold_add_Fields: "Fields (fold add_field fs e) = Fields e ++ map_of (rev fs)"
proof (induction fs arbitrary: e)
  case (Cons f fs)
  then show ?case by (cases f) (simp add: add_field_def map_add_def fun_eq_iff split: option.split)
qed simp

text \<open>Each named field is the last value sent under its code.\<close>

definition named_ok :: "pg_error \<Rightarrow> bool" where
  "named_ok e \<longleftrightarrow>
     Severity e = (case Fields e 83 of None \<Rightarrow> [] | Some v \<Rightarrow> v) \<and>
     Code e = (case Fields e 67 of None \<Rightarrow> [] | Some v \<Rightarrow> v) \<and>
     Message e = (case Fields e 77 of None \<Rightarrow> [] | Some v \<Rightarrow> v) \<and>
     Detail e = (case Fields e 68 of None \<Rightarrow> [] | Some v \<Rightarrow> v) \<and>
     Hint e = (case Fields e 72 of None \<Rightarrow> [] | Some v \<Rightarrow> v) \<and>
     Where e = (case Fields e 87 of None \<Rightarrow> [] | Some v \<Rightarrow> v)"

lemma named_ok_set: "named_ok e \<Longrightarrow> named_ok (set_field c v (e\<lparr>Fields := (Fields e)(c \<mapsto> v)\<rparr>))"
  by (auto simp: named_ok_def set_field_def)

lemma named_ok_loop: "named_ok e \<Longrightarrow> named_ok (Parse_loop body e)"
proof (induction body e rule: Parse_loop.induct)
  case (1 body e)
  show ?case
  proof (cases body)
    case (Cons c b)
    show ?thesis
    proof (cases "c = 0 \<or> IndexByte b 0 < 0")
      case True
      then show ?thesis using "1.prems" by (auto simp: Cons Parse_loop.simps [of "c # b"])
    next
      case False
      then show ?thesis
        using "1.IH" [OF Cons] "1.prems" named_ok_set [OF "1.prems", of c]
        by (simp add: Cons Parse_loop.simps [of "c # b"] Let_def)
    qed
  qed (use "1.prems" in \<open>simp add: Parse_loop_stop\<close>)
qed

section \<open>Properties\<close>

text \<open>
  C13. An error or notice is read back: for every list of fields with non-zero codes and no zero
  byte in a value, the parsed field map holds the last value of each code, whatever bytes follow
  the terminator, and the named fields of any parsed message agree with its field map.
\<close>

theorem Parse_fields:
  assumes "fields_ok fs"
  shows "Fields (Parse (concat (map field_wire fs) @ 0 # r)) = map_of (rev fs) \<and> named_ok (Parse body)"
proof
  show "Fields (Parse (concat (map field_wire fs) @ 0 # r)) = map_of (rev fs)"
    by (simp add: Parse_def Parse_loop_fields [OF assms] Parse_loop_stop fold_add_Fields empty_error_def)
  show "named_ok (Parse body)"
    unfolding Parse_def by (rule named_ok_loop) (simp add: named_ok_def empty_error_def)
qed

theorem Parse_fields_witness:
  "Fields (Parse (concat (map field_wire [(83, bs ''ERROR''), (67, bs ''26000'')]) @ 0 # [1, 2])) =
     map_of (rev [(83, bs ''ERROR''), (67, bs ''26000'')]) \<and> named_ok (Parse [83])"
  by (rule Parse_fields) (simp add: fields_ok_def)

end
