(* ===== verification/Rows.thy ===== *)
theory Rows
  imports Types_Binary Pgerr
begin

text \<open>
  \<open>internal/rows\<close>: the plan compiled from a RowDescription (\<open>plan.go\<close>) and the loops that decode
  a DataRow into a JSON object, a JSON array (\<open>datarow.go\<close>) or a TOON line (\<open>toon.go\<close>). The
  functions that return \<open>(dst, err)\<close> give back the buffer as the source leaves it and an optional
  error. Shown: exact acceptance of DataRows, the rendered row, that a row of JSON cells is a JSON
  object resp. array, the plan invariant, and the RowDescription round trip.
\<close>

datatype rows_error =
    ShortRowDescription
  | NegativeFieldCount int
  | UnterminatedColumnName
  | ShortColumnDescriptor
  | ShortDataRow
  | ShortColumnHeader
  | ColumnCountMismatch int nat
  | BadColumnLength int

section \<open>plan.go\<close>

record Column =
  Name :: bytes
  TableOID :: "32 word"
  AttrNum :: int
  TypeOID :: OID
  TypeMod :: int
  TypeLen :: int
  Format :: int
  Encoder :: encoder
  KeyPrefix :: bytes
  KeyPrefixComma :: bytes

record Plan =
  Columns :: "Column list"
  ColumnsArrayHeader :: bytes
  TOONHeader :: bytes

text \<open>The encoder for a format code.\<close>

definition format_encoder :: "int \<Rightarrow> OID \<Rightarrow> encoder" where
  "format_encoder f oid =
     (if f = 1 then (case PickBinary oid of Some be \<Rightarrow> be | None \<Rightarrow> EncodeOpaqueBinary) else Pick oid)"

definition ApplyFormats :: "Plan \<Rightarrow> int list \<Rightarrow> Plan" where
  "ApplyFormats p formats =
     p\<lparr>Columns :=
         map (\<lambda>i.
             let c = Columns p ! i;
                 f = (if length formats = 1 then formats ! 0
                      else if length formats = length (Columns p) then formats ! i
                      else 0)
             in c\<lparr>Format := f, Encoder := format_encoder f (TypeOID c)\<rparr>)
           [0..<length (Columns p)]\<rparr>"

definition PickResultFormats :: "Column list \<Rightarrow> int list" where
  "PickResultFormats cols = map (\<lambda>c. if HasBinary (TypeOID c) then 1 else 0) cols"

text \<open>The loop of \<open>indexZero\<close>, from index \<open>i\<close>.\<close>

fun indexZero_from :: "bytes \<Rightarrow> int \<Rightarrow> int" where
  "indexZero_from [] i = - 1"
| "indexZero_from (c # b) i = (if c = 0 then i else indexZero_from b (i + 1))"

definition indexZero :: "bytes \<Rightarrow> int" where
  "indexZero b = indexZero_from b 0"

text \<open>A range loop that puts a comma before every item but the first.\<close>

fun comma_loop :: "('a \<Rightarrow> bytes \<Rightarrow> bytes) \<Rightarrow> nat \<Rightarrow> 'a list \<Rightarrow> bytes \<Rightarrow> bytes" where
  "comma_loop emit i [] buf = buf"
| "comma_loop emit i (c # cs) buf = comma_loop emit (i + 1) cs (emit c (if i > 0 then buf @ [44] else buf))"

definition buildColumnsHeader :: "Column list \<Rightarrow> bytes" where
  "buildColumnsHeader cols =
     (let buf = bs ''{\"columns\":['';
          buf = comma_loop (\<lambda>c buf. AppendString buf (Name c)) 0 cols buf
      in buf @ bs ''],\"rows\":['')"

definition nameNeedsQuote :: "bytes \<Rightarrow> bool" where
  "nameNeedsQuote s =
     (if s = [] then True
      else list_ex (\<lambda>c. c \<le> 32 \<or> c = 44 \<or> c = 34 \<or> c = 92 \<or> c = 123 \<or> c = 125 \<or> c = 91 \<or> c = 93) s)"

definition buildTOONHeader :: "Column list \<Rightarrow> bytes" where
  "buildTOONHeader cols =
     (let buf = bs ''[?]{'';
          buf = comma_loop (\<lambda>c buf. if nameNeedsQuote (Name c) then AppendString buf (Name c) else buf @ Name c)
                  0 cols buf
      in buf @ [125, 10])"

text \<open>The column loop of \<open>ParseRowDescription\<close>, with the number of columns still to read.\<close>

fun parse_columns :: "nat \<Rightarrow> bytes \<Rightarrow> rows_error + Column list" where
  "parse_columns 0 body = Inr []"
| "parse_columns (Suc n) body =
     (let end = indexZero body in
      if end < 0 then Inl UnterminatedColumnName
      else
        let name = take (nat end) body;
            body = drop (nat end + 1) body
        in
        if length body < 18 then Inl ShortColumnDescriptor
        else
          let oid = beU32 (sub_slice body 6 10);
              key = AppendKey [] name;
              c = \<lparr>Name = name,
                   TableOID = beU32 (sub_slice body 0 4),
                   AttrNum = beI16 (sub_slice body 4 6),
                   TypeOID = oid,
                   TypeMod = beI32 (sub_slice body 12 16),
                   TypeLen = beI16 (sub_slice body 10 12),
                   Format = beI16 (sub_slice body 16 18),
                   Encoder = Pick oid,
                   KeyPrefix = key,
                   KeyPrefixComma = [44] @ key\<rparr>
          in case parse_columns n (drop 18 body) of Inl e \<Rightarrow> Inl e | Inr cs \<Rightarrow> Inr (c # cs))"

definition ParseRowDescription :: "bytes \<Rightarrow> rows_error + Plan" where
  "ParseRowDescription body =
     (if length body < 2 then Inl ShortRowDescription
      else
        let n = beI16 (take 2 body) in
        if n < 0 then Inl (NegativeFieldCount n)
        else
          case parse_columns (nat n) (drop 2 body) of
            Inl e \<Rightarrow> Inl e
          | Inr cols \<Rightarrow>
              Inr \<lparr>Columns = cols, ColumnsArrayHeader = buildColumnsHeader cols,
                   TOONHeader = buildTOONHeader cols\<rparr>)"

definition ParseRowDescriptionForFormats :: "bytes \<Rightarrow> int list \<Rightarrow> rows_error + Plan" where
  "ParseRowDescriptionForFormats body formats =
     (case ParseRowDescription body of Inl e \<Rightarrow> Inl e | Inr p \<Rightarrow> Inr (ApplyFormats p formats))"

section \<open>datarow.go and toon.go\<close>

text \<open>
  The column loop, written out three times in the sources with only the bytes before a cell
  differing: \<open>sep i col\<close> are those bytes. It gives the buffer and the error, if any.
\<close>

fun row_loop :: "(nat \<Rightarrow> Column \<Rightarrow> bytes) \<Rightarrow> nat \<Rightarrow> Column list \<Rightarrow> bytes \<Rightarrow> bytes \<Rightarrow> bytes \<times> rows_error option" where
  "row_loop sep i [] body dst = (dst, None)"
| "row_loop sep i (col # cols) body dst =
     (if length body < 4 then (dst, Some ShortColumnHeader)
      else
        let l = beI32 body;
            body = drop 4 body
        in
        if l \<noteq> - 1 \<and> (l < 0 \<or> l > int (length body)) then (dst, Some (BadColumnLength l))
        else
          let raw = (if l \<noteq> - 1 then Some (take (nat l) body) else None);
              body = (if l \<noteq> - 1 then drop (nat l) body else body);
              dst = dst @ sep i col;
              dst = Encoder col dst raw
          in row_loop sep (i + 1) cols body dst)"

definition AppendObject :: "bytes \<Rightarrow> bytes \<Rightarrow> Plan \<Rightarrow> bytes \<times> rows_error option" where
  "AppendObject dst body plan =
     (let cols = Columns plan in
      if length body < 2 then (dst, Some ShortDataRow)
      else
        let n = beI16 body in
        if n \<noteq> int (length cols) then (dst, Some (ColumnCountMismatch n (length cols)))
        else
          case row_loop (\<lambda>i col. if i = 0 then KeyPrefix col else KeyPrefixComma col) 0 cols
                 (drop 2 body) (dst @ [123]) of
            (dst, Some e) \<Rightarrow> (dst, Some e)
          | (dst, None) \<Rightarrow> (dst @ [125], None))"

definition AppendArray :: "bytes \<Rightarrow> bytes \<Rightarrow> Plan \<Rightarrow> bytes \<times> rows_error option" where
  "AppendArray dst body plan =
     (let cols = Columns plan in
      if length body < 2 then (dst, Some ShortDataRow)
      else
        let n = beI16 body in
        if n \<noteq> int (length cols) then (dst, Some (ColumnCountMismatch n (length cols)))
        else
          case row_loop (\<lambda>i col. if i > 0 then [44] else []) 0 cols (drop 2 body) (dst @ [91]) of
            (dst, Some e) \<Rightarrow> (dst, Some e)
          | (dst, None) \<Rightarrow> (dst @ [93], None))"

definition AppendTOONRow :: "bytes \<Rightarrow> bytes \<Rightarrow> Plan \<Rightarrow> bytes \<times> rows_error option" where
  "AppendTOONRow dst body plan =
     (let cols = Columns plan in
      if length body < 2 then (dst, Some ShortDataRow)
      else
        let n = beI16 body in
        if n \<noteq> int (length cols) then (dst, Some (ColumnCountMismatch n (length cols)))
        else
          case row_loop (\<lambda>i col. if i > 0 then [44] else []) 0 cols (drop 2 body) dst of
            (dst, Some e) \<Rightarrow> (dst, Some e)
          | (dst, None) \<Rightarrow> (dst @ [10], None))"

section \<open>The plan invariant\<close>

text \<open>
  Every column's encoder keeps the cell contract and its key prefixes are built from its name;
  the headers are those of the columns.
\<close>

definition column_ok :: "Column \<Rightarrow> bool" where
  "column_ok c \<longleftrightarrow>
     cell_encoder (Encoder c) \<and> KeyPrefix c = AppendKey [] (Name c) \<and>
     KeyPrefixComma c = [44] @ AppendKey [] (Name c)"

definition plan_ok :: "Plan \<Rightarrow> bool" where
  "plan_ok p \<longleftrightarrow>
     (\<forall>c \<in> set (Columns p). column_ok c) \<and> ColumnsArrayHeader p = buildColumnsHeader (Columns p) \<and>
     TOONHeader p = buildTOONHeader (Columns p)"

interpretation plan_cell: cell_encoder "format_encoder f oid" for f oid
proof -
  show "cell_encoder (format_encoder f oid)"
    using PickBinary_cell_encoder [of oid] opaque_cell.cell_encoder_axioms text_cell.cell_encoder_axioms
    by (auto simp: format_encoder_def split: option.splits)
qed

lemma parse_columns_ok: "parse_columns n body = Inr cs \<Longrightarrow> (\<forall>c \<in> set cs. column_ok c) \<and> length cs = n"
proof (induction n arbitrary: body cs)
  case (Suc n)
  then show ?case
    by (auto simp: Let_def column_ok_def text_cell.cell_encoder_axioms split: if_splits sum.splits)
qed simp

lemma comma_loop_cong: "(\<And>c b. c \<in> set cs \<Longrightarrow> e c b = e' c b) \<Longrightarrow> comma_loop e i cs buf = comma_loop e' i cs buf"
  by (induction cs arbitrary: i buf) auto

lemma comma_loop_map: "comma_loop e i (map f cs) buf = comma_loop (\<lambda>c. e (f c)) i cs buf"
  by (induction cs arbitrary: i buf) auto

lemma ApplyFormats_columns:
  "Columns (ApplyFormats p fmts) =
   map (\<lambda>i. (Columns p ! i)\<lparr>Format := (if length fmts = 1 then fmts ! 0 else if length fmts = length (Columns p) then fmts ! i else 0),
              Encoder := format_encoder (if length fmts = 1 then fmts ! 0 else if length fmts = length (Columns p) then fmts ! i else 0)
                           (TypeOID (Columns p ! i))\<rparr>) [0..<length (Columns p)]"
  by (simp add: ApplyFormats_def Let_def)

lemma ApplyFormats_names: "map Name (Columns (ApplyFormats p fmts)) = map Name (Columns p)"
  by (rule nth_equalityI) (simp_all add: ApplyFormats_columns)

text \<open>The headers depend on the names only.\<close>

lemma header_names:
  assumes "map Name cs = map Name cs'"
  shows "buildColumnsHeader cs = buildColumnsHeader cs' \<and> buildTOONHeader cs = buildTOONHeader cs'"
proof -
  have "buildColumnsHeader cs =
        comma_loop (\<lambda>n buf. AppendString buf n) 0 (map Name cs) (bs ''{\"columns\":['') @ bs ''],\"rows\":[''" for cs
    by (simp add: buildColumnsHeader_def Let_def comma_loop_map)
  moreover have "buildTOONHeader cs =
        comma_loop (\<lambda>n buf. if nameNeedsQuote n then AppendString buf n else buf @ n) 0 (map Name cs) (bs ''[?]{'') @ [125, 10]" for cs
    by (simp add: buildTOONHeader_def Let_def comma_loop_map)
  ultimately show ?thesis using assms by simp
qed

lemma ApplyFormats_ok: "plan_ok p \<Longrightarrow> plan_ok (ApplyFormats p fmts)"
  using header_names [OF ApplyFormats_names, of p fmts]
  by (auto simp: plan_ok_def column_ok_def ApplyFormats_columns plan_cell.cell_encoder_axioms)
     (simp_all add: ApplyFormats_def)

lemma ParseRowDescription_ok: "ParseRowDescription body = Inr p \<Longrightarrow> plan_ok p"
  using parse_columns_ok by (fastforce simp: ParseRowDescription_def plan_ok_def Let_def split: if_splits sum.splits)


section \<open>Well-formed rows\<close>

text \<open>
  The cells of a DataRow are framed like the elements of an array: a 32-bit length, -1 for NULL,
  and the bytes.
\<close>

definition data_row :: "bytes option list \<Rightarrow> bytes" where
  "data_row cells = putU16 (word_of_int (int (length cells))) @ array_body cells"

definition cells_for :: "Plan \<Rightarrow> bytes option list \<Rightarrow> bool" where
  "cells_for p cells \<longleftrightarrow> length cells = length (Columns p) \<and> length cells < 2 ^ 15 \<and> (\<forall>e \<in> set cells. elem_ok e)"

definition cell_texts :: "Plan \<Rightarrow> bytes option list \<Rightarrow> bytes list" where
  "cell_texts p cells = map2 (\<lambda>col c. Encoder col [] c) (Columns p) cells"

definition member_texts :: "Plan \<Rightarrow> bytes option list \<Rightarrow> bytes list" where
  "member_texts p cells = map2 (\<lambda>col c. AppendString [] (Name col) @ [58] @ Encoder col [] c) (Columns p) cells"

lemma row_loop_cells:
  "length cells = length cols \<Longrightarrow> \<forall>c \<in> set cols. cell_encoder (Encoder c) \<Longrightarrow> \<forall>e \<in> set cells. elem_ok e \<Longrightarrow>
   row_loop sep i cols (array_body cells @ rest) dst =
     (dst @ concat (map2 (\<lambda>(j, col) c. sep j col @ Encoder col [] c) (enumerate i cols) cells), None)"
proof (induction cols arbitrary: cells i dst)
  case (Cons col cols)
  then obtain e es where c: "cells = e # es" by (cases cells) auto
  have enc: "cell_encoder (Encoder col)" using Cons.prems by simp
  have IH: "row_loop sep (Suc i) cols (array_body es @ rest) d =
     (d @ concat (map2 (\<lambda>(j, col) c. sep j col @ Encoder col [] c) (enumerate (Suc i) cols) es), None)" for d
    using Cons.prems by (intro Cons.IH) (auto simp: c)
  have app: "Encoder col (dst @ sep i col) x = dst @ sep i col @ Encoder col [] x" for x
    using cell_encoder.enc_append [OF enc, of "dst @ sep i col" x] by simp
  show ?case
  proof (cases e)
    case None
    have "beI32 (putU32 (- 1) @ q) = - 1" for q by (simp add: beI32_def)
    then show ?thesis by (simp add: c None elem_wire_def Let_def IH app)
  next
    case (Some b)
    then have "length b < 2 ^ 31" using Cons.prems by (simp add: c elem_ok_def)
    then show ?thesis using beI32_put_nat [of "length b"] by (simp add: c Some elem_wire_def Let_def IH app)
  qed
qed simp

lemma concat_sep:
  assumes "length cells = length cols"
  shows "concat (map2 (\<lambda>(j, col) c. (if j = 0 then h col else [44] @ h col) @ g col c) (enumerate i cols) cells) =
         (if i = 0 then join [44] (map2 (\<lambda>col c. h col @ g col c) cols cells)
          else concat (map (\<lambda>x. 44 # x) (map2 (\<lambda>col c. h col @ g col c) cols cells)))"
  using assms
proof (induction cols arbitrary: cells i)
  case (Cons col cols)
  then obtain e es where "cells = e # es" by (cases cells) auto
  with Cons show ?case by (auto simp: join_Cons)
qed simp

text \<open>The rendered row, for the three shapes.\<close>

lemma row_body_array:
  assumes "plan_ok p" "cells_for p cells"
  shows "row_loop (\<lambda>i col. if i > 0 then [44] else []) 0 (Columns p) (array_body cells @ rest) dst =
         (dst @ join [44] (cell_texts p cells), None)"
proof -
  have "length cells = length (Columns p)" using assms by (simp add: cells_for_def)
  from concat_sep [OF this, of "\<lambda>_. []" "\<lambda>col c. Encoder col [] c" 0]
  have "concat (map2 (\<lambda>(j, col) c. (if j > 0 then [44] else []) @ Encoder col [] c) (enumerate 0 (Columns p)) cells) =
        join [44] (cell_texts p cells)"
    by (simp add: cell_texts_def case_prod_unfold if_distrib if_distribR cong: if_cong) (smt (verit) map_eq_conv neq0_conv)
  with row_loop_cells [of cells "Columns p"] assms show ?thesis
    by (simp add: cells_for_def plan_ok_def column_ok_def)
qed

lemma row_body_object:
  assumes "plan_ok p" "cells_for p cells"
  shows "row_loop (\<lambda>i col. if i = 0 then KeyPrefix col else KeyPrefixComma col) 0 (Columns p) (array_body cells @ rest) dst =
         (dst @ join [44] (member_texts p cells), None)"
proof -
  have l: "length cells = length (Columns p)" using assms by (simp add: cells_for_def)
  have "map2 (\<lambda>(j, col) c. (if j = 0 then KeyPrefix col else KeyPrefixComma col) @ Encoder col [] c) (enumerate 0 (Columns p)) cells =
        map2 (\<lambda>(j, col) c. (if j = 0 then AppendKey [] (Name col) else [44] @ AppendKey [] (Name col)) @ Encoder col [] c)
          (enumerate 0 (Columns p)) cells"
    using assms(1) l by (intro nth_equalityI) (auto simp: nth_enumerate_eq plan_ok_def column_ok_def)
  moreover have "map2 (\<lambda>col c. AppendKey [] (Name col) @ Encoder col [] c) (Columns p) cells = member_texts p cells"
    by (simp add: member_texts_def AppendKey_def)
  ultimately have "concat (map2 (\<lambda>(j, col) c. (if j = 0 then KeyPrefix col else KeyPrefixComma col) @ Encoder col [] c)
      (enumerate 0 (Columns p)) cells) = join [44] (member_texts p cells)"
    using concat_sep [OF l, of "\<lambda>col. AppendKey [] (Name col)" "\<lambda>col c. Encoder col [] c" 0] by presburger
  moreover have "\<forall>c \<in> set (Columns p). cell_encoder (Encoder c)" "\<forall>e \<in> set cells. elem_ok e"
    using assms by (simp_all add: cells_for_def plan_ok_def column_ok_def)
  ultimately show ?thesis using row_loop_cells [OF l] by presburger
qed

lemma data_row_header:
  "cells_for p cells \<Longrightarrow>
   \<not> length (data_row cells @ rest) < 2 \<and> beI16 (data_row cells @ rest) = int (length (Columns p)) \<and>
   drop 2 (data_row cells @ rest) = array_body cells @ rest"
  using beI16_put_nat [of "length cells"] by (simp add: data_row_def cells_for_def)

section \<open>Accepted rows\<close>

lemma row_loop_accepts:
  "row_loop sep i cols body dst = (d, None) \<Longrightarrow>
   \<exists>cells rest. body = array_body cells @ rest \<and> length cells = length cols \<and> (\<forall>e \<in> set cells. elem_ok e)"
proof (induction cols arbitrary: i body dst)
  case (Cons col cols)
  define l where "l = beI32 body"
  from Cons.prems have len: "4 \<le> length body" by (auto split: if_splits)
  from Cons.prems len have ok: "l = - 1 \<or> 0 \<le> l \<and> l \<le> int (length (drop 4 body))"
    by (auto simp: Let_def l_def split: if_splits)
  define body' where "body' = (if l = - 1 then drop 4 body else drop (nat l) (drop 4 body))"
  define e where "e = (if l = - 1 then None else Some (take (nat l) (drop 4 body)))"
  from Cons.prems len ok have "\<exists>dst'. row_loop sep (i + 1) cols body' dst' = (d, None)"
    by (auto simp: Let_def l_def [symmetric] body'_def split: if_splits)
  then obtain cells rest where c: "body' = array_body cells @ rest" "length cells = length cols" "\<forall>e \<in> set cells. elem_ok e"
    using Cons.IH by blast
  have w: "putU32 (word_of_int l) = take 4 body" using putU32_beI32 [OF len] by (simp add: l_def)
  have "body = elem_wire e @ body'"
  proof (cases "l = - 1")
    case True
    then show ?thesis using w append_take_drop_id [of 4 body] by (simp add: e_def body'_def elem_wire_def)
  next
    case False
    then have "int (length (take (nat l) (drop 4 body))) = l" using ok by auto
    then show ?thesis using False w append_take_drop_id [of 4 body] append_take_drop_id [of "nat l" "drop 4 body"]
      by (simp add: e_def body'_def elem_wire_def del: append_take_drop_id)
  qed
  moreover have "elem_ok e" using beI32_bounds(2) [of body] ok by (auto simp: e_def elem_ok_def l_def)
  ultimately show ?case using c by (intro exI [of _ "e # cells"] exI [of _ rest]) simp
qed simp


lemma accepted_row:
  assumes "2 \<le> length body" "beI16 body = int (length (Columns p))"
    "row_loop sep 0 (Columns p) (drop 2 body) dst = (d, None)"
  obtains cells rest where "body = data_row cells @ rest" "cells_for p cells"
proof -
  obtain cells rest where c: "drop 2 body = array_body cells @ rest" "length cells = length (Columns p)"
    "\<forall>e \<in> set cells. elem_ok e" using row_loop_accepts [OF assms(3)] by blast
  have "putU16 (word_of_int (int (length cells))) = take 2 body"
    using putU16_beI16 [OF assms(1)] assms(2) c(2) by simp
  then have "body = data_row cells @ rest"
    using c(1) append_take_drop_id [of 2 body] by (simp add: data_row_def del: append_take_drop_id)
  moreover have "cells_for p cells" using c beI16_bounds(2) [of body] assms(2) by (simp add: cells_for_def)
  ultimately show ?thesis by (rule that)
qed

section \<open>RowDescription\<close>

text \<open>A field as the server describes it.\<close>

record field_desc =
  fd_name :: bytes
  fd_table :: "32 word"
  fd_attr :: int
  fd_type :: OID
  fd_len :: int
  fd_mod :: int
  fd_format :: int

definition in_i16 :: "int \<Rightarrow> bool" where
  "in_i16 i \<longleftrightarrow> - (2 ^ 15) \<le> i \<and> i < 2 ^ 15"

definition desc_ok :: "field_desc \<Rightarrow> bool" where
  "desc_ok f \<longleftrightarrow> 0 \<notin> set (fd_name f) \<and> in_i16 (fd_attr f) \<and> in_i16 (fd_len f) \<and> in_i32 (fd_mod f) \<and> in_i16 (fd_format f)"

definition desc_wire :: "field_desc \<Rightarrow> bytes" where
  "desc_wire f =
     fd_name f @ [0] @ putU32 (fd_table f) @ putU16 (word_of_int (fd_attr f)) @ putU32 (fd_type f) @
     putU16 (word_of_int (fd_len f)) @ putU32 (word_of_int (fd_mod f)) @ putU16 (word_of_int (fd_format f))"

definition row_description :: "field_desc list \<Rightarrow> bytes" where
  "row_description fs = putU16 (word_of_int (int (length fs))) @ concat (map desc_wire fs)"

definition column_of :: "field_desc \<Rightarrow> Column" where
  "column_of f =
     \<lparr>Name = fd_name f, TableOID = fd_table f, AttrNum = fd_attr f, TypeOID = fd_type f, TypeMod = fd_mod f,
      TypeLen = fd_len f, Format = fd_format f, Encoder = Pick (fd_type f),
      KeyPrefix = AppendKey [] (fd_name f), KeyPrefixComma = [44] @ AppendKey [] (fd_name f)\<rparr>"

lemma indexZero_from: "0 \<notin> set v \<Longrightarrow> indexZero_from (v @ 0 # r) i = i + int (length v)"
  by (induction v arbitrary: i) auto

lemma parse_columns_wire:
  "\<forall>f \<in> set fs. desc_ok f \<Longrightarrow> parse_columns (length fs) (concat (map desc_wire fs) @ rest) = Inr (map column_of fs)"
proof (induction fs)
  case (Cons f fs)
  then have f: "0 \<notin> set (fd_name f)" "in_i16 (fd_attr f)" "in_i16 (fd_len f)" "in_i32 (fd_mod f)" "in_i16 (fd_format f)"
    by (simp_all add: desc_ok_def)
  let ?r = "concat (map desc_wire fs) @ rest"
  have z: "indexZero (concat (map desc_wire (f # fs)) @ rest) = int (length (fd_name f))"
    using indexZero_from [OF f(1)] by (simp add: indexZero_def desc_wire_def)
  have IH: "parse_columns (length fs) ?r = Inr (map column_of fs)" using Cons by simp
  show ?case
    using f IH unfolding length_Cons parse_columns.simps z
    by (simp add: desc_wire_def Let_def sub_slice_def column_of_def in_i16_def in_i32_def beI_put_nil)
qed simp


lemma rendered_row:
  assumes "plan_ok p" "cells_for p cells"
  shows "AppendObject dst (data_row cells @ rest) p = (dst @ [123] @ join [44] (member_texts p cells) @ [125], None)"
    "AppendArray dst (data_row cells @ rest) p = (dst @ [91] @ join [44] (cell_texts p cells) @ [93], None)"
    "AppendTOONRow dst (data_row cells @ rest) p = (dst @ join [44] (cell_texts p cells) @ [10], None)"
  using data_row_header [OF assms(2), of rest]
  by (simp_all add: AppendObject_def AppendArray_def AppendTOONRow_def Let_def
      row_body_object [OF assms, simplified] row_body_array [OF assms, simplified])

section \<open>Properties\<close>

text \<open>
  C14. A well-formed DataRow renders as the JSON object, the JSON array and the TOON line of its
  cells: the keys are the escaped column names in order, each followed by the column encoder's
  rendering of its cell, with exactly one comma between neighbours.
\<close>

theorem row_rendering:
  assumes "plan_ok p" "cells_for p cells"
  shows "AppendObject dst (data_row cells @ rest) p = (dst @ [123] @ join [44] (member_texts p cells) @ [125], None) \<and>
         AppendArray dst (data_row cells @ rest) p = (dst @ [91] @ join [44] (cell_texts p cells) @ [93], None) \<and>
         AppendTOONRow dst (data_row cells @ rest) p = (dst @ join [44] (cell_texts p cells) @ [10], None)"
  using rendered_row [OF assms] by blast

text \<open>The plan of the witnesses: one \<open>int4\<close> column named \<open>id\<close>, in text format.\<close>

definition id_desc :: field_desc where
  "id_desc = \<lparr>fd_name = bs ''id'', fd_table = 0, fd_attr = 1, fd_type = 23, fd_len = 4, fd_mod = - 1, fd_format = 0\<rparr>"

definition id_plan :: Plan where
  "id_plan = \<lparr>Columns = [column_of id_desc], ColumnsArrayHeader = buildColumnsHeader [column_of id_desc],
              TOONHeader = buildTOONHeader [column_of id_desc]\<rparr>"

lemma id_plan_ok: "plan_ok id_plan"
  by (simp add: id_plan_def plan_ok_def column_ok_def column_of_def text_cell.cell_encoder_axioms)

lemma id_cells: "cells_for id_plan [Some (bs ''7'')]"
  by (simp add: id_plan_def cells_for_def elem_ok_def)

theorem row_rendering_witness:
  "AppendObject [] (data_row [Some (bs ''7'')] @ []) id_plan =
     ([] @ [123] @ join [44] (member_texts id_plan [Some (bs ''7'')]) @ [125], None)"
  using row_rendering [OF id_plan_ok id_cells] by blast

text \<open>
  C15. The row decoders accept nothing but well-formed rows: when one returns without an error,
  the body starts with a framed row of exactly the plan's number of cells.
\<close>

theorem row_acceptance:
  assumes "AppendObject dst body p = (d, None) \<or> AppendArray dst body p = (d, None) \<or> AppendTOONRow dst body p = (d, None)"
  shows "\<exists>cells rest. body = data_row cells @ rest \<and> cells_for p cells"
proof -
  have "2 \<le> length body \<and> beI16 body = int (length (Columns p)) \<and>
        (\<exists>sep dst' d'. row_loop sep 0 (Columns p) (drop 2 body) dst' = (d', None))"
    using assms
    by (auto simp: AppendObject_def AppendArray_def AppendTOONRow_def Let_def not_less split: if_splits prod.splits option.splits)
  then show ?thesis by (metis accepted_row)
qed

theorem row_acceptance_witness: "\<exists>cells rest. data_row [Some (bs ''7'')] = data_row cells @ rest \<and> cells_for id_plan cells"
proof -
  have "AppendTOONRow [] (data_row [Some (bs ''7'')]) id_plan = (bs ''7'' @ [10], None)"
  proof -
    have "beI16 (data_row [Some (bs ''7'')]) = 1" "beI32 (drop 2 (data_row [Some (bs ''7'')])) = 1"
      by (simp_all add: data_row_def elem_wire_def beI16_def beI32_def)
    then show ?thesis
      by (simp add: AppendTOONRow_def id_plan_def column_of_def id_desc_def Pick_def EncodeInt_def validInt_def
          data_row_def elem_wire_def is_digit_def Let_def)
  qed
  then show ?thesis using row_acceptance [of "[]" "data_row [Some (bs ''7'')]" id_plan] by blast
qed

text \<open>
  A row of JSON cells is JSON: if every column encoder renders its cell as a JSON text then
  the object and the array are JSON values, whatever the column names are.
\<close>

theorem row_is_json:
  assumes "plan_ok p" "cells_for p cells" "\<forall>t \<in> set (cell_texts p cells). json_text t"
  shows "\<exists>obj arr. AppendObject dst (data_row cells) p = (dst @ obj, None) \<and> json obj \<and>
           AppendArray dst (data_row cells) p = (dst @ arr, None) \<and> json arr"
proof -
  let ?kvs = "map2 (\<lambda>col c. (AppendString [] (Name col), Encoder col [] c)) (Columns p) cells"
  have m: "member_texts p cells = map (\<lambda>(k, v). k @ [58] @ v) ?kvs"
    by (simp add: member_texts_def case_prod_unfold)
  have "\<forall>(k, v) \<in> set ?kvs. json_string k \<and> json_text v"
    using assms(3) json_string_AppendString by (fastforce simp: cell_texts_def)
  from json_object_join [OF this] have "json ([123] @ join [44] (member_texts p cells) @ [125])" unfolding m .
  moreover have "json ([91] @ join [44] (cell_texts p cells) @ [93])" using assms(3) by (rule json_array_join)
  ultimately show ?thesis
    using rendered_row(1,2) [OF assms(1,2), of dst "[]"] unfolding append_Nil2 by blast
qed

theorem row_is_json_witness:
  "\<exists>obj arr. AppendObject [] (data_row [Some (bs ''7'')]) id_plan = ([] @ obj, None) \<and> json obj \<and>
     AppendArray [] (data_row [Some (bs ''7'')]) id_plan = ([] @ arr, None) \<and> json arr"
proof (rule row_is_json [OF id_plan_ok id_cells])
  have "json_number (bs ''7'')" using json_number_dec_int [of 7] by (simp add: dec_int_def dec_nat.simps digit_def)
  then show "\<forall>t \<in> set (cell_texts id_plan [Some (bs ''7'')]). json_text t"
    by (simp add: cell_texts_def id_plan_def column_of_def id_desc_def Pick_def EncodeInt_def validInt_def is_digit_def json_text_number)
qed

text \<open>
  C17. RowDescription: the plan parsed from the framed descriptions has their names, types and
  format codes in order, text encoders, key prefixes and both headers built from the names, and
  keeps the plan invariant also after result formats are applied.
\<close>

theorem RowDescription_roundtrip:
  assumes "\<forall>f \<in> set fs. desc_ok f" "length fs < 2 ^ 15"
  shows "\<exists>p. ParseRowDescription (row_description fs @ rest) = Inr p \<and> Columns p = map column_of fs \<and>
           plan_ok p \<and> plan_ok (ApplyFormats p fmts)"
proof -
  have "ParseRowDescription (row_description fs @ rest) =
        Inr \<lparr>Columns = map column_of fs, ColumnsArrayHeader = buildColumnsHeader (map column_of fs),
             TOONHeader = buildTOONHeader (map column_of fs)\<rparr>"
    using beI16_put_nat [of "length fs" "[]"] assms parse_columns_wire [OF assms(1), of rest]
    by (simp add: ParseRowDescription_def row_description_def)
  then show ?thesis using ParseRowDescription_ok ApplyFormats_ok by (metis Plan.select_convs(1))
qed

theorem RowDescription_roundtrip_witness:
  "\<exists>p. ParseRowDescription (row_description [id_desc] @ [9]) = Inr p \<and> Columns p = map column_of [id_desc] \<and>
     plan_ok p \<and> plan_ok (ApplyFormats p [1])"
  by (rule RowDescription_roundtrip) (simp_all add: id_desc_def desc_ok_def in_i16_def in_i32_def)

end
