(* ===== verification/Wire.thy ===== *)
theory Wire
  imports Rows
begin

text \<open>
  \<open>internal/wire/conn.go\<close>: the framed reader and writer over a connection. The network side of a
  connection is part of its state: \<open>rx\<close> are the bytes the peer still delivers before reads fail
  (end of stream, reset or deadline), \<open>rxErr\<close> the error they fail with, \<open>tx\<close> the bytes the peer
  received, \<open>wcap\<close> how many more bytes the kernel takes before writes fail (\<open>None\<close>: never).
  \<open>bufio.Reader.Peek\<close> succeeds when enough bytes arrive, as documented. Shown: messages built with
  a \<open>Builder\<close> are read back whole by both read paths, exactly the framed streams are accepted,
  errors consume nothing of a valid frame, and flushing sends everything or reports an error.
\<close>

section \<open>State and errors\<close>

datatype wire_error =
    NetError nat
  | UnexpectedEOF
  | BogusLength nat
  | MessageTooLarge nat

record Conn =
  rx :: bytes
  rxErr :: wire_error
  tx :: bytes
  wcap :: "nat option"
  brSize :: nat
  readCap :: nat
  writeBuf :: bytes

definition minRead :: nat where "minRead = 8 * 1024"
definition maxMsg :: nat where "maxMsg = 256 * 2 ^ 20"
definition DefaultReaderBufSize :: nat where "DefaultReaderBufSize = 128 * 1024"

text \<open>A network connection: incoming bytes, the error after them, and the write limit.\<close>

record net_conn =
  nc_rx :: bytes
  nc_err :: wire_error
  nc_wcap :: "nat option"

definition NewSized :: "net_conn \<Rightarrow> int \<Rightarrow> Conn" where
  "NewSized nc bufSize =
     (let bufSize = (if bufSize \<le> 0 then int DefaultReaderBufSize else bufSize) in
      \<lparr>rx = nc_rx nc, rxErr = nc_err nc, tx = [], wcap = nc_wcap nc, brSize = nat bufSize,
       readCap = minRead, writeBuf = []\<rparr>)"

definition New :: "net_conn \<Rightarrow> Conn" where
  "New nc = NewSized nc (int DefaultReaderBufSize)"

text \<open>The buffered reader is bound to the new connection; the scratch buffers are kept.\<close>

definition SwapNet :: "Conn \<Rightarrow> net_conn \<Rightarrow> Conn" where
  "SwapNet c nc = c\<lparr>rx := nc_rx nc, rxErr := nc_err nc, tx := [], wcap := nc_wcap nc\<rparr>"

definition ReadByte :: "Conn \<Rightarrow> Conn \<times> (wire_error + byte)" where
  "ReadByte c = (case rx c of [] \<Rightarrow> (c, Inl (rxErr c)) | b # r \<Rightarrow> (c\<lparr>rx := r\<rparr>, Inr b))"

section \<open>Reading\<close>

text \<open>\<open>bufio.Reader.Peek\<close>, \<open>Discard\<close> and \<open>io.ReadFull\<close> on the incoming bytes.\<close>

definition Peek :: "Conn \<Rightarrow> nat \<Rightarrow> wire_error + bytes" where
  "Peek c n = (if length (rx c) < n then Inl (rxErr c) else Inr (take n (rx c)))"

definition Discard :: "Conn \<Rightarrow> nat \<Rightarrow> Conn \<times> wire_error option" where
  "Discard c n =
     (if length (rx c) < n then (c\<lparr>rx := []\<rparr>, Some (rxErr c)) else (c\<lparr>rx := drop n (rx c)\<rparr>, None))"

definition ReadFull :: "Conn \<Rightarrow> nat \<Rightarrow> Conn \<times> (wire_error + bytes)" where
  "ReadFull c n =
     (if length (rx c) < n
      then (c\<lparr>rx := []\<rparr>, Inl (if rx c = [] then rxErr c else UnexpectedEOF))
      else (c\<lparr>rx := drop n (rx c)\<rparr>, Inr (take n (rx c))))"

definition ReadMessage :: "Conn \<Rightarrow> Conn \<times> (wire_error + byte \<times> bytes)" where
  "ReadMessage c =
     (case Peek c 5 of
        Inl err \<Rightarrow> (c, Inl err)
      | Inr hdr \<Rightarrow>
          let t = hdr ! 0;
              len = unat (beU32 (sub_slice hdr 1 5))
          in
          if len < 4 then (c, Inl (BogusLength len))
          else
            let bodyLen = len - 4 in
            if bodyLen > maxMsg then (c, Inl (MessageTooLarge bodyLen))
            else
              let total = 5 + bodyLen in
              if total \<le> brSize c then
                (case Peek c total of
                   Inl err \<Rightarrow> (c, Inl err)
                 | Inr all \<Rightarrow>
                     (case Discard c total of
                        (c, Some err) \<Rightarrow> (c, Inl err)
                      | (c, None) \<Rightarrow> (c, Inr (t, sub_slice all 5 total))))
              else
                (case Discard c 5 of
                   (c, Some err) \<Rightarrow> (c, Inl err)
                 | (c, None) \<Rightarrow>
                     let c = (if readCap c < bodyLen
                              then c\<lparr>readCap := (if readCap c * 2 < bodyLen then bodyLen else readCap c * 2)\<rparr>
                              else c)
                     in case ReadFull c bodyLen of
                          (c, Inl err) \<Rightarrow> (c, Inl err)
                        | (c, Inr body) \<Rightarrow> (c, Inr (t, body))))"

section \<open>Writing\<close>

text \<open>\<open>net.Conn.Write\<close>: a write that takes fewer bytes than given reports an error.\<close>

definition net_write :: "Conn \<Rightarrow> bytes \<Rightarrow> Conn \<times> nat \<times> wire_error option" where
  "net_write c p =
     (case wcap c of
        None \<Rightarrow> (c\<lparr>tx := tx c @ p\<rparr>, length p, None)
      | Some k \<Rightarrow>
          if length p \<le> k then (c\<lparr>tx := tx c @ p, wcap := Some (k - length p)\<rparr>, length p, None)
          else (c\<lparr>tx := tx c @ take k p, wcap := Some 0\<rparr>, k, Some (NetError 0)))"

lemma net_write_all: "net_write c p = (c', n, None) \<Longrightarrow> n = length p"
  by (auto simp: net_write_def split: option.splits if_splits)

function WriteRaw :: "Conn \<Rightarrow> bytes \<Rightarrow> Conn \<times> wire_error option" where
  "WriteRaw c p =
     (if p = [] then (c, None)
      else case net_write c p of
             (c, n, Some err) \<Rightarrow> (c, Some err)
           | (c, n, None) \<Rightarrow> WriteRaw c (drop n p))"
  by pat_completeness auto
termination
  by (relation "measure (\<lambda>(c, p). length p)") (auto dest!: net_write_all [OF sym])

declare WriteRaw.simps [simp del]

text \<open>A message under construction.\<close>

record Builder =
  noType :: bool
  startOff :: nat

definition Begin :: "byte \<Rightarrow> Conn \<Rightarrow> Conn \<times> Builder" where
  "Begin t c =
     (let start = length (writeBuf c) in
      (c\<lparr>writeBuf := writeBuf c @ [t] @ [0, 0, 0, 0]\<rparr>, \<lparr>noType = False, startOff = start\<rparr>))"

definition BeginNoType :: "Conn \<Rightarrow> Conn \<times> Builder" where
  "BeginNoType c =
     (let start = length (writeBuf c) in
      (c\<lparr>writeBuf := writeBuf c @ [0, 0, 0, 0]\<rparr>, \<lparr>noType = True, startOff = start\<rparr>))"

definition Flush :: "Conn \<Rightarrow> Conn \<times> wire_error option" where
  "Flush c =
     (if length (writeBuf c) = 0 then (c, None)
      else
        let (c, err) = WriteRaw c (writeBuf c)
        in (c\<lparr>writeBuf := []\<rparr>, err))"

definition B_Bytes :: "bytes \<Rightarrow> Conn \<Rightarrow> Conn" where
  "B_Bytes p c = c\<lparr>writeBuf := writeBuf c @ p\<rparr>"

definition B_Byte :: "byte \<Rightarrow> Conn \<Rightarrow> Conn" where
  "B_Byte v c = c\<lparr>writeBuf := writeBuf c @ [v]\<rparr>"

definition B_String :: "bytes \<Rightarrow> Conn \<Rightarrow> Conn" where
  "B_String s c = c\<lparr>writeBuf := writeBuf c @ s\<rparr>"

definition B_CString :: "bytes \<Rightarrow> Conn \<Rightarrow> Conn" where
  "B_CString s c = c\<lparr>writeBuf := writeBuf c @ s @ [0]\<rparr>"

definition B_Int16 :: "int \<Rightarrow> Conn \<Rightarrow> Conn" where
  "B_Int16 v c = c\<lparr>writeBuf := writeBuf c @ putU16 (word_of_int v)\<rparr>"

definition B_Int32 :: "int \<Rightarrow> Conn \<Rightarrow> Conn" where
  "B_Int32 v c = c\<lparr>writeBuf := writeBuf c @ putU32 (word_of_int v)\<rparr>"

text \<open>\<open>binary.BigEndian.PutUint32(buf[i:i+4], v)\<close> in place.\<close>

definition patch32 :: "bytes \<Rightarrow> nat \<Rightarrow> 32 word \<Rightarrow> bytes" where
  "patch32 buf i v = take i buf @ putU32 v @ drop (i + 4) buf"

definition Finish :: "Builder \<Rightarrow> Conn \<Rightarrow> Conn" where
  "Finish b c =
     (let buf = writeBuf c; start = startOff b in
      if noType b then c\<lparr>writeBuf := patch32 buf start (word_of_nat (length buf - start))\<rparr>
      else c\<lparr>writeBuf := patch32 buf (start + 1) (word_of_nat (length buf - start - 1))\<rparr>)"

definition Send :: "Builder \<Rightarrow> Conn \<Rightarrow> Conn \<times> wire_error option" where
  "Send b c = Flush (Finish b c)"

section \<open>Frames\<close>

definition frame :: "byte \<Rightarrow> bytes \<Rightarrow> bytes" where
  "frame t body = t # putU32 (word_of_nat (length body + 4)) @ body"

definition untyped_frame :: "bytes \<Rightarrow> bytes" where
  "untyped_frame body = putU32 (word_of_nat (length body + 4)) @ body"

lemma length_frame [simp]: "length (frame t body) = length body + 5"
  by (simp add: frame_def)

text \<open>Finishing a message turns what was appended since \<open>Begin\<close> into a frame.\<close>

lemma Finish_frame:
  assumes "writeBuf c = pre @ [t, 0, 0, 0, 0] @ body" "startOff b = length pre" "\<not> noType b"
  shows "Finish b c = c\<lparr>writeBuf := pre @ frame t body\<rparr>"
  using assms by (simp add: Finish_def Let_def patch32_def frame_def add.commute)

lemma Finish_untyped:
  assumes "writeBuf c = pre @ [0, 0, 0, 0] @ body" "startOff b = length pre" "noType b"
  shows "Finish b c = c\<lparr>writeBuf := pre @ untyped_frame body\<rparr>"
  using assms by (simp add: Finish_def Let_def patch32_def untyped_frame_def add.commute)

lemma WriteRaw_result:
  "WriteRaw c p =
     (case wcap c of
        None \<Rightarrow> (c\<lparr>tx := tx c @ p\<rparr>, None)
      | Some k \<Rightarrow>
          if length p \<le> k then (c\<lparr>tx := tx c @ p, wcap := Some (k - length p)\<rparr>, None)
          else (c\<lparr>tx := tx c @ take k p, wcap := Some 0\<rparr>, Some (NetError 0)))"
  by (auto simp: WriteRaw.simps [of c p] WriteRaw.simps [of _ "[]"] net_write_def split: option.splits)

lemma Flush_result:
  "Flush c =
     (case wcap c of
        None \<Rightarrow> (c\<lparr>tx := tx c @ writeBuf c, writeBuf := []\<rparr>, None)
      | Some k \<Rightarrow>
          if length (writeBuf c) \<le> k
          then (c\<lparr>tx := tx c @ writeBuf c, wcap := Some (k - length (writeBuf c)), writeBuf := []\<rparr>, None)
          else (c\<lparr>tx := tx c @ take k (writeBuf c), wcap := Some 0, writeBuf := []\<rparr>, Some (NetError 0)))"
  by (cases c) (auto simp: Flush_def WriteRaw_result Let_def split: option.splits)

section \<open>Reading frames\<close>

lemma unat_len: "n < 2 ^ 32 \<Longrightarrow> unat (word_of_nat n :: 32 word) = n"
  by (simp add: unsigned_of_nat take_bit_nat_eq_self)

lemma ReadMessage_frame:
  assumes "rx c = frame t body @ r" "length body \<le> maxMsg"
  obtains c' where "ReadMessage c = (c', Inr (t, body))" "rx c' = r" "tx c' = tx c" "wcap c' = wcap c"
    "writeBuf c' = writeBuf c" "brSize c' = brSize c" "rxErr c' = rxErr c"
proof -
  have n: "length body + 4 < 2 ^ 32" using assms(2) by (simp add: maxMsg_def)
  have len: "unat (beU32 (sub_slice (take 5 (rx c)) 1 5)) = length body + 4"
    using unat_len [OF n] assms(1) by (simp add: frame_def sub_slice_def)
  have t: "take 5 (rx c) ! 0 = t" using assms(1) by (simp add: frame_def)
  have b: "sub_slice (take (5 + length body) (rx c)) 5 (5 + length body) = body"
    using assms(1) by (simp add: frame_def sub_slice_def drop_take)
  have l: "length (rx c) = length body + 5 + length r" using assms(1) by simp
  have d: "drop (5 + length body) (rx c) = r" "drop 5 (rx c) = body @ r"
    using assms(1) by (simp_all add: frame_def drop_Cons')
  show ?thesis
  proof (cases "5 + length body \<le> brSize c")
    case True
    then show ?thesis using len t b l d assms(2)
      by (intro that [of "c\<lparr>rx := r\<rparr>"]) (simp_all add: ReadMessage_def Peek_def Discard_def Let_def)
  next
    case False
    let ?c = "if readCap c < length body
              then c\<lparr>rx := r, readCap := (if readCap c * 2 < length body then length body else readCap c * 2)\<rparr>
              else c\<lparr>rx := r\<rparr>"
    show ?thesis using False len t l d assms(2)
      by (intro that [of ?c]) (auto simp: ReadMessage_def Peek_def Discard_def ReadFull_def Let_def)
  qed
qed


text \<open>A message that is returned was framed at the front of the stream, and is consumed whole.\<close>

lemma ReadMessage_ok:
  assumes "ReadMessage c = (c', Inr (t, body))"
  shows "rx c = frame t body @ rx c'" "length body \<le> maxMsg" "tx c' = tx c" "wcap c' = wcap c"
    "writeBuf c' = writeBuf c" "brSize c' = brSize c" "rxErr c' = rxErr c"
proof -
  have p: "5 \<le> length (rx c)" using assms by (auto simp: ReadMessage_def Peek_def split: if_splits)
  then obtain t' r where r: "rx c = t' # r" "4 \<le> length r" by (cases "rx c") auto
  define len where "len = unat (beU32 r)"
  have len: "unat (beU32 (sub_slice (take 5 (rx c)) 1 5)) = len"
    using r by (simp add: len_def sub_slice_def)
  have w: "putU32 (word_of_nat len) = take 4 r" using putU32_beU32 [OF r(2)] by (simp add: len_def)
  have ok: "4 \<le> len" "len - 4 \<le> maxMsg"
    using assms p len by (auto simp: ReadMessage_def Peek_def Let_def split: if_splits)
  have enough: "len - 4 \<le> length (drop 4 r)" "t = t'" "body = take (len - 4) (drop 4 r)"
    "rx c' = drop (len - 4) (drop 4 r)"
    and same: "tx c' = tx c" "wcap c' = wcap c" "writeBuf c' = writeBuf c" "brSize c' = brSize c" "rxErr c' = rxErr c"
    using assms p len ok r
    by (auto simp: ReadMessage_def Peek_def Discard_def ReadFull_def Let_def sub_slice_def drop_take split: if_splits)
  have lb: "length body = len - 4" using enough by simp
  then show "length body \<le> maxMsg" using ok by simp
  have "frame t body = t' # take 4 r @ body" unfolding frame_def lb using ok w enough(2) by simp
  moreover have "r = take 4 r @ body @ rx c'" using enough(3,4) by (metis append_take_drop_id)
  ultimately show "rx c = frame t body @ rx c'" using r enough(2) by simp
  show "tx c' = tx c" "wcap c' = wcap c" "writeBuf c' = writeBuf c" "brSize c' = brSize c" "rxErr c' = rxErr c"
    using same by simp_all
qed

lemma ReadMessage_shorter: "ReadMessage c = (c', Inr m) \<Longrightarrow> length (rx c') < length (rx c)"
  using ReadMessage_ok(1) [of c c' "fst m" "snd m"] by auto

text \<open>On an error the outgoing side is untouched and no complete valid message was at the front.\<close>

lemma ReadMessage_error:
  assumes "ReadMessage c = (c', Inl e)"
  shows "tx c' = tx c" "writeBuf c' = writeBuf c" "length (rx c') \<le> length (rx c)"
    "\<not> (\<exists>t body r. rx c = frame t body @ r \<and> length body \<le> maxMsg)"
proof -
  show "tx c' = tx c" "writeBuf c' = writeBuf c" "length (rx c') \<le> length (rx c)"
    using assms by (auto simp: ReadMessage_def Peek_def Discard_def ReadFull_def Let_def
        split: if_splits sum.splits option.splits prod.splits)
  show "\<not> (\<exists>t body r. rx c = frame t body @ r \<and> length body \<le> maxMsg)"
  proof
    assume "\<exists>t body r. rx c = frame t body @ r \<and> length body \<le> maxMsg"
    then obtain t body r where "rx c = frame t body @ r" "length body \<le> maxMsg" by blast
    from ReadMessage_frame [OF this] assms show False by auto
  qed
qed

section \<open>Building messages\<close>

text \<open>The appenders extend the write buffer and nothing else.\<close>

lemma builder_append:
  "B_Bytes p c = c\<lparr>writeBuf := writeBuf c @ p\<rparr>" "B_Byte v c = c\<lparr>writeBuf := writeBuf c @ [v]\<rparr>"
  "B_String p c = c\<lparr>writeBuf := writeBuf c @ p\<rparr>" "B_CString p c = c\<lparr>writeBuf := writeBuf c @ p @ [0]\<rparr>"
  "B_Int16 i c = c\<lparr>writeBuf := writeBuf c @ putU16 (word_of_int i)\<rparr>"
  "B_Int32 i c = c\<lparr>writeBuf := writeBuf c @ putU32 (word_of_int i)\<rparr>"
  by (simp_all add: B_Bytes_def B_Byte_def B_String_def B_CString_def B_Int16_def B_Int32_def)

lemma Begin_simps:
  "Begin t c = (c\<lparr>writeBuf := writeBuf c @ [t, 0, 0, 0, 0]\<rparr>, \<lparr>noType = False, startOff = length (writeBuf c)\<rparr>)"
  "BeginNoType c = (c\<lparr>writeBuf := writeBuf c @ [0, 0, 0, 0]\<rparr>, \<lparr>noType = True, startOff = length (writeBuf c)\<rparr>)"
  by (simp_all add: Begin_def BeginNoType_def)

lemma Finish_Begin:
  "Finish \<lparr>noType = False, startOff = length (writeBuf c)\<rparr> (c\<lparr>writeBuf := writeBuf c @ t # 0 # 0 # 0 # 0 # body\<rparr>) =
     c\<lparr>writeBuf := writeBuf c @ frame t body\<rparr>"
  "Finish \<lparr>noType = True, startOff = length (writeBuf c)\<rparr> (c\<lparr>writeBuf := writeBuf c @ 0 # 0 # 0 # 0 # body\<rparr>) =
     c\<lparr>writeBuf := writeBuf c @ untyped_frame body\<rparr>"
  using Finish_frame [of "c\<lparr>writeBuf := writeBuf c @ t # 0 # 0 # 0 # 0 # body\<rparr>" "writeBuf c" t body]
    Finish_untyped [of "c\<lparr>writeBuf := writeBuf c @ 0 # 0 # 0 # 0 # body\<rparr>" "writeBuf c" body]
  by simp_all

lemmas build_simps = Begin_simps builder_append Finish_Begin

text \<open>A message from \<open>Begin\<close> through one \<open>Bytes\<close> to \<open>Finish\<close>, as clients write them.\<close>

definition put_message :: "byte \<Rightarrow> bytes \<Rightarrow> Conn \<Rightarrow> Conn" where
  "put_message t body c = (let (c, b) = Begin t c in Finish b (B_Bytes body c))"

lemma put_message_frame: "put_message t body c = c\<lparr>writeBuf := writeBuf c @ frame t body\<rparr>"
  by (simp add: put_message_def build_simps)

section \<open>Streams of messages\<close>

definition frames :: "(byte \<times> bytes) list \<Rightarrow> bytes" where
  "frames ms = concat (map (\<lambda>(t, b). frame t b) ms)"

lemma frames_simps [simp]: "frames [] = []" "frames ((t, b) # ms) = frame t b @ frames ms"
  "frames (ms @ ms') = frames ms @ frames ms'"
  by (simp_all add: frames_def)

text \<open>Reading as many messages as asked for.\<close>

fun read_messages :: "nat \<Rightarrow> Conn \<Rightarrow> Conn \<times> (wire_error + (byte \<times> bytes) list)" where
  "read_messages 0 c = (c, Inr [])"
| "read_messages (Suc n) c =
     (case ReadMessage c of
        (c, Inl e) \<Rightarrow> (c, Inl e)
      | (c, Inr m) \<Rightarrow>
          (case read_messages n c of (c, Inl e) \<Rightarrow> (c, Inl e) | (c, Inr ms) \<Rightarrow> (c, Inr (m # ms))))"

lemma read_messages_frames:
  "\<forall>(t, b) \<in> set ms. length b \<le> maxMsg \<Longrightarrow> rx c = frames ms @ r \<Longrightarrow>
   \<exists>c'. read_messages (length ms) c = (c', Inr ms) \<and> rx c' = r"
proof (induction ms arbitrary: c)
  case (Cons m ms)
  obtain t b where m: "m = (t, b)" by (cases m)
  with Cons.prems have "rx c = frame t b @ frames ms @ r" "length b \<le> maxMsg" by auto
  from ReadMessage_frame [OF this] obtain c1 where c1: "ReadMessage c = (c1, Inr (t, b))" "rx c1 = frames ms @ r" by metis
  with Cons obtain c' where "read_messages (length ms) c1 = (c', Inr ms)" "rx c' = r" by auto
  with c1 m show ?case by simp
qed simp

section \<open>Properties\<close>

text \<open>
  C18. Framing round trip: any sequence of messages built into the write buffer and flushed over a
  working connection is received by a reader of any buffer size as exactly those messages, with
  nothing left over, provided each body is at most 256 MiB.
\<close>

theorem framing_roundtrip:
  assumes "writeBuf c = []" "wcap c = None" "\<forall>(t, b) \<in> set ms. length b \<le> maxMsg"
    and "Flush (fold (\<lambda>(t, b). put_message t b) ms c) = (c', err)" "rx peer = tx c'" "tx c = []"
  shows "err = None \<and> writeBuf c' = [] \<and> (\<exists>peer'. read_messages (length ms) peer = (peer', Inr ms) \<and> rx peer' = [])"
proof -
  have f: "fold (\<lambda>(t, b). put_message t b) ms d = d\<lparr>writeBuf := writeBuf d @ frames ms\<rparr>" for d
    by (induction ms arbitrary: d) (auto simp: put_message_frame)
  have c': "err = None" "c' = c\<lparr>tx := frames ms, writeBuf := []\<rparr>"
    using assms(1,2,4,6) by (auto simp: f Flush_result)
  then have "rx peer = frames ms @ []" using assms(5) by simp
  from read_messages_frames [OF assms(3) this] c' show ?thesis by simp
qed

definition idle_conn :: Conn where
  "idle_conn = New \<lparr>nc_rx = [], nc_err = NetError 1, nc_wcap = None\<rparr>"

theorem framing_roundtrip_witness:
  "\<exists>peer'. read_messages (length [(81 :: byte, bs ''x''), (83, [])]) (idle_conn\<lparr>rx := frame 81 (bs ''x'') @ frame 83 [], brSize := 5\<rparr>) =
     (peer', Inr [(81, bs ''x''), (83, [])]) \<and> rx peer' = []"
proof -
  let ?ms = "[(81, bs ''x''), (83, [])]"
  let ?c' = "idle_conn\<lparr>tx := frame 81 (bs ''x'') @ frame 83 []\<rparr>"
  have f: "Flush (fold (\<lambda>(t, b). put_message t b) ?ms idle_conn) = (?c', None)"
    by (simp add: put_message_frame Flush_result idle_conn_def New_def NewSized_def Let_def)
  have l: "\<forall>(t, b) \<in> set ?ms. length b \<le> maxMsg" by (simp add: maxMsg_def)
  from framing_roundtrip [OF _ _ l f, of "idle_conn\<lparr>rx := frame 81 (bs ''x'') @ frame 83 [], brSize := 5\<rparr>"]
  show ?thesis by (simp add: idle_conn_def New_def NewSized_def Let_def maxMsg_def del: read_messages.simps list.size)
qed

text \<open>
  C19. Reading is exact: a message is returned if and only if a frame with a body of at most
  256 MiB is at the front of the stream, then it is that frame and it is consumed whole; otherwise
  an error is returned. Reading never touches what is to be sent.
\<close>

theorem ReadMessage_exact:
  "(\<exists>c'. ReadMessage c = (c', Inr (t, body)) \<and> rx c' = r) \<longleftrightarrow> rx c = frame t body @ r \<and> length body \<le> maxMsg"
proof
  assume "\<exists>c'. ReadMessage c = (c', Inr (t, body)) \<and> rx c' = r"
  then show "rx c = frame t body @ r \<and> length body \<le> maxMsg" using ReadMessage_ok(1,2) by blast
next
  assume "rx c = frame t body @ r \<and> length body \<le> maxMsg"
  then show "\<exists>c'. ReadMessage c = (c', Inr (t, body)) \<and> rx c' = r" using ReadMessage_frame by metis
qed

text \<open>
  Flushing: the write buffer is always empty afterwards; without an error the peer received
  everything that was in it, and with one only a proper prefix.
\<close>

theorem Flush_all_or_error:
  "case Flush c of
     (c', None) \<Rightarrow> tx c' = tx c @ writeBuf c \<and> writeBuf c' = [] \<and> rx c' = rx c
   | (c', Some e) \<Rightarrow> \<exists>k < length (writeBuf c). tx c' = tx c @ take k (writeBuf c) \<and> writeBuf c' = [] \<and> rx c' = rx c"
  by (auto simp: Flush_result not_le split: option.splits)

end
