(* ===== verification/Crypto.thy ===== *)
theory Crypto
  imports Jsonwriter
begin

text \<open>
  The parts of Go's standard library the authentication code computes with: SHA-256 (FIPS 180-4),
  MD5 (RFC 1321), HMAC (RFC 2104), \<open>encoding/hex\<close>, \<open>encoding/base64\<close>, \<open>strconv.Atoi\<close> and
  \<open>strings.Split\<close>. Shown: digest lengths, the Base64 round trip, that Base64 text has no comma, and
  what splitting and number parsing do on printed values.
\<close>

section \<open>Byte strings and integers\<close>

text \<open>\<open>strings.Split(s, sep)\<close> for a one-byte separator, and \<open>strings.HasPrefix\<close>.\<close>

fun split_on :: "byte \<Rightarrow> bytes \<Rightarrow> bytes list" where
  "split_on c [] = [[]]"
| "split_on c (b # r) = (if b = c then [] # split_on c r else case split_on c r of [] \<Rightarrow> [[b]] | p # ps \<Rightarrow> (b # p) # ps)"

definition HasPrefix :: "bytes \<Rightarrow> bytes \<Rightarrow> bool" where
  "HasPrefix s p \<longleftrightarrow> take (length p) s = p"

lemma HasPrefix_append [simp]: "HasPrefix (p @ r) p"
  by (simp add: HasPrefix_def)

lemma split_on_nonempty: "split_on c s \<noteq> []"
  by (cases s) (auto split: list.splits)

lemma split_on_single: "c \<notin> set s \<Longrightarrow> split_on c s = [s]"
  by (induction s) auto

lemma split_on_append: "c \<notin> set s \<Longrightarrow> split_on c (s @ c # r) = s # split_on c r"
  by (induction s) auto

text \<open>\<open>strconv.Atoi\<close> on a 64-bit platform: the value and whether there was an error.\<close>

definition Atoi :: "bytes \<Rightarrow> int \<times> bool" where
  "Atoi s =
     (let neg = (s \<noteq> [] \<and> hd s = 45);
          ds = (if s \<noteq> [] \<and> (hd s = 43 \<or> hd s = 45) then tl s else s)
      in if ds = [] \<or> \<not> list_all is_digit ds then (0, True)
         else
           let v = (if neg then - int (dec_val ds) else int (dec_val ds)) in
           if v \<ge> 2 ^ 63 then (2 ^ 63 - 1, True)
           else if v < - (2 ^ 63) then (- (2 ^ 63), True)
           else (v, False))"

lemma Atoi_dec_nat: "n < 2 ^ 63 \<Longrightarrow> Atoi (dec_nat n) = (int n, False)"
proof -
  assume n: "n < 2 ^ 63"
  have "hd (dec_nat n) \<in> set (dec_nat n)" by simp
  then have "is_digit (hd (dec_nat n))" using dec_nat_digits by blast
  then have "hd (dec_nat n) \<noteq> 43 \<and> hd (dec_nat n) \<noteq> 45" by (auto simp: is_digit_def)
  moreover have "list_all is_digit (dec_nat n)" using dec_nat_digits by (simp add: list_all_iff)
  ultimately show ?thesis using n by (simp add: Atoi_def Let_def)
qed

section \<open>SHA-256\<close>

definition rotr :: "nat \<Rightarrow> 32 word \<Rightarrow> 32 word" where
  "rotr n x = drop_bit n x OR push_bit (32 - n) x"

definition sha256_k :: "32 word list" where
  "sha256_k =
     [
      1116352408, 1899447441, 3049323471, 3921009573, 961987163, 1508970993, 2453635748, 2870763221,
      3624381080, 310598401, 607225278, 1426881987, 1925078388, 2162078206, 2614888103, 3248222580,
      3835390401, 4022224774, 264347078, 604807628, 770255983, 1249150122, 1555081692, 1996064986,
      2554220882, 2821834349, 2952996808, 3210313671, 3336571891, 3584528711, 113926993, 338241895,
      666307205, 773529912, 1294757372, 1396182291, 1695183700, 1986661051, 2177026350, 2456956037,
      2730485921, 2820302411, 3259730800, 3345764771, 3516065817, 3600352804, 4094571909, 275423344,
      430227734, 506948616, 659060556, 883997877, 958139571, 1322822218, 1537002063, 1747873779,
      1955562222, 2024104815, 2227730452, 2361852424, 2428436474, 2756734187, 3204031479, 3329325298]"

definition sha256_init :: "32 word list" where
  "sha256_init = [1779033703, 3144134277, 1013904242, 2773480762, 1359893119, 2600822924, 528734635, 1541459225]"

definition sha256_pad :: "bytes \<Rightarrow> bytes" where
  "sha256_pad m =
     m @ [128] @ replicate ((119 - length m mod 64) mod 64) 0 @ putU64 (word_of_nat (8 * length m))"

text \<open>One step of the message schedule, and the schedule of a block.\<close>

definition sha256_extend :: "32 word list \<Rightarrow> 32 word list" where
  "sha256_extend w =
     (let n = length w;
          s0 = (let x = w ! (n - 15) in rotr 7 x XOR rotr 18 x XOR drop_bit 3 x);
          s1 = (let x = w ! (n - 2) in rotr 17 x XOR rotr 19 x XOR drop_bit 10 x)
      in w @ [w ! (n - 16) + s0 + w ! (n - 7) + s1])"

definition sha256_schedule :: "bytes \<Rightarrow> 32 word list" where
  "sha256_schedule block =
     (sha256_extend ^^ 48) (map (\<lambda>i. beU32 (sub_slice block (4 * i) (4 * i + 4))) [0..<16])"

definition sha256_round :: "32 word list \<Rightarrow> 32 word \<times> 32 word \<Rightarrow> 32 word list" where
  "sha256_round v kw =
     (case v of
        [a, b, c, d, e, f, g, h] \<Rightarrow>
          let s1 = rotr 6 e XOR rotr 11 e XOR rotr 25 e;
              ch = (e AND f) XOR (NOT e AND g);
              t1 = h + s1 + ch + fst kw + snd kw;
              s0 = rotr 2 a XOR rotr 13 a XOR rotr 22 a;
              maj = (a AND b) XOR (a AND c) XOR (b AND c);
              t2 = s0 + maj
          in [t1 + t2, a, b, c, d + t1, e, f, g]
      | _ \<Rightarrow> v)"

definition sha256_block :: "32 word list \<Rightarrow> bytes \<Rightarrow> 32 word list" where
  "sha256_block h block = map2 (+) h (foldl sha256_round h (zip sha256_k (sha256_schedule block)))"

definition sha256 :: "bytes \<Rightarrow> bytes" where
  "sha256 m =
     (let p = sha256_pad m;
          h = foldl (\<lambda>h i. sha256_block h (sub_slice p (64 * i) (64 * i + 64))) sha256_init [0..<length p div 64]
      in concat (map putU32 h))"

lemma length_sha256_round: "length (sha256_round v kw) = length v"
  by (auto simp: sha256_round_def Let_def split: list.splits)

lemma length_sha256_block: "length (sha256_block h b) = length h"
proof -
  have "length (foldl sha256_round v kws) = length v" for v kws
    by (induction kws arbitrary: v) (simp_all add: length_sha256_round)
  then show ?thesis by (simp add: sha256_block_def)
qed

lemma length_sha256 [simp]: "length (sha256 m) = 32"
proof -
  have f: "length (foldl (\<lambda>h i. sha256_block h (g i)) h is) = length h" for g h "is"
    by (induction "is" arbitrary: h) (simp_all add: length_sha256_block)
  have "length (concat (map putU32 h)) = 4 * length h" for h :: "32 word list"
    by (induction h) simp_all
  then show ?thesis by (simp add: sha256_def Let_def f sha256_init_def)
qed

section \<open>MD5\<close>

definition md5_k :: "32 word list" where
  "md5_k =
     [
      3614090360, 3905402710, 606105819, 3250441966, 4118548399, 1200080426, 2821735955, 4249261313,
      1770035416, 2336552879, 4294925233, 2304563134, 1804603682, 4254626195, 2792965006, 1236535329,
      4129170786, 3225465664, 643717713, 3921069994, 3593408605, 38016083, 3634488961, 3889429448,
      568446438, 3275163606, 4107603335, 1163531501, 2850285829, 4243563512, 1735328473, 2368359562,
      4294588738, 2272392833, 1839030562, 4259657740, 2763975236, 1272893353, 4139469664, 3200236656,
      681279174, 3936430074, 3572445317, 76029189, 3654602809, 3873151461, 530742520, 3299628645,
      4096336452, 1126891415, 2878612391, 4237533241, 1700485571, 2399980690, 4293915773, 2240044497,
      1873313359, 4264355552, 2734768916, 1309151649, 4149444226, 3174756917, 718787259, 3951481745]"

definition md5_s :: "nat list" where
  "md5_s =
     [7, 12, 17, 22, 7, 12, 17, 22, 7, 12, 17, 22, 7, 12, 17, 22, 5, 9, 14, 20, 5, 9, 14, 20, 5, 9, 14, 20, 5, 9, 14, 20, 4, 11, 16, 23, 4, 11, 16, 23, 4, 11, 16, 23, 4, 11, 16, 23, 6, 10, 15, 21, 6, 10, 15, 21, 6, 10, 15, 21, 6, 10, 15, 21]"

definition rotl :: "nat \<Rightarrow> 32 word \<Rightarrow> 32 word" where
  "rotl n x = push_bit n x OR drop_bit (32 - n) x"

definition md5_pad :: "bytes \<Rightarrow> bytes" where
  "md5_pad m =
     m @ [128] @ replicate ((119 - length m mod 64) mod 64) 0 @ rev (putU64 (word_of_nat (8 * length m)))"

definition md5_round :: "32 word list \<Rightarrow> 32 word list \<Rightarrow> nat \<Rightarrow> 32 word list" where
  "md5_round w v i =
     (case v of
        [a, b, c, d] \<Rightarrow>
          let (f, g) = (if i < 16 then ((b AND c) OR (NOT b AND d), i)
                        else if i < 32 then ((d AND b) OR (NOT d AND c), (5 * i + 1) mod 16)
                        else if i < 48 then (b XOR c XOR d, (3 * i + 5) mod 16)
                        else (c XOR (b OR NOT d), 7 * i mod 16))
          in [d, b + rotl (md5_s ! i) (f + a + md5_k ! i + w ! g), b, c]
      | _ \<Rightarrow> v)"

definition md5_block :: "32 word list \<Rightarrow> bytes \<Rightarrow> 32 word list" where
  "md5_block h block =
     map2 (+) h (foldl (md5_round (map (\<lambda>i. beU32 (rev (sub_slice block (4 * i) (4 * i + 4)))) [0..<16])) h [0..<64])"

definition md5 :: "bytes \<Rightarrow> bytes" where
  "md5 m =
     (let p = md5_pad m;
          h = foldl (\<lambda>h i. md5_block h (sub_slice p (64 * i) (64 * i + 64)))
                [1732584193, 4023233417, 2562383102, 271733878] [0..<length p div 64]
      in concat (map (rev \<circ> putU32) h))"

section \<open>HMAC, hex and Base64\<close>

text \<open>\<open>hmac.New(sha256.New, key)\<close>, written to once and summed.\<close>

definition hmac :: "bytes \<Rightarrow> bytes \<Rightarrow> bytes" where
  "hmac key msg =
     (let key = (if length key > 64 then sha256 key else key);
          k = key @ replicate (64 - length key) 0
      in sha256 (map (\<lambda>b. b XOR 92) k @ sha256 (map (\<lambda>b. b XOR 54) k @ msg)))"

lemma length_hmac [simp]: "length (hmac k m) = 32"
  by (simp add: hmac_def Let_def)

definition hex_digit :: "byte \<Rightarrow> byte" where
  "hex_digit d = (if d < 10 then 48 + d else 87 + d)"

definition hex_EncodeToString :: "bytes \<Rightarrow> bytes" where
  "hex_EncodeToString b = concat (map (\<lambda>x. [hex_digit (drop_bit 4 x), hex_digit (x AND 15)]) b)"

definition enc6 :: "nat \<Rightarrow> byte" where
  "enc6 n = word_of_nat (if n < 26 then 65 + n else if n < 52 then 71 + n else if n < 62 then n - 4
                         else if n = 62 then 43 else 47)"

definition dec6 :: "byte \<Rightarrow> nat option" where
  "dec6 c =
     (let u = unat c in
      if 65 \<le> u \<and> u \<le> 90 then Some (u - 65)
      else if 97 \<le> u \<and> u \<le> 122 then Some (u - 71)
      else if 48 \<le> u \<and> u \<le> 57 then Some (u + 4)
      else if u = 43 then Some 62 else if u = 47 then Some 63 else None)"

text \<open>\<open>base64.StdEncoding.EncodeToString\<close>.\<close>

fun base64_Encode :: "bytes \<Rightarrow> bytes" where
  "base64_Encode [] = []"
| "base64_Encode [a] = [enc6 (unat a div 4), enc6 (unat a mod 4 * 16), 61, 61]"
| "base64_Encode [a, b] = [enc6 (unat a div 4), enc6 (unat a mod 4 * 16 + unat b div 16), enc6 (unat b mod 16 * 4), 61]"
| "base64_Encode (a # b # c # r) =
     enc6 (unat a div 4) # enc6 (unat a mod 4 * 16 + unat b div 16) # enc6 (unat b mod 16 * 4 + unat c div 64) #
     enc6 (unat c mod 64) # base64_Encode r"

text \<open>\<open>base64.StdEncoding.DecodeString\<close>: carriage returns and newlines are skipped.\<close>

fun decode_quads :: "bytes \<Rightarrow> bytes option" where
  "decode_quads [] = Some []"
| "decode_quads (a # b # c # d # r) =
     (case (dec6 a, dec6 b) of
        (Some x, Some y) \<Rightarrow>
          let b0 = word_of_nat (x * 4 + y div 16) in
          if r = [] \<and> c = 61 \<and> d = 61 then Some [b0]
          else
            (case dec6 c of
               None \<Rightarrow> None
             | Some z \<Rightarrow>
                 let b1 = word_of_nat (y mod 16 * 16 + z div 4) in
                 if r = [] \<and> d = 61 then Some [b0, b1]
                 else
                   (case dec6 d of
                      None \<Rightarrow> None
                    | Some w \<Rightarrow>
                        map_option (\<lambda>bs'. b0 # b1 # word_of_nat (z mod 4 * 64 + w) # bs') (decode_quads r)))
      | _ \<Rightarrow> None)"
| "decode_quads _ = None"

definition base64_Decode :: "bytes \<Rightarrow> bytes option" where
  "base64_Decode s = decode_quads (filter (\<lambda>c. c \<noteq> 13 \<and> c \<noteq> 10) s)"

lemma unat_enc6:
  "n < 64 \<Longrightarrow> unat (enc6 n) = (if n < 26 then 65 + n else if n < 52 then 71 + n else if n < 62 then n - 4
                         else if n = 62 then 43 else 47)"
  unfolding enc6_def unsigned_of_nat by (simp add: take_bit_eq_mod)

lemma dec6_enc6 [simp]: "n < 64 \<Longrightarrow> dec6 (enc6 n) = Some n"
  by (auto simp: dec6_def unat_enc6 Let_def)

lemma enc6_not [simp]: "n < 64 \<Longrightarrow> enc6 n \<noteq> 61" "n < 64 \<Longrightarrow> enc6 n \<noteq> 44" "n < 64 \<Longrightarrow> enc6 n \<noteq> 13" "n < 64 \<Longrightarrow> enc6 n \<noteq> 10"
  using unat_enc6 [of n] by (auto split: if_splits)

lemma six_bits [simp]:
  "unat (a :: byte) div 4 < 64" "unat (b :: byte) mod 4 * 16 + unat (a :: byte) div 16 < 64"
  "unat b mod 16 * 4 + unat a div 64 < 64" "unat a mod 64 < 64" "unat a mod 4 * 16 < 64" "unat a mod 16 * 4 < 64"
proof -
  have "unat a div 16 < 16" "unat a div 64 < 4" "unat a div 4 < 64" using unat_byte_lt [of a] by (simp_all add: div_less_iff_less_mult)
  moreover have "unat b mod 4 < 4" "unat b mod 16 < 16" "unat a mod 4 < 4" "unat a mod 16 < 16" by simp_all
  ultimately show "unat a div 4 < 64" "unat b mod 4 * 16 + unat a div 16 < 64" "unat b mod 16 * 4 + unat a div 64 < 64"
    "unat a mod 64 < 64" "unat a mod 4 * 16 < 64" "unat a mod 16 * 4 < 64" by linarith+
qed

lemma byte_digits:
  "unat (b :: byte) div 16 div 16 = 0" "unat b div 16 mod 16 = unat b div 16"
  "unat b div 64 div 4 = 0" "unat b div 64 mod 4 = unat b div 64"
  using unat_byte_lt [of b] by (simp_all add: div_mult2_eq [symmetric] div_less_iff_less_mult)

lemma base64_no_newline: "filter (\<lambda>c. c \<noteq> 13 \<and> c \<noteq> 10) (base64_Encode b) = base64_Encode b"
  by (induction b rule: base64_Encode.induct) auto

lemma base64_no_comma: "44 \<notin> set (base64_Encode b)"
  by (induction b rule: base64_Encode.induct) (auto dest: sym)

lemma base64_nonempty: "b \<noteq> [] \<Longrightarrow> base64_Encode b \<noteq> []"
  by (cases b rule: base64_Encode.cases) auto

lemma decode_quads_encode: "decode_quads (base64_Encode b) = Some b"
  by (induction b rule: base64_Encode.induct) (simp_all add: Let_def byte_digits del: of_nat_add of_nat_mult)

lemma base64_roundtrip [simp]: "base64_Decode (base64_Encode b) = Some b"
  by (simp add: base64_Decode_def base64_no_newline decode_quads_encode)

end
