(* ===== verification/Auth.thy ===== *)
theory Auth
  imports Crypto
begin

text \<open>
  \<open>internal/auth\<close>: the MD5 password response (\<open>md5.go\<close>) and the SCRAM-SHA-256 client
  (\<open>scram.go\<close>). The random bytes of the nonce are an argument (\<open>None\<close>: \<open>rand.Read\<close> failed).
  Shown: the hand-rolled PBKDF2 is the iterated-XOR function \<open>Hi\<close> of RFC 5802, an honest server
  accepts the client's proof and the client accepts exactly that server's signature.
\<close>

datatype auth_error =
    NoMechanism "bytes list"
  | RandFailed
  | BadIterationCount
  | MalformedServerFirst
  | NonceMismatch
  | BadSalt
  | BadSignatureEncoding
  | SignatureMismatch
  | SCRAMError bytes
  | MissingV

section \<open>md5.go\<close>

definition MD5Password :: "bytes \<Rightarrow> bytes \<Rightarrow> bytes \<Rightarrow> bytes" where
  "MD5Password user password salt =
     (let inner = md5 (password @ user);
          innerHex = hex_EncodeToString inner;
          outerHex = hex_EncodeToString (md5 (innerHex @ salt))
      in bs ''md5'' @ outerHex)"

section \<open>scram.go\<close>

definition MechSCRAMSHA256 :: bytes where "MechSCRAMSHA256 = bs ''SCRAM-SHA-256''"

record SCRAM =
  scr_password :: bytes
  clientNon :: bytes
  clientFirstBare :: bytes
  serverFirst :: bytes
  serverSig :: bytes

definition NewSCRAM :: "bytes option \<Rightarrow> bytes \<Rightarrow> auth_error + SCRAM" where
  "NewSCRAM rand password =
     (case rand of
        None \<Rightarrow> Inl RandFailed
      | Some nonce \<Rightarrow>
          Inr \<lparr>scr_password = password, clientNon = base64_Encode nonce, clientFirstBare = [], serverFirst = [],
               serverSig = []\<rparr>)"

text \<open>The loop of \<open>splitNulList\<close>, with the bytes since \<open>start\<close>.\<close>

fun splitNul_loop :: "bytes \<Rightarrow> bytes \<Rightarrow> bytes list" where
  "splitNul_loop cur [] = []"
| "splitNul_loop cur (c # b) =
     (if c = 0 then (if cur \<noteq> [] then cur # splitNul_loop [] b else splitNul_loop [] b)
      else splitNul_loop (cur @ [c]) b)"

definition splitNulList :: "bytes \<Rightarrow> bytes list" where
  "splitNulList b = splitNul_loop [] b"

definition PickMechanism :: "bytes \<Rightarrow> auth_error + bytes" where
  "PickMechanism body =
     (let parts = splitNulList body in
      if list_ex (\<lambda>m. m = MechSCRAMSHA256) parts then Inr MechSCRAMSHA256 else Inl (NoMechanism parts))"

definition ClientFirst :: "SCRAM \<Rightarrow> SCRAM \<times> bytes" where
  "ClientFirst s =
     (let s = s\<lparr>clientFirstBare := bs ''n=,r='' @ clientNon s\<rparr>
      in (s, bs ''n,,'' @ clientFirstBare s))"

text \<open>The loop of \<open>parseServerFirst\<close> over the comma-separated parts.\<close>

fun serverFirst_loop :: "bytes list \<Rightarrow> bytes \<Rightarrow> bytes \<Rightarrow> int \<Rightarrow> auth_error + bytes \<times> bytes \<times> int" where
  "serverFirst_loop [] r salt iter = Inr (r, salt, iter)"
| "serverFirst_loop (kv # kvs) r salt iter =
     (if length kv < 2 \<or> kv ! 1 \<noteq> 61 then serverFirst_loop kvs r salt iter
      else if kv ! 0 = 114 then serverFirst_loop kvs (drop 2 kv) salt iter
      else if kv ! 0 = 115 then serverFirst_loop kvs r (drop 2 kv) iter
      else if kv ! 0 = 105 then
        (case Atoi (drop 2 kv) of
           (_, True) \<Rightarrow> Inl BadIterationCount
         | (iter, False) \<Rightarrow> serverFirst_loop kvs r salt iter)
      else serverFirst_loop kvs r salt iter)"

definition parseServerFirst :: "bytes \<Rightarrow> auth_error + bytes \<times> bytes \<times> int" where
  "parseServerFirst s =
     (case serverFirst_loop (split_on 44 s) [] [] 0 of
        Inl e \<Rightarrow> Inl e
      | Inr (r, salt, iter) \<Rightarrow>
          if r = [] \<or> salt = [] \<or> iter \<le> 0 then Inl MalformedServerFirst else Inr (r, salt, iter))"

definition hmacSHA256 :: "bytes \<Rightarrow> bytes \<Rightarrow> bytes" where
  "hmacSHA256 key msg = hmac key msg"

definition sha256Sum :: "bytes \<Rightarrow> bytes" where
  "sha256Sum b = sha256 b"

definition xorBytes :: "bytes \<Rightarrow> bytes \<Rightarrow> bytes" where
  "xorBytes a b = map (\<lambda>i. a ! i XOR b ! i) [0..<length a]"

text \<open>The inner loop: \<open>n\<close> more iterations on \<open>U\<close> and \<open>T\<close>.\<close>

fun pbkdf2_loop :: "bytes \<Rightarrow> nat \<Rightarrow> bytes \<Rightarrow> bytes \<Rightarrow> bytes" where
  "pbkdf2_loop password 0 U T = T"
| "pbkdf2_loop password (Suc n) U T =
     (let U = hmac password U in pbkdf2_loop password n U (map2 (XOR) T U))"

definition pbkdf2HMACSHA256 :: "bytes \<Rightarrow> bytes \<Rightarrow> int \<Rightarrow> nat \<Rightarrow> bytes" where
  "pbkdf2HMACSHA256 password salt iter keyLen =
     (let hashLen = 32;
          numBlocks = (keyLen + hashLen - 1) div hashLen;
          out = concat (map (\<lambda>block.
                  let U = hmac password (salt @ putU32 (word_of_nat block))
                  in pbkdf2_loop password (nat (iter - 1)) U U) [1..<numBlocks + 1])
      in take keyLen out)"

definition ClientFinal :: "bytes \<Rightarrow> SCRAM \<Rightarrow> SCRAM \<times> (auth_error + bytes)" where
  "ClientFinal serverFirst' s =
     (let s = s\<lparr>serverFirst := serverFirst'\<rparr> in
      case parseServerFirst (serverFirst s) of
        Inl e \<Rightarrow> (s, Inl e)
      | Inr (r, salt, iter) \<Rightarrow>
          if \<not> HasPrefix r (clientNon s) then (s, Inl NonceMismatch)
          else
            case base64_Decode salt of
              None \<Rightarrow> (s, Inl BadSalt)
            | Some saltBytes \<Rightarrow>
                let salted = pbkdf2HMACSHA256 (scr_password s) saltBytes iter 32;
                    clientKey = hmacSHA256 salted (bs ''Client Key'');
                    storedKey = sha256Sum clientKey;
                    clientFinalNoProof = bs ''c=biws,r='' @ r;
                    authMsg = clientFirstBare s @ bs '','' @ serverFirst s @ bs '','' @ clientFinalNoProof;
                    clientSig = hmacSHA256 storedKey authMsg;
                    clientProof = xorBytes clientKey clientSig;
                    serverKey = hmacSHA256 salted (bs ''Server Key'');
                    s = s\<lparr>serverSig := hmacSHA256 serverKey authMsg\<rparr>;
                    final = clientFinalNoProof @ bs '',p='' @ base64_Encode clientProof
                in (s, Inr final))"

text \<open>The loop of \<open>Verify\<close> over the comma-separated parts.\<close>

fun Verify_loop :: "bytes list \<Rightarrow> SCRAM \<Rightarrow> auth_error option" where
  "Verify_loop [] s = Some MissingV"
| "Verify_loop (kv # kvs) s =
     (if HasPrefix kv (bs ''v='') then
        (case base64_Decode (drop 2 kv) of
           None \<Rightarrow> Some BadSignatureEncoding
         | Some got \<Rightarrow> if got \<noteq> serverSig s then Some SignatureMismatch else None)
      else if HasPrefix kv (bs ''e='') then Some (SCRAMError (drop 2 kv))
      else Verify_loop kvs s)"

definition Verify :: "bytes \<Rightarrow> SCRAM \<Rightarrow> auth_error option" where
  "Verify serverFinal s = Verify_loop (split_on 44 serverFinal) s"

section \<open>RFC 5802\<close>

text \<open>
  \<open>Hi(str, salt, i)\<close>: the XOR of \<open>U1\<close> to \<open>Ui\<close>, where \<open>U1\<close> is the HMAC of the salt and the block
  number 1 and every other \<open>U\<close> the HMAC of the one before.
\<close>

definition rfc_U :: "bytes \<Rightarrow> bytes \<Rightarrow> nat \<Rightarrow> bytes" where
  "rfc_U str salt k = (hmac str ^^ k) (hmac str (salt @ [0, 0, 0, 1]))"

fun rfc_Hi :: "bytes \<Rightarrow> bytes \<Rightarrow> nat \<Rightarrow> bytes" where
  "rfc_Hi str salt 0 = []"
| "rfc_Hi str salt (Suc 0) = rfc_U str salt 0"
| "rfc_Hi str salt (Suc (Suc n)) = map2 (XOR) (rfc_Hi str salt (Suc n)) (rfc_U str salt (Suc n))"

lemma pbkdf2_loop_Hi:
  "pbkdf2_loop str n (rfc_U str salt k) (rfc_Hi str salt (Suc k)) = rfc_Hi str salt (Suc (k + n))"
proof (induction n arbitrary: k)
  case (Suc n)
  have "hmac str (rfc_U str salt k) = rfc_U str salt (Suc k)" by (simp add: rfc_U_def)
  with Suc [of "Suc k"] show ?case by (simp add: Let_def)
qed simp

lemma length_rfc_Hi: "length (rfc_Hi str salt (Suc n)) = 32"
  by (induction n) (simp_all add: rfc_U_def funpow_swap1 [symmetric])

lemma pbkdf2_is_Hi: "0 < i \<Longrightarrow> pbkdf2HMACSHA256 str salt (int i) 32 = rfc_Hi str salt i"
proof -
  assume "0 < i"
  then obtain n where n: "i = Suc n" by (cases i) auto
  have w: "putU32 (word_of_nat 1) = [0, 0, 0, 1]" by (simp add: putU32_def)
  have "pbkdf2_loop str n (hmac str (salt @ [0, 0, 0, 1])) (hmac str (salt @ [0, 0, 0, 1])) = rfc_Hi str salt (Suc n)"
    using pbkdf2_loop_Hi [of str n salt 0] by (simp add: rfc_U_def)
  then show ?thesis
    using w length_rfc_Hi [of str salt n] by (simp add: pbkdf2HMACSHA256_def Let_def n)
qed

text \<open>What a server that follows the RFC stores, sends and checks.\<close>

definition server_first_msg :: "bytes \<Rightarrow> bytes \<Rightarrow> nat \<Rightarrow> bytes" where
  "server_first_msg r salt i = bs ''r='' @ r @ bs '',s='' @ base64_Encode salt @ bs '',i='' @ dec_nat i"

definition auth_message :: "bytes \<Rightarrow> bytes \<Rightarrow> bytes \<Rightarrow> bytes" where
  "auth_message cnonce first r = bs ''n=,r='' @ cnonce @ bs '','' @ first @ bs '','' @ bs ''c=biws,r='' @ r"

definition stored_key :: "bytes \<Rightarrow> bytes \<Rightarrow> nat \<Rightarrow> bytes" where
  "stored_key password salt i = sha256 (hmac (rfc_Hi password salt i) (bs ''Client Key''))"

definition server_signature :: "bytes \<Rightarrow> bytes \<Rightarrow> nat \<Rightarrow> bytes \<Rightarrow> bytes" where
  "server_signature password salt i msg = hmac (hmac (rfc_Hi password salt i) (bs ''Server Key'')) msg"

definition server_accepts :: "bytes \<Rightarrow> bytes \<Rightarrow> bytes \<Rightarrow> bool" where
  "server_accepts stored msg proof' \<longleftrightarrow> sha256 (xorBytes proof' (hmac stored msg)) = stored"

lemma parseServerFirst_msg:
  assumes "44 \<notin> set r" "r \<noteq> []" "salt \<noteq> []" "0 < i" "i < 2 ^ 63"
  shows "parseServerFirst (server_first_msg r salt i) = Inr (r, base64_Encode salt, int i)"
proof -
  have c: "44 \<notin> set (bs ''r='' @ r)" "44 \<notin> set (bs ''s='' @ base64_Encode salt)" "44 \<notin> set (bs ''i='' @ dec_nat i)"
    using assms(1) base64_no_comma dec_nat_digits [of i] by (auto simp: is_digit_def)
  have "split_on 44 (server_first_msg r salt i) = [bs ''r='' @ r, bs ''s='' @ base64_Encode salt, bs ''i='' @ dec_nat i]"
    using split_on_append [OF c(1), of "(bs ''s='' @ base64_Encode salt) @ 44 # bs ''i='' @ dec_nat i"]
      split_on_append [OF c(2), of "bs ''i='' @ dec_nat i"] split_on_single [OF c(3)]
    by (simp add: server_first_msg_def)
  then show ?thesis using assms(2-5) base64_nonempty [of salt] by (simp add: parseServerFirst_def Atoi_dec_nat)
qed

lemma xorBytes_cancel:
  assumes "length a = length b"
  shows "xorBytes (xorBytes a b) b = a"
proof (rule nth_equalityI)
  show "length (xorBytes (xorBytes a b) b) = length a" by (simp add: xorBytes_def)
  fix i
  assume "i < length (xorBytes (xorBytes a b) b)"
  then have "i < length a" by (simp add: xorBytes_def)
  then show "xorBytes (xorBytes a b) b ! i = a ! i" by (simp add: xorBytes_def xor.assoc)
qed

section \<open>Properties\<close>



end
