(* ===== verification/Config.thy ===== *)
theory Config
  imports Crypto
begin

text \<open>
  \<open>pg2json/config.go\<close> and \<open>tls_helpers.go\<close>: the connection configuration, its defaults, the TLS
  parameters built from it, and the DSN parser. \<open>url.Parse\<close> and the certificate verifier are
  arguments; durations are nanoseconds. Shown: defaults are complete and idempotent and keep every
  explicit setting, and which TLS checks each mode makes.
\<close>

section \<open>Configuration\<close>

datatype SSLMode = SSLDisable | SSLPrefer | SSLRequire | SSLVerifyCA | SSLVerifyFull

text \<open>The \<open>iota\<close> values, for the comparisons of the source.\<close>

primrec ssl_rank :: "SSLMode \<Rightarrow> nat" where
  "ssl_rank SSLDisable = 0"
| "ssl_rank SSLPrefer = 1"
| "ssl_rank SSLRequire = 2"
| "ssl_rank SSLVerifyCA = 3"
| "ssl_rank SSLVerifyFull = 4"

instantiation SSLMode :: linorder
begin

definition less_eq_SSLMode :: "SSLMode \<Rightarrow> SSLMode \<Rightarrow> bool" where
  "less_eq_SSLMode a b \<longleftrightarrow> ssl_rank a \<le> ssl_rank b"

definition less_SSLMode :: "SSLMode \<Rightarrow> SSLMode \<Rightarrow> bool" where
  "less_SSLMode a b \<longleftrightarrow> ssl_rank a < ssl_rank b"

instance
proof
  fix a b :: SSLMode
  show "a \<le> b \<Longrightarrow> b \<le> a \<Longrightarrow> a = b"
    unfolding less_eq_SSLMode_def by (cases a; cases b) simp_all
qed (auto simp: less_eq_SSLMode_def less_SSLMode_def)

end

text \<open>
  The fields of \<open>tls.Config\<close> the driver sets: \<open>chainOnly\<close> stands for the callback
  \<open>verifyChainNoHost\<close>.
\<close>

record tls_Config =
  ServerName :: bytes
  InsecureSkipVerify :: bool
  chainOnly :: bool

record Config =
  Host :: bytes
  Port :: int
  Database :: bytes
  User :: bytes
  Password :: bytes
  ApplicationName :: bytes
  DialTimeout :: int
  FlushBytes :: int
  RuntimeParams :: "(bytes \<times> bytes) list"
  cfg_SSLMode :: SSLMode
  StmtCacheSize :: int
  TLSConfig :: "tls_Config option"
  MaxResponseBytes :: int
  MaxResponseRows :: int
  SlowQueryThreshold :: int
  FlushInterval :: int
  Keepalive :: int
  RetryOnSerialization :: bool
  DefaultQueryTimeout :: int
  WireReadBufferSize :: int
  TCPRecvBuffer :: int
  TCPSendBuffer :: int
  BinaryOIDs :: "32 word list"
  RowsHint :: int

definition zero_Config :: Config where
  "zero_Config =
     \<lparr>Host = [], Port = 0, Database = [], User = [], Password = [], ApplicationName = [], DialTimeout = 0, FlushBytes = 0,
      RuntimeParams = [], cfg_SSLMode = SSLDisable, StmtCacheSize = 0, TLSConfig = None, MaxResponseBytes = 0,
      MaxResponseRows = 0, SlowQueryThreshold = 0, FlushInterval = 0, Keepalive = 0, RetryOnSerialization = False,
      DefaultQueryTimeout = 0, WireReadBufferSize = 0, TCPRecvBuffer = 0, TCPSendBuffer = 0, BinaryOIDs = [], RowsHint = 0\<rparr>"

definition time_Second :: int where "time_Second = 1000000000"

definition applyDefaults :: "Config \<Rightarrow> Config" where
  "applyDefaults c =
     (let c = (if Host c = [] then c\<lparr>Host := bs ''127.0.0.1''\<rparr> else c);
          c = (if Port c = 0 then c\<lparr>Port := 5432\<rparr> else c);
          c = (if User c = [] then c\<lparr>User := bs ''postgres''\<rparr> else c);
          c = (if Database c = [] then c\<lparr>Database := User c\<rparr> else c);
          c = (if DialTimeout c = 0 then c\<lparr>DialTimeout := 10 * time_Second\<rparr> else c);
          c = (if FlushBytes c \<le> 0 then c\<lparr>FlushBytes := 32 * 1024\<rparr> else c);
          c = (if ApplicationName c = [] then c\<lparr>ApplicationName := bs ''pg2json''\<rparr> else c);
          c = (if Keepalive c = 0 then c\<lparr>Keepalive := 30 * time_Second\<rparr> else c);
          c = (if WireReadBufferSize c \<le> 0 then c\<lparr>WireReadBufferSize := 128 * 1024\<rparr>
               else if WireReadBufferSize c < 4 * 1024 then c\<lparr>WireReadBufferSize := 4 * 1024\<rparr>
               else c)
      in c)"

section \<open>TLS\<close>

definition buildTLS :: "Config \<Rightarrow> tls_Config option" where
  "buildTLS c =
     (if cfg_SSLMode c = SSLDisable then None
      else
        case TLSConfig c of
          Some out \<Rightarrow> Some (if ServerName out = [] then out\<lparr>ServerName := Host c\<rparr> else out)
        | None \<Rightarrow>
            let out = \<lparr>ServerName = Host c, InsecureSkipVerify = False, chainOnly = False\<rparr> in
            Some (case cfg_SSLMode c of
                    SSLPrefer \<Rightarrow> out\<lparr>InsecureSkipVerify := True\<rparr>
                  | SSLRequire \<Rightarrow> out\<lparr>InsecureSkipVerify := True\<rparr>
                  | SSLVerifyCA \<Rightarrow> out\<lparr>InsecureSkipVerify := True, chainOnly := True\<rparr>
                  | _ \<Rightarrow> out))"

text \<open>
  The options of the manual chain verification, and the callback: \<open>Verify\<close> of \<open>crypto/x509\<close> takes
  the leaf certificate and the intermediates and gives an error, if any; no host name is passed.
\<close>

definition tlsVerifyOptionsNoHost :: "'cert list \<Rightarrow> 'cert list" where
  "tlsVerifyOptionsNoHost peerCertificates = drop 1 peerCertificates"

definition verifyChainNoHost :: "('cert \<Rightarrow> 'cert list \<Rightarrow> 'err option) \<Rightarrow> 'err \<Rightarrow> 'cert list \<Rightarrow> 'err option" where
  "verifyChainNoHost x509_Verify errNoTLSChain peerCertificates =
     (if length peerCertificates = 0 then Some errNoTLSChain
      else x509_Verify (peerCertificates ! 0) (tlsVerifyOptionsNoHost peerCertificates))"

section \<open>DSN\<close>

text \<open>What the driver reads of a parsed URL; \<open>Query().Get\<close> is the first value of a key.\<close>

record url =
  u_Hostname :: bytes
  u_Port :: bytes
  u_User :: "(bytes \<times> bytes option) option"
  u_Path :: bytes
  u_Query :: "(bytes \<times> bytes) list"

definition q_Get :: "url \<Rightarrow> string \<Rightarrow> bytes" where
  "q_Get u key = (case map_of (u_Query u) (bs key) of Some v \<Rightarrow> v | None \<Rightarrow> [])"

definition TrimPrefix :: "bytes \<Rightarrow> bytes \<Rightarrow> bytes" where
  "TrimPrefix s p = (if HasPrefix s p then drop (length p) s else s)"

definition ParseDSN :: "(bytes \<Rightarrow> 'err + url) \<Rightarrow> bytes \<Rightarrow> 'err + Config" where
  "ParseDSN url_Parse dsn =
     (case url_Parse dsn of
        Inl e \<Rightarrow> Inl e
      | Inr u \<Rightarrow>
          let cfg = zero_Config\<lparr>Host := u_Hostname u\<rparr>;
              cfg = (if u_Port u \<noteq> [] then cfg\<lparr>Port := fst (Atoi (u_Port u))\<rparr> else cfg);
              cfg = (case u_User u of
                       None \<Rightarrow> cfg
                     | Some (name, pw) \<Rightarrow>
                         let cfg = cfg\<lparr>User := name\<rparr>
                         in case pw of Some pw \<Rightarrow> cfg\<lparr>Password := pw\<rparr> | None \<Rightarrow> cfg);
              path = TrimPrefix (u_Path u) (bs ''/'');
              cfg = (if path \<noteq> [] then cfg\<lparr>Database := path\<rparr> else cfg);
              cfg = (if q_Get u ''application_name'' \<noteq> [] then cfg\<lparr>ApplicationName := q_Get u ''application_name''\<rparr> else cfg);
              cfg = (if q_Get u ''tcp_recv_buffer'' \<noteq> []
                     then cfg\<lparr>TCPRecvBuffer := fst (Atoi (q_Get u ''tcp_recv_buffer''))\<rparr> else cfg);
              cfg = (if q_Get u ''tcp_send_buffer'' \<noteq> []
                     then cfg\<lparr>TCPSendBuffer := fst (Atoi (q_Get u ''tcp_send_buffer''))\<rparr> else cfg);
              cfg = (if q_Get u ''wire_read_buffer'' \<noteq> []
                     then cfg\<lparr>WireReadBufferSize := fst (Atoi (q_Get u ''wire_read_buffer''))\<rparr> else cfg);
              mode = q_Get u ''sslmode'';
              cfg = (if mode = bs ''disable'' then cfg\<lparr>cfg_SSLMode := SSLDisable\<rparr>
                     else if mode = [] \<or> mode = bs ''prefer'' then cfg\<lparr>cfg_SSLMode := SSLPrefer\<rparr>
                     else if mode = bs ''require'' then cfg\<lparr>cfg_SSLMode := SSLRequire\<rparr>
                     else if mode = bs ''verify-ca'' then cfg\<lparr>cfg_SSLMode := SSLVerifyCA\<rparr>
                     else if mode = bs ''verify-full'' then cfg\<lparr>cfg_SSLMode := SSLVerifyFull\<rparr>
                     else cfg)
          in Inr (applyDefaults cfg))"

section \<open>Properties\<close>

text \<open>The defaults as one update: each field keeps its value or takes its default.\<close>

lemma guarded_update:
  "(if P then c\<lparr>Host := x0\<rparr> else c) = c\<lparr>Host := (if P then x0 else Host c)\<rparr>"
  "(if P then c\<lparr>Port := x1\<rparr> else c) = c\<lparr>Port := (if P then x1 else Port c)\<rparr>"
  "(if P then c\<lparr>User := x2\<rparr> else c) = c\<lparr>User := (if P then x2 else User c)\<rparr>"
  "(if P then c\<lparr>Database := x3\<rparr> else c) = c\<lparr>Database := (if P then x3 else Database c)\<rparr>"
  "(if P then c\<lparr>DialTimeout := x4\<rparr> else c) = c\<lparr>DialTimeout := (if P then x4 else DialTimeout c)\<rparr>"
  "(if P then c\<lparr>FlushBytes := x5\<rparr> else c) = c\<lparr>FlushBytes := (if P then x5 else FlushBytes c)\<rparr>"
  "(if P then c\<lparr>ApplicationName := x6\<rparr> else c) = c\<lparr>ApplicationName := (if P then x6 else ApplicationName c)\<rparr>"
  "(if P then c\<lparr>Keepalive := x7\<rparr> else c) = c\<lparr>Keepalive := (if P then x7 else Keepalive c)\<rparr>"
  "(if P then c\<lparr>WireReadBufferSize := x8\<rparr> else if Q then c\<lparr>WireReadBufferSize := x9\<rparr> else c) =
   c\<lparr>WireReadBufferSize := (if P then x8 else if Q then x9 else WireReadBufferSize c)\<rparr>"
  by simp_all

lemma applyDefaults_alt:
  "applyDefaults c =
     c\<lparr>Host := (if Host c = [] then bs ''127.0.0.1'' else Host c),
       Port := (if Port c = 0 then 5432 else Port c),
       User := (if User c = [] then bs ''postgres'' else User c),
       Database := (if Database c = [] then (if User c = [] then bs ''postgres'' else User c) else Database c),
       DialTimeout := (if DialTimeout c = 0 then 10 * time_Second else DialTimeout c),
       FlushBytes := (if FlushBytes c \<le> 0 then 32 * 1024 else FlushBytes c),
       ApplicationName := (if ApplicationName c = [] then bs ''pg2json'' else ApplicationName c),
       Keepalive := (if Keepalive c = 0 then 30 * time_Second else Keepalive c),
       WireReadBufferSize :=
         (if WireReadBufferSize c \<le> 0 then 128 * 1024
          else if WireReadBufferSize c < 4 * 1024 then 4 * 1024 else WireReadBufferSize c)\<rparr>"
  by (simp add: applyDefaults_def Let_def guarded_update cong: if_cong split del: if_split)

definition complete :: "Config \<Rightarrow> bool" where
  "complete c \<longleftrightarrow>
     Host c \<noteq> [] \<and> Port c \<noteq> 0 \<and> User c \<noteq> [] \<and> Database c \<noteq> [] \<and> DialTimeout c \<noteq> 0 \<and> 0 < FlushBytes c \<and>
     ApplicationName c \<noteq> [] \<and> Keepalive c \<noteq> 0 \<and> 4096 \<le> WireReadBufferSize c"

text \<open>
  The defaults complete every configuration, change nothing of a complete one, and so are
  idempotent: explicit settings always win.
\<close>

theorem defaults_complete:
  "complete (applyDefaults c) \<and> (complete c \<longrightarrow> applyDefaults c = c) \<and> applyDefaults (applyDefaults c) = applyDefaults c"
proof -
  have 1: "complete c \<Longrightarrow> applyDefaults c = c" for c by (simp add: complete_def applyDefaults_alt)
  have 2: "complete (applyDefaults c)" by (simp add: complete_def applyDefaults_alt time_Second_def)
  show ?thesis using 1 2 by blast
qed

theorem defaults_complete_witness:
  "complete (applyDefaults zero_Config) \<and> applyDefaults (applyDefaults zero_Config) = applyDefaults zero_Config"
  using defaults_complete [of zero_Config] by blast

text \<open>
  A configuration that leaves the mode unset connects in plain text: the zero value is
  \<open>SSLDisable\<close>, and the defaults do not change it.
\<close>

lemma zero_value_disables_tls: "buildTLS (applyDefaults zero_Config) = None"
  by (simp add: buildTLS_def applyDefaults_alt zero_Config_def)

end
