(* ===== verification/StmtCache.thy ===== *)
theory StmtCache
  imports Rows Transition "HOL-Library.AList" "HOL-Library.Multiset"
begin

text \<open>
  \<open>pg2json/stmtcache.go\<close>: the prepared-statement cache of a connection. The Go map is an
  association list with distinct keys; which entry an eviction drops (Go's random map order) is an
  argument. The mutex makes every method one step. Shown: the cache contract, the capacity bound,
  that generated names are pairwise different, and that no statement of the server is lost or
  closed while it is still cached.
\<close>

section \<open>State and operations\<close>

record preparedStmt =
  st_name :: bytes
  st_plan :: Plan
  st_resultFmts :: "int list"

record stmtCache =
  sc_max :: int
  sc_byKey :: "(bytes \<times> preparedStmt) list"
  sc_closed :: "bytes list"
  sc_seq :: "64 word"

definition newStmtCache :: "int \<Rightarrow> stmtCache" where
  "newStmtCache max' =
     (let max' = (if max' \<le> 0 then 64 else max') in
      \<lparr>sc_max = max', sc_byKey = [], sc_closed = [], sc_seq = 0\<rparr>)"

definition sc_get :: "bytes \<Rightarrow> stmtCache \<Rightarrow> preparedStmt option" where
  "sc_get sql sc = map_of (sc_byKey sc) sql"

text \<open>The body of the eviction loop, on the entry the iteration meets first.\<close>

definition evict :: "nat \<Rightarrow> stmtCache \<Rightarrow> stmtCache" where
  "evict choice sc =
     (if sc_byKey sc = [] then sc
      else
        let (k, v) = sc_byKey sc ! (choice mod length (sc_byKey sc)) in
        sc\<lparr>sc_closed := sc_closed sc @ [st_name v], sc_byKey := AList.delete k (sc_byKey sc)\<rparr>)"

definition sc_put :: "nat \<Rightarrow> bytes \<Rightarrow> preparedStmt \<Rightarrow> stmtCache \<Rightarrow> stmtCache" where
  "sc_put choice sql st sc =
     (let sc = (if int (length (sc_byKey sc)) \<ge> sc_max sc then evict choice sc else sc) in
      sc\<lparr>sc_byKey := AList.update sql st (sc_byKey sc)\<rparr>)"

definition takePendingClose :: "stmtCache \<Rightarrow> stmtCache \<times> bytes list" where
  "takePendingClose sc =
     (if length (sc_closed sc) = 0 then (sc, []) else (sc\<lparr>sc_closed := []\<rparr>, sc_closed sc))"

text \<open>\<open>strconv.AppendUint(dst, n, 36)\<close>: the appended digits.\<close>

definition digit36 :: "nat \<Rightarrow> byte" where
  "digit36 d = (if d < 10 then word_of_nat (48 + d) else word_of_nat (87 + d))"

fun base36 :: "nat \<Rightarrow> bytes" where
  "base36 n = (if n < 36 then [digit36 n] else base36 (n div 36) @ [digit36 (n mod 36)])"

declare base36.simps [simp del]

definition nextName :: "stmtCache \<Rightarrow> stmtCache \<times> bytes" where
  "nextName sc =
     (let sc = sc\<lparr>sc_seq := sc_seq sc + 1\<rparr>;
          n = sc_seq sc
      in (sc, [115, 95] @ base36 (unat n)))"

definition sc_invalidate :: "bytes \<Rightarrow> stmtCache \<Rightarrow> stmtCache" where
  "sc_invalidate sql sc =
     (case map_of (sc_byKey sc) sql of
        Some st \<Rightarrow> sc\<lparr>sc_closed := sc_closed sc @ [st_name st], sc_byKey := AList.delete sql (sc_byKey sc)\<rparr>
      | None \<Rightarrow> sc)"

text \<open>\<open>hash/fnv\<close>'s 64-bit FNV-1a.\<close>

definition hashKey :: "bytes \<Rightarrow> 64 word" where
  "hashKey s = foldl (\<lambda>h b. (h XOR ucast b) * 1099511628211) 14695981039346656037 s"

section \<open>Names\<close>

definition val36 :: "bytes \<Rightarrow> nat" where
  "val36 s = foldl (\<lambda>a c. 36 * a + (if unat c < 87 then unat c - 48 else unat c - 87)) 0 s"

lemma unat_digit36: "d < 36 \<Longrightarrow> unat (digit36 d) = (if d < 10 then 48 + d else 87 + d)"
  unfolding digit36_def if_distrib [of unat] unsigned_of_nat by (simp add: take_bit_eq_mod)

lemma val36_base36 [simp]: "val36 (base36 n) = n"
proof (induction n rule: base36.induct)
  case (1 n)
  have d: "(if unat (digit36 d) < 87 then unat (digit36 d) - 48 else unat (digit36 d) - 87) = d" if "d < 36" for d
    using that by (simp add: unat_digit36)
  have "val36 (s @ [digit36 d]) = 36 * val36 s + d" if "d < 36" for s d
    using d [OF that] by (simp add: val36_def)
  from this [of n "[]"] this [of "n mod 36" "base36 (n div 36)"] 1 show ?case
    by (subst base36.simps) (simp add: val36_def)
qed

definition stmt_name :: "64 word \<Rightarrow> bytes" where
  "stmt_name n = [115, 95] @ base36 (unat n)"

lemma stmt_name_inj: "stmt_name a = stmt_name b \<longleftrightarrow> a = b"
  unfolding stmt_name_def using val36_base36 by (metis append_same_eq same_append_eq unsigned_word_eqI)

lemma nextName_alt: "nextName sc = (sc\<lparr>sc_seq := sc_seq sc + 1\<rparr>, stmt_name (sc_seq sc + 1))"
  by (simp add: nextName_def Let_def stmt_name_def)

section \<open>The cache contract\<close>

text \<open>
  What the query engine relies on: a statement that was put is found, another key is never
  invented, invalidating forgets exactly its key.
\<close>

locale stmt_store =
  fixes wf :: "'s \<Rightarrow> bool"
    and lookup :: "'k \<Rightarrow> 's \<Rightarrow> 'v option"
    and insert' :: "nat \<Rightarrow> 'k \<Rightarrow> 'v \<Rightarrow> 's \<Rightarrow> 's"
    and forget :: "'k \<Rightarrow> 's \<Rightarrow> 's"
  assumes wf_insert: "wf s \<Longrightarrow> wf (insert' c k v s)"
    and wf_forget: "wf s \<Longrightarrow> wf (forget k s)"
    and lookup_insert: "wf s \<Longrightarrow> lookup k (insert' c k v s) = Some v"
    and lookup_insert_other: "wf s \<Longrightarrow> k' \<noteq> k \<Longrightarrow> lookup k' (insert' c k v s) = Some x \<Longrightarrow> lookup k' s = Some x"
    and lookup_forget: "wf s \<Longrightarrow> lookup k' (forget k s) = (if k' = k then None else lookup k' s)"
begin

text \<open>The engine's use: look up, else build and insert.\<close>

definition fetch :: "nat \<Rightarrow> 'k \<Rightarrow> 'v \<Rightarrow> 's \<Rightarrow> 's \<times> 'v" where
  "fetch c k v s = (case lookup k s of Some x \<Rightarrow> (s, x) | None \<Rightarrow> (insert' c k v s, v))"

lemma fetch_cached: "wf s \<Longrightarrow> fetch c k v s = (s', x) \<Longrightarrow> wf s' \<and> lookup k s' = Some x"
  by (auto simp: fetch_def lookup_insert wf_insert split: option.splits)

lemma fetch_hit: "wf s \<Longrightarrow> fetch c k v s = (s', x) \<Longrightarrow> fetch c' k v' s' = (s', x)"
  using fetch_cached [of s c k v s' x] by (simp add: fetch_def)

lemma refetch: "wf s \<Longrightarrow> fetch c k v (forget k s) = (s', x) \<Longrightarrow> x = v \<and> lookup k s' = Some v"
  by (auto simp: fetch_def lookup_forget lookup_insert wf_forget split: option.splits)

end

definition sc_wf :: "stmtCache \<Rightarrow> bool" where
  "sc_wf sc \<longleftrightarrow> distinct (map fst (sc_byKey sc)) \<and> 0 < sc_max sc"

lemma sc_wf_evict: "sc_wf sc \<Longrightarrow> sc_wf (evict c sc)"
  by (auto simp: sc_wf_def evict_def Let_def distinct_delete split: prod.splits)

lemma evict_lookup: "sc_wf sc \<Longrightarrow> map_of (sc_byKey (evict c sc)) k = Some x \<Longrightarrow> map_of (sc_byKey sc) k = Some x"
  by (auto simp: evict_def Let_def delete_conv' split: prod.splits if_splits)

interpretation sc: stmt_store sc_wf sc_get sc_put sc_invalidate
proof
  fix s c k k' v x
  assume wf: "sc_wf s"
  show "sc_wf (sc_put c k v s)"
    using sc_wf_evict [OF wf, of c] wf by (auto simp: sc_put_def Let_def sc_wf_def distinct_update)
  show "sc_wf (sc_invalidate k s)"
    using wf by (auto simp: sc_invalidate_def sc_wf_def distinct_delete split: option.splits)
  show "sc_get k (sc_put c k v s) = Some v"
    by (simp add: sc_get_def sc_put_def Let_def update_conv')
  show "k' \<noteq> k \<Longrightarrow> sc_get k' (sc_put c k v s) = Some x \<Longrightarrow> sc_get k' s = Some x"
    using evict_lookup [OF wf, of c k' x] by (auto simp: sc_get_def sc_put_def Let_def update_conv' split: if_splits)
  show "sc_get k' (sc_invalidate k s) = (if k' = k then None else sc_get k' s)"
    by (auto simp: sc_get_def sc_invalidate_def delete_conv' split: option.splits)
qed

section \<open>The cache and the server\<close>

text \<open>
  The names of the cache, and the session's prepared statements on the server. A prepare takes a
  fresh name, closes the pending names and parses the statement (\<open>prepareAndDescribe\<close> in
  \<open>query.go\<close>), and is followed by \<open>put\<close>, under a key the cache did not hold (\<open>runCached\<close>); when the
  server refuses it, by \<open>invalidate\<close>. The counter has not gone through all 64-bit values.
\<close>

definition cached_names :: "stmtCache \<Rightarrow> bytes list" where
  "cached_names sc = map (st_name \<circ> snd) (sc_byKey sc)"

record cache_world =
  cw_sc :: stmtCache
  cw_server :: "bytes set"

datatype sc_event = Prepared nat bytes Plan "int list" | PrepareFailed bytes | Stale bytes

inductive cw_step :: "cache_world \<Rightarrow> sc_event \<Rightarrow> cache_world \<Rightarrow> bool" where
  prepared: "sc_get sql (cw_sc w) = None \<Longrightarrow> nextName (cw_sc w) = (sc1, name) \<Longrightarrow> sc_seq sc1 \<noteq> 0 \<Longrightarrow>
     takePendingClose sc1 = (sc2, dead) \<Longrightarrow>
     cw_step w (Prepared c sql p fmts)
       \<lparr>cw_sc = sc_put c sql \<lparr>st_name = name, st_plan = p, st_resultFmts = fmts\<rparr> sc2,
        cw_server = insert name (cw_server w - set dead)\<rparr>"
| prepareFailed: "sc_get sql (cw_sc w) = None \<Longrightarrow> nextName (cw_sc w) = (sc1, name) \<Longrightarrow> sc_seq sc1 \<noteq> 0 \<Longrightarrow>
     takePendingClose sc1 = (sc2, dead) \<Longrightarrow>
     cw_step w (PrepareFailed sql) \<lparr>cw_sc = sc_invalidate sql sc2, cw_server = cw_server w - set dead\<rparr>"
| stale: "cw_step w (Stale sql) (w\<lparr>cw_sc := sc_invalidate sql (cw_sc w)\<rparr>)"

inductive_cases cw_stepE: "cw_step w e w'"

definition cw_start :: "int \<Rightarrow> cache_world \<Rightarrow> bool" where
  "cw_start m w \<longleftrightarrow> w = \<lparr>cw_sc = newStmtCache m, cw_server = {}\<rparr>"

definition names_ok :: "stmtCache \<Rightarrow> bool" where
  "names_ok sc \<longleftrightarrow>
     distinct (cached_names sc @ sc_closed sc) \<and>
     (\<forall>n \<in> set (cached_names sc @ sc_closed sc). \<exists>i. n = stmt_name i \<and> i \<le> sc_seq sc)"

definition sc_inv :: "stmtCache \<Rightarrow> bool" where
  "sc_inv sc \<longleftrightarrow> sc_wf sc \<and> int (length (sc_byKey sc)) \<le> sc_max sc \<and> names_ok sc"

lemma delete_mset:
  "distinct (map fst al) \<Longrightarrow> (k, v) \<in> set al \<Longrightarrow> mset al = add_mset (k, v) (mset (AList.delete k al))"
proof (induction al)
  case (Cons a al)
  show ?case
  proof (cases "a = (k, v)")
    case True
    then have "k \<notin> fst ` set al" using Cons.prems(1) by simp
    with True show ?thesis by (simp add: delete_idem)
  next
    case False
    with Cons.prems have "(k, v) \<in> set al" "fst a \<noteq> k" by (cases a; force)+
    with Cons show ?thesis by (cases a) simp
  qed
qed simp

lemma moved_names:
  assumes "sc_wf sc" "(k, v) \<in> set (sc_byKey sc)"
    "sc' = sc\<lparr>sc_closed := sc_closed sc @ [st_name v], sc_byKey := AList.delete k (sc_byKey sc)\<rparr>"
  shows "mset (cached_names sc' @ sc_closed sc') = mset (cached_names sc @ sc_closed sc)"
    "sc_seq sc' = sc_seq sc" "sc_max sc' = sc_max sc" "length (sc_byKey sc') < length (sc_byKey sc)"
proof -
  have m: "mset (sc_byKey sc) = add_mset (k, v) (mset (AList.delete k (sc_byKey sc)))"
    using delete_mset assms(1,2) by (auto simp: sc_wf_def)
  then show "mset (cached_names sc' @ sc_closed sc') = mset (cached_names sc @ sc_closed sc)"
    by (simp add: cached_names_def assms(3))
  show "sc_seq sc' = sc_seq sc" "sc_max sc' = sc_max sc" by (simp_all add: assms(3))
  from arg_cong [OF m, of size] show "length (sc_byKey sc') < length (sc_byKey sc)" by (simp add: assms(3))
qed

lemma names_ok_mset:
  assumes "mset (cached_names sc' @ sc_closed sc') = mset (cached_names sc @ sc_closed sc)" "sc_seq sc' = sc_seq sc"
  shows "names_ok sc' \<longleftrightarrow> names_ok sc"
  using mset_eq_imp_distinct_iff [OF assms(1)] mset_eq_setD [OF assms(1)] assms(2) by (simp add: names_ok_def)

lemma evict_moves:
  assumes "sc_wf sc" "sc_byKey sc \<noteq> []"
  shows "\<exists>k v. (k, v) \<in> set (sc_byKey sc) \<and>
           evict c sc = sc\<lparr>sc_closed := sc_closed sc @ [st_name v], sc_byKey := AList.delete k (sc_byKey sc)\<rparr>"
proof -
  let ?i = "c mod length (sc_byKey sc)"
  obtain k v where kv: "sc_byKey sc ! ?i = (k, v)" by fastforce
  have "sc_byKey sc ! ?i \<in> set (sc_byKey sc)" using assms(2) by (intro nth_mem) simp
  with kv show ?thesis using assms(2) by (auto simp: evict_def)
qed

lemma sc_inv_invalidate:
  assumes "sc_inv sc"
  shows "sc_inv (sc_invalidate sql sc)"
    "mset (cached_names (sc_invalidate sql sc) @ sc_closed (sc_invalidate sql sc)) = mset (cached_names sc @ sc_closed sc)"
proof -
  have "sc_inv (sc_invalidate sql sc) \<and>
    mset (cached_names (sc_invalidate sql sc) @ sc_closed (sc_invalidate sql sc)) = mset (cached_names sc @ sc_closed sc)"
  proof (cases "map_of (sc_byKey sc) sql")
    case None
    then show ?thesis using assms by (simp add: sc_invalidate_def)
  next
    case (Some st)
    then have i: "sc_invalidate sql sc =
        sc\<lparr>sc_closed := sc_closed sc @ [st_name st], sc_byKey := AList.delete sql (sc_byKey sc)\<rparr>"
      by (simp add: sc_invalidate_def)
    have wf: "sc_wf sc" using assms by (simp add: sc_inv_def)
    note m = moved_names [OF wf map_of_SomeD [OF Some] i]
    show ?thesis using m(1) names_ok_mset [OF m(1,2)] m(3,4) assms sc.wf_forget [OF wf, of sql] by (auto simp: sc_inv_def)
  qed
  then show "sc_inv (sc_invalidate sql sc)"
    "mset (cached_names (sc_invalidate sql sc) @ sc_closed (sc_invalidate sql sc)) = mset (cached_names sc @ sc_closed sc)"
    by blast+
qed

lemma update_absent: "k \<notin> fst ` set al \<Longrightarrow> AList.update k v al = al @ [(k, v)]"
  by (induction al) auto

lemma sc_inv_put:
  assumes "sc_inv sc" "sc_get sql sc = None" "st_name st = stmt_name i" "i \<le> sc_seq sc"
    "st_name st \<notin> set (cached_names sc @ sc_closed sc)"
  shows "sc_inv (sc_put c sql st sc)"
    "mset (cached_names (sc_put c sql st sc) @ sc_closed (sc_put c sql st sc)) =
     add_mset (st_name st) (mset (cached_names sc @ sc_closed sc))"
proof -
  define sc1 where "sc1 = (if int (length (sc_byKey sc)) \<ge> sc_max sc then evict c sc else sc)"
  have wf: "sc_wf sc" and len: "int (length (sc_byKey sc)) \<le> sc_max sc" and ok: "names_ok sc"
    using assms(1) by (simp_all add: sc_inv_def)
  have wf1: "sc_wf sc1" using wf sc_wf_evict by (simp add: sc1_def)
  have 1: "mset (cached_names sc1 @ sc_closed sc1) = mset (cached_names sc @ sc_closed sc) \<and> sc_seq sc1 = sc_seq sc \<and>
      sc_max sc1 = sc_max sc \<and> int (length (sc_byKey sc1)) < sc_max sc"
  proof (cases "int (length (sc_byKey sc)) \<ge> sc_max sc")
    case True
    then have "sc_byKey sc \<noteq> []" using wf by (auto simp: sc_wf_def)
    from evict_moves [OF wf this, of c] obtain k v where kv: "(k, v) \<in> set (sc_byKey sc)"
      "evict c sc = sc\<lparr>sc_closed := sc_closed sc @ [st_name v], sc_byKey := AList.delete k (sc_byKey sc)\<rparr>" by blast
    from moved_names [OF wf this] show ?thesis using True len by (simp add: sc1_def)
  qed (use len in \<open>simp add: sc1_def\<close>)
  have "sql \<notin> fst ` set (sc_byKey sc1)"
  proof
    assume "sql \<in> fst ` set (sc_byKey sc1)"
    then obtain x where "map_of (sc_byKey sc1) sql = Some x" by (meson map_of_eq_None_iff not_None_eq)
    then have "map_of (sc_byKey sc) sql = Some x" using evict_lookup [OF wf] by (auto simp: sc1_def split: if_splits)
    then show False using assms(2) by (simp add: sc_get_def)
  qed
  from update_absent [OF this, of st] have p: "sc_put c sql st sc = sc1\<lparr>sc_byKey := sc_byKey sc1 @ [(sql, st)]\<rparr>"
    by (simp add: sc_put_def Let_def sc1_def)
  show m: "mset (cached_names (sc_put c sql st sc) @ sc_closed (sc_put c sql st sc)) =
     add_mset (st_name st) (mset (cached_names sc @ sc_closed sc))"
    using 1 by (simp add: p cached_names_def)
  have seq: "sc_seq (sc_put c sql st sc) = sc_seq sc" using 1 by (simp add: p)
  have "mset (cached_names (sc_put c sql st sc) @ sc_closed (sc_put c sql st sc)) =
        mset (st_name st # cached_names sc @ sc_closed sc)" using m by simp
  from mset_eq_imp_distinct_iff [OF this] mset_eq_setD [OF this]
  have "names_ok (sc_put c sql st sc)" using ok assms(3-5) by (auto simp: names_ok_def seq)
  then show "sc_inv (sc_put c sql st sc)"
    using 1 sc.wf_insert [OF wf, of c sql st] by (simp add: sc_inv_def) (simp add: p)
qed

definition cw_inv :: "cache_world \<Rightarrow> bool" where
  "cw_inv w \<longleftrightarrow> sc_inv (cw_sc w) \<and> cw_server w = set (cached_names (cw_sc w)) \<union> set (sc_closed (cw_sc w))"

text \<open>The first half of a prepare: a fresh name, and nothing left to close.\<close>

lemma prepare_inv:
  assumes "sc_inv sc" "nextName sc = (sc1, name)" "sc_seq sc1 \<noteq> 0" "takePendingClose sc1 = (sc2, dead)"
  shows "sc_inv sc2" "dead = sc_closed sc" "sc_closed sc2 = []" "sc_byKey sc2 = sc_byKey sc"
    "name = stmt_name (sc_seq sc2)" "name \<notin> set (cached_names sc)"
proof -
  have sc1: "sc1 = sc\<lparr>sc_seq := sc_seq sc + 1\<rparr>" "name = stmt_name (sc_seq sc + 1)"
    using assms(2) by (simp_all add: nextName_alt)
  have sc2: "sc2 = sc1\<lparr>sc_closed := []\<rparr>" "dead = sc_closed sc"
    using assms(4) by (auto simp: takePendingClose_def sc1 split: if_splits)
  have lt: "sc_seq sc < sc_seq sc + 1" using assms(3) sc1(1) unatSuc [of "sc_seq sc"] by (simp add: word_less_nat_alt add.commute)
  have ok: "names_ok sc" using assms(1) by (simp add: sc_inv_def)
  show "dead = sc_closed sc" "sc_closed sc2 = []" "sc_byKey sc2 = sc_byKey sc" "name = stmt_name (sc_seq sc2)"
    by (simp_all add: sc1 sc2)
  show "name \<notin> set (cached_names sc)"
  proof
    assume "name \<in> set (cached_names sc)"
    then obtain i where "name = stmt_name i" "i \<le> sc_seq sc" using ok by (auto simp: names_ok_def)
    then show False using lt by (simp add: sc1 stmt_name_inj)
  qed
  have "cached_names sc2 @ sc_closed sc2 = cached_names sc" "sc_seq sc \<le> sc_seq sc2"
    using lt by (simp_all add: sc1 sc2 cached_names_def)
  moreover have "distinct (cached_names sc)" "\<forall>n \<in> set (cached_names sc). \<exists>i. n = stmt_name i \<and> i \<le> sc_seq sc"
    using ok by (simp_all add: names_ok_def)
  ultimately have "names_ok sc2" unfolding names_ok_def by (metis order_trans)
  then show "sc_inv sc2" using assms(1) by (simp add: sc_inv_def sc_wf_def sc1 sc2)
qed

interpretation cw: inductive_invariant "cw_start m" cw_step cw_inv for m
proof
  show "cw_start m w \<Longrightarrow> cw_inv w" for w
    by (simp add: cw_start_def cw_inv_def newStmtCache_def sc_inv_def sc_wf_def names_ok_def cached_names_def)
  fix w e w'
  assume inv: "cw_inv w"
  then have sc: "sc_inv (cw_sc w)" by (simp add: cw_inv_def)
  assume "cw_step w e w'"
  then show "cw_inv w'"
  proof (cases rule: cw_step.cases)
    case (prepared sql sc1 name sc2 dead c p fmts)
    note pr = prepare_inv [OF sc prepared(4-6)]
    let ?st = "\<lparr>st_name = name, st_plan = p, st_resultFmts = fmts\<rparr>"
    have abs: "sc_get sql sc2 = None" using prepared(3) pr(4) by (simp add: sc_get_def)
    have "name \<notin> set (cached_names sc2 @ sc_closed sc2)" using pr(3,4,6) by (simp add: cached_names_def)
    note put = sc_inv_put [OF pr(1) abs, of ?st "sc_seq sc2" c]
    have m: "mset (cached_names (sc_put c sql ?st sc2) @ sc_closed (sc_put c sql ?st sc2)) =
        mset (name # cached_names (cw_sc w))" and i: "sc_inv (sc_put c sql ?st sc2)"
      using put pr(3-6) by (simp_all add: cached_names_def)
    have "set (sc_closed (cw_sc w)) \<inter> set (cached_names (cw_sc w)) = {}" using sc by (auto simp: sc_inv_def names_ok_def)
    then show ?thesis using mset_eq_setD [OF m] i inv pr(2) by (auto simp: cw_inv_def prepared)
  next
    case (prepareFailed sql sc1 name sc2 dead)
    note pr = prepare_inv [OF sc prepareFailed(4-6)]
    note iv = sc_inv_invalidate [OF pr(1), of sql]
    have "set (sc_closed (cw_sc w)) \<inter> set (cached_names (cw_sc w)) = {}" using sc by (auto simp: sc_inv_def names_ok_def)
    then show ?thesis using iv(1) mset_eq_setD [OF iv(2)] inv pr(2-4)
      by (auto simp: cw_inv_def prepareFailed cached_names_def)
  next
    case (stale sql)
    show ?thesis using sc_inv_invalidate [OF sc, of sql] mset_eq_setD [OF sc_inv_invalidate(2) [OF sc, of sql]] inv
      by (auto simp: cw_inv_def stale)
  qed
qed

section \<open>Properties\<close>



end
