(* ===== verification/Select_Guard.thy ===== *)
theory Select_Guard
  imports Crypto Pgerr "HOL-Library.Sublist"
begin

text \<open>
  \<open>rejectNonSelect\<close> of \<open>pg2json/conn.go\<close>: the guard that admits only SELECT-shaped statements.
  \<open>strings.ToUpper\<close> matters only for the ASCII letters it can produce: those of ASCII letters, and
  of the two other runes whose upper case is an ASCII letter (U+0131 and U+017F); every other
  non-ASCII rune stays non-ASCII and is left as it is here. Shown: exactly which statements pass.
\<close>

section \<open>The guard\<close>

definition ws_byte :: "byte \<Rightarrow> bool" where
  "ws_byte b \<longleftrightarrow> b = 32 \<or> b = 9 \<or> b = 10 \<or> b = 13"

definition TrimLeft_ws :: "bytes \<Rightarrow> bytes" where
  "TrimLeft_ws s = dropWhile ws_byte s"

lemma length_TrimLeft_ws: "length (TrimLeft_ws s) \<le> length s"
  by (simp add: TrimLeft_ws_def length_dropWhile_le)

text \<open>\<open>strings.Index(s, "*/")\<close>: the position of the first occurrence, or -1.\<close>

fun Index_close :: "bytes \<Rightarrow> int" where
  "Index_close (a # b # r) =
     (if a = 42 \<and> b = 47 then 0 else let i = Index_close (b # r) in if i < 0 then - 1 else i + 1)"
| "Index_close _ = - 1"

function strip_line_comments :: "bytes \<Rightarrow> bytes" where
  "strip_line_comments s =
     (if HasPrefix s (bs ''--'') then
        let idx = IndexByte s 10 in
        if idx \<ge> 0 then strip_line_comments (TrimLeft_ws (drop (nat idx + 1) s)) else []
      else s)"
  by pat_completeness auto
termination
proof (relation "measure length")
  fix s :: bytes and idx
  assume "HasPrefix s (bs ''--'')"
  then have "s \<noteq> []" by (auto simp: HasPrefix_def)
  then have "length (drop (nat idx + 1) s) < length s" by simp
  then show "(TrimLeft_ws (drop (nat idx + 1) s), s) \<in> measure length"
    using length_TrimLeft_ws [of "drop (nat idx + 1) s"] by simp
qed simp

function strip_block_comments :: "bytes \<Rightarrow> bytes" where
  "strip_block_comments s =
     (if HasPrefix s (bs ''/*'') then
        let end = Index_close s in
        if end < 0 then [] else strip_block_comments (TrimLeft_ws (drop (nat end + 2) s))
      else s)"
  by pat_completeness auto
termination
proof (relation "measure length")
  fix s :: bytes and i
  assume "HasPrefix s (bs ''/*'')"
  then have "s \<noteq> []" by (auto simp: HasPrefix_def)
  then have "length (drop (nat i + 2) s) < length s" by simp
  then show "(TrimLeft_ws (drop (nat i + 2) s), s) \<in> measure length"
    using length_TrimLeft_ws [of "drop (nat i + 2) s"] by simp
qed simp

declare strip_line_comments.simps [simp del] strip_block_comments.simps [simp del]

fun ToUpper :: "bytes \<Rightarrow> bytes" where
  "ToUpper [] = []"
| "ToUpper [c] = [if 97 \<le> c \<and> c \<le> 122 then c - 32 else c]"
| "ToUpper (c # d # r) =
     (if c = 196 \<and> d = 177 then 73 # ToUpper r
      else if c = 197 \<and> d = 191 then 83 # ToUpper r
      else (if 97 \<le> c \<and> c \<le> 122 then c - 32 else c) # ToUpper (d # r))"

definition select_keywords :: "bytes list" where
  "select_keywords = [bs ''SELECT'', bs ''WITH'', bs ''VALUES'', bs ''TABLE'', bs ''SHOW'']"

text \<open>The guard gives whether the statement is rejected.\<close>

definition rejectNonSelect :: "bytes \<Rightarrow> bool" where
  "rejectNonSelect sql =
     (let s = TrimLeft_ws sql;
          s = strip_line_comments s;
          s = strip_block_comments s;
          upper = ToUpper s
      in \<not> list_ex (HasPrefix upper) select_keywords)"

section \<open>Its language\<close>

definition ws :: "bytes \<Rightarrow> bool" where
  "ws u \<longleftrightarrow> list_all ws_byte u"

text \<open>A comment with the white space after it.\<close>

definition line_item :: "bytes \<Rightarrow> bool" where
  "line_item x \<longleftrightarrow> (\<exists>y u. x = bs ''--'' @ y @ [10] @ u \<and> 10 \<notin> set y \<and> ws u)"

definition block_item :: "bytes \<Rightarrow> bool" where
  "block_item x \<longleftrightarrow>
     (\<exists>y u. x = y @ bs ''*/'' @ u \<and> HasPrefix (y @ bs ''*/'') (bs ''/*'') \<and> \<not> sublist (bs ''*/'') (y @ [42]) \<and> ws u)"

definition keyword_start :: "bytes \<Rightarrow> bool" where
  "keyword_start s \<longleftrightarrow> (\<exists>kw \<in> set select_keywords. HasPrefix (ToUpper s) kw)"

lemma TrimLeft_ws_append: "ws u \<Longrightarrow> TrimLeft_ws (u @ t) = TrimLeft_ws t"
  by (simp add: TrimLeft_ws_def ws_def list_all_iff dropWhile_append2)

lemma TrimLeft_ws_split: "\<exists>u. ws u \<and> s = u @ TrimLeft_ws s"
  by (rule exI [of _ "takeWhile ws_byte s"]) (auto simp: TrimLeft_ws_def ws_def list_all_iff dest: set_takeWhileD)

lemma TrimLeft_ws_id: "t = [] \<or> \<not> ws_byte (hd t) \<Longrightarrow> TrimLeft_ws t = t"
  by (cases t) (auto simp: TrimLeft_ws_def)

lemma keyword_start_hd:
  assumes "keyword_start s"
  shows "s \<noteq> []" "\<not> ws_byte (hd s)" "hd s \<noteq> 45" "hd s \<noteq> 47"
proof -
  have "s \<noteq> [] \<and> \<not> ws_byte (hd s) \<and> hd s \<noteq> 45 \<and> hd s \<noteq> 47"
    using assms
    by (cases s rule: ToUpper.cases) (auto simp: keyword_start_def select_keywords_def HasPrefix_def ws_byte_def split: if_splits)
  then show "s \<noteq> []" "\<not> ws_byte (hd s)" "hd s \<noteq> 45" "hd s \<noteq> 47" by blast+
qed

lemma Index_close_first: "\<not> sublist [42, 47] (y @ [42]) \<Longrightarrow> Index_close (y @ 42 # 47 # r) = int (length y)"
proof (induction y)
  case (Cons a y)
  have "\<not> sublist [42, 47] (y @ [42])" using Cons.prems by (auto simp: sublist_Cons_right)
  note IH = Cons.IH [OF this]
  show ?case
  proof (cases y)
    case Nil
    then show ?thesis using IH by auto
  next
    case (Cons b y')
    have "\<not> (a = 42 \<and> b = 47)"
    proof
      assume "a = 42 \<and> b = 47"
      then have "(a # y) @ [42] = [] @ [42, 47] @ (y' @ [42])" by (simp add: Cons)
      then show False using Cons.prems by (metis sublist_appendI)
    qed
    then show ?thesis using IH by (simp add: Cons)
  qed
qed simp

lemma Index_close_present:
  "0 \<le> Index_close s \<Longrightarrow>
   \<exists>y r. s = y @ 42 # 47 # r \<and> Index_close s = int (length y) \<and> \<not> sublist [42, 47] (y @ [42])"
proof (induction s rule: Index_close.induct)
  case (1 a b r)
  show ?case
  proof (cases "a = 42 \<and> b = 47")
    case True
    then show ?thesis by (intro exI [of _ "[]"] exI [of _ r]) (simp add: sublist_Cons_right)
  next
    case False
    with "1.prems" have "0 \<le> Index_close (b # r)" by (auto simp: Let_def split: if_splits)
    with 1 False obtain y r' where y: "b # r = y @ 42 # 47 # r'" "Index_close (b # r) = int (length y)"
      "\<not> sublist [42, 47] (y @ [42])" by blast
    have "\<not> prefix [42, 47] (a # y @ [42])" using False y(1) by (cases y) auto
    then have "\<not> sublist [42, 47] ((a # y) @ [42])" using y(3) by (simp add: sublist_Cons_right)
    moreover have "a # b # r = (a # y) @ 42 # 47 # r'" using y(1) by simp
    moreover have "Index_close (a # b # r) = int (length (a # y))" using False y(2) by simp
    ultimately show ?thesis by blast
  qed
qed auto

lemma item_hd: "line_item x \<Longrightarrow> x \<noteq> [] \<and> hd x = 45" "block_item x \<Longrightarrow> x \<noteq> [] \<and> hd x = 47"
proof -
  show "line_item x \<Longrightarrow> x \<noteq> [] \<and> hd x = 45" by (auto simp: line_item_def)
  assume "block_item x"
  then obtain y u where "x = y @ bs ''*/'' @ u" "HasPrefix (y @ bs ''*/'') (bs ''/*'')" by (auto simp: block_item_def)
  then show "x \<noteq> [] \<and> hd x = 47" by (cases y) (auto simp: HasPrefix_def)
qed

lemma items_hd:
  "list_all line_item ls \<Longrightarrow> ls = [] \<or> hd (concat ls @ t) = 45" "list_all block_item bl \<Longrightarrow> bl = [] \<or> hd (concat bl @ t) = 47"
proof -
  show "list_all line_item ls \<Longrightarrow> ls = [] \<or> hd (concat ls @ t) = 45" using item_hd(1) by (cases ls) auto
  show "list_all block_item bl \<Longrightarrow> bl = [] \<or> hd (concat bl @ t) = 47" using item_hd(2) by (cases bl) auto
qed

text \<open>A prefix of two bytes is decided by any two bytes.\<close>

lemma HasPrefix_long: "HasPrefix (y @ a # b # r) [c, d] \<longleftrightarrow> HasPrefix (y @ [a, b]) [c, d]"
  by (cases y rule: ToUpper.cases) (auto simp: HasPrefix_def)

lemma strip_lines_sound:
  "strip_line_comments s = [] \<or> (\<exists>ls. s = concat ls @ strip_line_comments s \<and> list_all line_item ls)"
proof (induction s rule: strip_line_comments.induct)
  case (1 s)
  consider "\<not> HasPrefix s (bs ''--'')" | "HasPrefix s (bs ''--'')" "IndexByte s 10 < 0"
    | "HasPrefix s (bs ''--'')" "0 \<le> IndexByte s 10" by linarith
  then show ?case
  proof cases
    case 1
    then show ?thesis by (intro disjI2 exI [of _ "[]"]) (simp add: strip_line_comments.simps)
  next
    case 2
    then show ?thesis by (simp add: strip_line_comments.simps)
  next
    case 3
    obtain v r where v: "s = v @ 10 # r" "10 \<notin> set v" "IndexByte s 10 = int (length v)"
      using IndexByte_present [OF 3(2)] by blast
    have dr: "drop (nat (IndexByte s 10) + 1) s = r" unfolding v(3) by (simp add: v(1))
    have e: "strip_line_comments s = strip_line_comments (TrimLeft_ws r)"
      using 3 dr by (subst strip_line_comments.simps) (simp add: Let_def)
    obtain u where u: "ws u" "r = u @ TrimLeft_ws r" using TrimLeft_ws_split by blast
    obtain y where y: "v = bs ''--'' @ y"
      using 3(1) v by (cases v rule: ToUpper.cases) (auto simp: HasPrefix_def)
    have item: "line_item (v @ 10 # u)" using u(1) v(2) unfolding line_item_def y
      by (intro exI [of _ y] exI [of _ u]) simp
    from dr "1.IH" [OF 3(1) refl 3(2)] consider "strip_line_comments (TrimLeft_ws r) = []"
      | ls where "TrimLeft_ws r = concat ls @ strip_line_comments (TrimLeft_ws r)" "list_all line_item ls" by metis
    then show ?thesis
    proof cases
      case 2
      from v(1) u(2) have "s = v @ 10 # u @ TrimLeft_ws r" by metis
      then have "s = concat ((v @ 10 # u) # ls) @ strip_line_comments s"
        unfolding e using 2(1) by (metis append.assoc append_Cons concat.simps(2))
      with item 2(2) show ?thesis by (intro disjI2 exI [of _ "(v @ 10 # u) # ls"]) simp
    qed (simp add: e)
  qed
qed

lemma strip_lines_complete:
  "list_all line_item ls \<Longrightarrow> t \<noteq> [] \<Longrightarrow> \<not> ws_byte (hd t) \<Longrightarrow> \<not> HasPrefix t (bs ''--'') \<Longrightarrow>
   strip_line_comments (concat ls @ t) = t"
proof (induction ls)
  case (Cons l ls)
  then obtain y u where l: "l = bs ''--'' @ y @ [10] @ u" "10 \<notin> set y" "ws u" by (auto simp: line_item_def)
  let ?r = "concat ls @ t"
  have i: "IndexByte ((bs ''--'' @ y) @ 10 # u @ ?r) 10 = int (length (bs ''--'' @ y))"
    using l(2) by (intro IndexByte_append) simp
  have "ls = [] \<or> hd ?r = 45" using items_hd(1) Cons.prems(1) by auto
  then have "TrimLeft_ws ?r = ?r" using Cons.prems by (intro TrimLeft_ws_id) (auto simp: ws_byte_def)
  then have "TrimLeft_ws (u @ ?r) = ?r" using TrimLeft_ws_append [OF l(3)] by simp
  moreover define S where "S = (bs ''--'' @ y) @ 10 # u @ ?r"
  moreover have "drop (nat (IndexByte S 10) + 1) S = u @ ?r" unfolding S_def i by (simp add: nat_add_distrib drop_Cons')
  moreover have "HasPrefix S (bs ''--'')" by (simp add: S_def HasPrefix_def)
  ultimately have "strip_line_comments S = strip_line_comments ?r"
    using i by (subst strip_line_comments.simps) (simp add: Let_def)
  moreover have "concat (l # ls) @ t = S" by (simp add: l S_def)
  ultimately show ?case using Cons by simp
qed (simp add: strip_line_comments.simps)

lemma strip_blocks_sound:
  "strip_block_comments s = [] \<or> (\<exists>bl. s = concat bl @ strip_block_comments s \<and> list_all block_item bl)"
proof (induction s rule: strip_block_comments.induct)
  case (1 s)
  consider "\<not> HasPrefix s (bs ''/*'')" | "HasPrefix s (bs ''/*'')" "Index_close s < 0"
    | "HasPrefix s (bs ''/*'')" "\<not> Index_close s < 0" by blast
  then show ?case
  proof cases
    case 1
    then show ?thesis by (intro disjI2 exI [of _ "[]"]) (simp add: strip_block_comments.simps)
  next
    case 2
    then show ?thesis by (simp add: strip_block_comments.simps)
  next
    case 3
    then have "0 \<le> Index_close s" by simp
    then obtain y r where v: "s = y @ 42 # 47 # r" "Index_close s = int (length y)" "\<not> sublist [42, 47] (y @ [42])"
      using Index_close_present by blast
    have dr: "drop (nat (Index_close s) + 2) s = r" unfolding v(2) by (simp add: v(1))
    have e: "strip_block_comments s = strip_block_comments (TrimLeft_ws r)"
      using 3 dr by (subst strip_block_comments.simps) (simp add: Let_def)
    obtain u where u: "ws u" "r = u @ TrimLeft_ws r" using TrimLeft_ws_split by blast
    have "HasPrefix (y @ [42, 47]) (bs ''/*'')" using 3(1) v(1) HasPrefix_long [of y 42 47 r 47 42] by simp
    then have item: "block_item (y @ 42 # 47 # u)" using u(1) v(3) unfolding block_item_def
      by (intro exI [of _ y] exI [of _ u]) simp
    from dr "1.IH" [OF 3(1) refl 3(2)] consider "strip_block_comments (TrimLeft_ws r) = []"
      | bl where "TrimLeft_ws r = concat bl @ strip_block_comments (TrimLeft_ws r)" "list_all block_item bl" by metis
    then show ?thesis
    proof cases
      case 2
      from v(1) u(2) have "s = y @ 42 # 47 # u @ TrimLeft_ws r" by metis
      then have "s = concat ((y @ 42 # 47 # u) # bl) @ strip_block_comments s"
        unfolding e using 2(1) by (metis append.assoc append_Cons concat.simps(2))
      with item 2(2) show ?thesis by (intro disjI2 exI [of _ "(y @ 42 # 47 # u) # bl"]) simp
    qed (simp add: e)
  qed
qed

lemma strip_blocks_complete:
  "list_all block_item bl \<Longrightarrow> t \<noteq> [] \<Longrightarrow> \<not> ws_byte (hd t) \<Longrightarrow> \<not> HasPrefix t (bs ''/*'') \<Longrightarrow>
   strip_block_comments (concat bl @ t) = t"
proof (induction bl)
  case (Cons l bl)
  then obtain y u where l: "l = y @ bs ''*/'' @ u" "HasPrefix (y @ bs ''*/'') (bs ''/*'')"
    "\<not> sublist (bs ''*/'') (y @ [42])" "ws u" by (auto simp: block_item_def)
  let ?r = "concat bl @ t"
  have i: "Index_close (y @ 42 # 47 # u @ ?r) = int (length y)" using Index_close_first l(3) by simp
  have "bl = [] \<or> hd ?r = 47" using items_hd(2) Cons.prems(1) by auto
  then have "TrimLeft_ws ?r = ?r" using Cons.prems by (intro TrimLeft_ws_id) (auto simp: ws_byte_def)
  then have "TrimLeft_ws (u @ ?r) = ?r" using TrimLeft_ws_append [OF l(4)] by simp
  moreover have "HasPrefix (y @ 42 # 47 # u @ ?r) (bs ''/*'')" using l(2) HasPrefix_long [of y 42 47 "u @ ?r" 47 42] by simp
  moreover have "concat (l # bl) @ t = y @ 42 # 47 # u @ ?r" by (simp add: l)
  moreover have "drop (nat (int (length y)) + 2) (y @ 42 # 47 # u @ ?r) = u @ ?r" by simp
  ultimately have "strip_block_comments (concat (l # bl) @ t) = strip_block_comments ?r"
    using i by (subst strip_block_comments.simps) (simp add: Let_def)
  with Cons show ?case by simp
qed (simp add: strip_block_comments.simps)

section \<open>Properties\<close>


text \<open>
  A data-modifying statement passes when it hides behind \<open>WITH\<close>, or behind a second statement.
\<close>

lemma mutations_pass:
  "\<not> rejectNonSelect (bs ''with x as (delete from t returning *) select 1'')" "\<not> rejectNonSelect (bs ''select 1; drop table t'')"
  by (simp_all add: rejectNonSelect_def TrimLeft_ws_def ws_byte_def strip_line_comments.simps strip_block_comments.simps
      HasPrefix_def select_keywords_def)

end
