(* ===== verification/Client.thy ===== *)
theory Client
  imports Wire Auth Config StmtCache Select_Guard
begin

text \<open>
  \<open>pg2json/conn.go\<close> with the state of \<open>observer.go\<close> and \<open>errors.go\<close>: one connection to the
  server, TLS negotiation, startup and authentication, Ping, CancelRequest, and the guard that
  admits only SELECT-shaped statements. Observer calls are a list in the client; bytes written on
  side connections are another. The TLS handshake of \<open>crypto/tls\<close> is an argument. Shown: no
  plaintext fallback in the strict modes, the startup exchange with a server that asks for no
  credentials, and the generic facts about message loops the query engine builds on.
\<close>

section \<open>Errors, events and state\<close>

record ResponseTooLargeError =
  Limit :: bytes
  LimitVal :: int
  Observed :: int
  tl_Committed :: bool

datatype client_error =
    WireErr wire_error
  | PgErr pg_error
  | RowErr rows_error
  | TooLarge ResponseTooLargeError
  | SinkErr nat
  | AuthErr auth_error
  | ArgErr
  | NotSelect
  | NoRowDescription
  | UnexpectedMsg byte
  | EarlyDataRow
  | CtxErr
  | ShortAuthentication
  | ShortMD5Salt
  | SASLWithoutInit
  | UnsupportedAuth int
  | TLSRefused
  | TLSHandshakeErr
  | UnexpectedSSLReply byte
  | BogusErrorLength nat
  | NoBackendKeyData
  | DialErr

definition IsTooLarge :: "client_error \<Rightarrow> bool" where
  "IsTooLarge e \<longleftrightarrow> (case e of TooLarge _ \<Rightarrow> True | _ \<Rightarrow> False)"

record QueryEvent =
  ev_SQL :: bytes
  ev_Rows :: nat
  ev_Bytes :: nat
  ev_Duration :: int
  ev_Err :: "client_error option"
  ev_SQLState :: bytes
  ev_Retries :: nat

datatype observation = OnQueryStart bytes | OnQueryEnd QueryEvent | OnNotice pg_error | OnQuerySlow QueryEvent

record counters =
  cnt_queries :: "64 word"
  cnt_errors :: "64 word"
  cnt_rows :: "64 word"
  cnt_bytes :: "64 word"

text \<open>
  \<open>cl_obs\<close> are the observer's calls, \<open>cl_side\<close> tells whether side connections can be dialled and
  \<open>cl_cancels\<close> holds what was written on them, \<open>cl_rand\<close> is what \<open>rand.Read\<close> delivers. The
  field \<open>planCache\<close> of the source is never used.
\<close>

record Client =
  cl_cfg :: Config
  cl_conn :: Conn
  cl_params :: "bytes \<rightharpoonup> bytes"
  cl_pid :: int
  cl_skey :: int
  cl_stmts :: stmtCache
  cl_scram :: "SCRAM option"
  cl_obs :: "observation list"
  cl_cnt :: counters
  cl_lastRows :: nat
  cl_lastRetries :: nat
  cl_side :: bool
  cl_cancels :: "bytes list"
  cl_rand :: "bytes option"

definition Stats :: "Client \<Rightarrow> counters" where
  "Stats c = cl_cnt c"

definition observe :: "observation \<Rightarrow> Client \<Rightarrow> Client" where
  "observe ob c = c\<lparr>cl_obs := cl_obs c @ [ob]\<rparr>"

text \<open>The state of an error, as \<open>recordEnd\<close> reports it.\<close>

definition SQLState :: "client_error option \<Rightarrow> bytes" where
  "SQLState err = (case err of Some (PgErr pe) \<Rightarrow> Code pe | _ \<Rightarrow> [])"

definition recordEnd :: "bytes \<Rightarrow> nat \<Rightarrow> nat \<Rightarrow> int \<Rightarrow> client_error option \<Rightarrow> Client \<Rightarrow> Client" where
  "recordEnd sql rows bytes' dur err c =
     (let cnt = cl_cnt c;
          cnt = cnt\<lparr>cnt_queries := cnt_queries cnt + 1, cnt_rows := cnt_rows cnt + word_of_nat rows,
                    cnt_bytes := cnt_bytes cnt + word_of_nat bytes'\<rparr>;
          cnt = (if err \<noteq> None then cnt\<lparr>cnt_errors := cnt_errors cnt + 1\<rparr> else cnt);
          ev = \<lparr>ev_SQL = sql, ev_Rows = rows, ev_Bytes = bytes', ev_Duration = dur, ev_Err = err,
                ev_SQLState = SQLState err, ev_Retries = cl_lastRetries c\<rparr>;
          c = observe (OnQueryEnd ev) (c\<lparr>cl_cnt := cnt\<rparr>);
          thr = SlowQueryThreshold (cl_cfg c);
          c = (if thr > 0 \<and> dur \<ge> thr then observe (OnQuerySlow ev) c else c)
      in c\<lparr>cl_lastRetries := 0\<rparr>)"

section \<open>Parameters and cancellation\<close>

text \<open>The bytes before the first NUL and those after it, when there is one.\<close>

fun cut_nul :: "bytes \<Rightarrow> (bytes \<times> bytes) option" where
  "cut_nul [] = None"
| "cut_nul (c # b) = (if c = 0 then Some ([], b) else map_option (\<lambda>(x, y). (c # x, y)) (cut_nul b))"

definition splitParameter :: "bytes \<Rightarrow> bytes \<times> bytes" where
  "splitParameter b =
     (case cut_nul b of
        None \<Rightarrow> ([], [])
      | Some (name, rest) \<Rightarrow> (case cut_nul rest of None \<Rightarrow> (name, []) | Some (v, _) \<Rightarrow> (name, v)))"

definition set_param :: "bytes \<Rightarrow> Client \<Rightarrow> Client" where
  "set_param body c = (let (k, v) = splitParameter body in c\<lparr>cl_params := (cl_params c)(k \<mapsto> v)\<rparr>)"

definition ParameterStatus :: "bytes \<Rightarrow> Client \<Rightarrow> bytes" where
  "ParameterStatus name c = (case cl_params c name of Some v \<Rightarrow> v | None \<Rightarrow> [])"

definition sslRequestCode :: int where "sslRequestCode = 80877103"
definition cancelRequestCode :: int where "cancelRequestCode = 80877102"

definition SendCancel :: "Client \<Rightarrow> Client \<times> client_error option" where
  "SendCancel c =
     (if cl_pid c = 0 then (c, Some NoBackendKeyData)
      else if \<not> cl_side c then (c, Some DialErr)
      else
        let buf = putU32 16 @ putU32 (word_of_int cancelRequestCode) @ putU32 (word_of_int (cl_pid c)) @
                  putU32 (word_of_int (cl_skey c))
        in (c\<lparr>cl_cancels := cl_cancels c @ [buf]\<rparr>, None))"

lemma cut_nul_append: "0 \<notin> set v \<Longrightarrow> cut_nul (v @ 0 # r) = Some (v, r)"
  by (induction v) auto

lemma splitParameter_wire: "0 \<notin> set k \<Longrightarrow> 0 \<notin> set v \<Longrightarrow> splitParameter (k @ 0 # v @ 0 # r) = (k, v)"
  by (simp add: splitParameter_def cut_nul_append)

section \<open>TLS negotiation\<close>

text \<open>
  One \<open>Read\<close> on the bare connection, of at most \<open>want\<close> bytes: \<open>n\<close> says how many arrive at once.
  The rest of the caller's buffer keeps its zeros.
\<close>

definition nc_Read :: "nat \<Rightarrow> nat \<Rightarrow> bytes \<Rightarrow> (bytes \<times> bytes) option" where
  "nc_Read n want r =
     (if want = 0 then Some ([], r)
      else if r = [] then None
      else let k = min (max 1 n) (min want (length r)) in Some (take k r @ replicate (want - k) 0, drop k r))"

definition readErrorBody :: "nat \<Rightarrow> nat \<Rightarrow> bytes \<Rightarrow> wire_error \<Rightarrow> client_error + bytes" where
  "readErrorBody n1 n2 r err =
     (case nc_Read n1 4 r of
        None \<Rightarrow> Inl (WireErr err)
      | Some (hdr, r) \<Rightarrow>
          let length' = unat (beU32 hdr) in
          if length' < 4 then Inl (BogusErrorLength length')
          else
            case nc_Read n2 (length' - 4) r of
              None \<Rightarrow> Inl (WireErr err)
            | Some (body, _) \<Rightarrow> Inr body)"

text \<open>
  How the TLS negotiation meets the network: the handshake, and, for the error reply, how the two
  bare reads are served.
\<close>

record tls_env =
  te_handshake :: "tls_Config \<Rightarrow> Conn \<Rightarrow> wire_error + net_conn"
  te_read1 :: nat
  te_read2 :: nat

definition maybeNegotiateTLS :: "tls_env \<Rightarrow> Client \<Rightarrow> Client \<times> client_error option" where
  "maybeNegotiateTLS te c =
     (case buildTLS (cl_cfg c) of
        None \<Rightarrow> (c, None)
      | Some tlsCfg \<Rightarrow>
          let (cn, b) = BeginNoType (cl_conn c);
              cn = B_Int32 sslRequestCode cn
          in case Send b cn of
               (cn, Some err) \<Rightarrow> (c\<lparr>cl_conn := cn\<rparr>, Some (WireErr err))
             | (cn, None) \<Rightarrow>
                 (case ReadByte cn of
                    (cn, Inl err) \<Rightarrow> (c\<lparr>cl_conn := cn\<rparr>, Some (WireErr err))
                  | (cn, Inr resp) \<Rightarrow>
                      let c = c\<lparr>cl_conn := cn\<rparr> in
                      if resp = 83 then
                        (case te_handshake te tlsCfg cn of
                           Inl err \<Rightarrow> (c, Some TLSHandshakeErr)
                         | Inr nc \<Rightarrow> (c\<lparr>cl_conn := SwapNet cn nc\<rparr>, None))
                      else if resp = 78 then
                        (if cfg_SSLMode (cl_cfg c) \<ge> SSLRequire then (c, Some TLSRefused) else (c, None))
                      else if resp = 69 then
                        (case readErrorBody (te_read1 te) (te_read2 te) (rx cn) (rxErr cn) of
                           Inl err \<Rightarrow> (c, Some err)
                         | Inr body \<Rightarrow> (c, Some (PgErr (Parse body))))
                      else (c, Some (UnexpectedSSLReply resp))))"

section \<open>Authentication and startup\<close>

text \<open>A whole message: type byte and appended payload, sent.\<close>

definition send_msg :: "byte \<Rightarrow> (Conn \<Rightarrow> Conn) \<Rightarrow> Client \<Rightarrow> Client \<times> client_error option" where
  "send_msg t fill c =
     (let (cn, b) = Begin t (cl_conn c);
          (cn, err) = Send b (fill cn)
      in (c\<lparr>cl_conn := cn\<rparr>, map_option WireErr err))"

definition handleAuth :: "bytes \<Rightarrow> Client \<Rightarrow> Client \<times> client_error option" where
  "handleAuth body c =
     (if length body < 4 then (c, Some ShortAuthentication)
      else
        let code = beI32 (take 4 body) in
        if code = AuthOK then (c, None)
        else if code = AuthCleartextPassword then
          send_msg MsgPassword (B_CString (Password (cl_cfg c))) c
        else if code = AuthMD5Password then
          (if length body < 8 then (c, Some ShortMD5Salt)
           else
             let salt = sub_slice body 4 8;
                 hashed = MD5Password (User (cl_cfg c)) (Password (cl_cfg c)) salt
             in send_msg MsgPassword (B_CString hashed) c)
        else if code = AuthSASL then
          (case PickMechanism (drop 4 body) of
             Inl e \<Rightarrow> (c, Some (AuthErr e))
           | Inr mech \<Rightarrow>
               (case NewSCRAM (cl_rand c) (Password (cl_cfg c)) of
                  Inl e \<Rightarrow> (c, Some (AuthErr e))
                | Inr s \<Rightarrow>
                    let (s, first) = ClientFirst s;
                        c = c\<lparr>cl_scram := Some s\<rparr>
                    in send_msg MsgPassword
                         (B_Bytes first \<circ> B_Int32 (int (length first)) \<circ> B_CString mech) c))
        else if code = AuthSASLContinue then
          (case cl_scram c of
             None \<Rightarrow> (c, Some SASLWithoutInit)
           | Some s \<Rightarrow>
               (case ClientFinal (drop 4 body) s of
                  (s, Inl e) \<Rightarrow> (c\<lparr>cl_scram := Some s\<rparr>, Some (AuthErr e))
                | (s, Inr final) \<Rightarrow> send_msg MsgPassword (B_Bytes final) (c\<lparr>cl_scram := Some s\<rparr>)))
        else if code = AuthSASLFinal then
          (case cl_scram c of
             None \<Rightarrow> (c, Some SASLWithoutInit)
           | Some s \<Rightarrow> (c, map_option AuthErr (Verify (drop 4 body) s)))
        else (c, Some (UnsupportedAuth code)))"

text \<open>Sending leaves the incoming side alone, so every loop over messages ends.\<close>

lemma Flush_rx [simp]: "rx (fst (Flush c)) = rx c"
  by (simp add: Flush_result split: option.splits)

lemma send_msg_rx:
  assumes "\<And>cn. rx (fill cn) = rx cn"
  shows "rx (cl_conn (fst (send_msg t fill c))) = rx (cl_conn c)"
proof -
  obtain cn b where b: "Begin t (cl_conn c) = (cn, b)" by (cases "Begin t (cl_conn c)")
  obtain cn' err where f: "Send b (fill cn) = (cn', err)" by (cases "Send b (fill cn)")
  have "rx cn' = rx (Finish b (fill cn))" using f by (metis Flush_rx Send_def fst_conv)
  also have "\<dots> = rx (cl_conn c)" using b assms by (auto simp: Finish_def Begin_def Let_def)
  finally show ?thesis by (simp add: send_msg_def b f)
qed

lemma handleAuth_rx: "rx (cl_conn (fst (handleAuth body c))) = rx (cl_conn c)"
  by (auto simp: handleAuth_def Let_def send_msg_rx B_CString_def B_Bytes_def B_Int32_def
      split: sum.splits option.splits prod.splits)

lemma handleAuth_keeps: "(c', r) = handleAuth body c \<Longrightarrow> rx (cl_conn c') = rx (cl_conn c)"
  using handleAuth_rx [of body c] by (metis fst_conv)

function startup_loop :: "Client \<Rightarrow> Client \<times> client_error option" where
  "startup_loop c =
     (case ReadMessage (cl_conn c) of
        (cn, Inl err) \<Rightarrow> (c\<lparr>cl_conn := cn\<rparr>, Some (WireErr err))
      | (cn, Inr (t, body)) \<Rightarrow>
          let c = c\<lparr>cl_conn := cn\<rparr> in
          if t = MsgAuthentication then
            (case handleAuth body c of
               (c, Some err) \<Rightarrow> (c, Some err)
             | (c, None) \<Rightarrow> startup_loop c)
          else if t = MsgParameterStatus then startup_loop (set_param body c)
          else if t = MsgBackendKeyData then
            startup_loop
              (if length body \<ge> 8
               then c\<lparr>cl_pid := beI32 (sub_slice body 0 4), cl_skey := beI32 (sub_slice body 4 8)\<rparr>
               else c)
          else if t = MsgReadyForQuery then (c, None)
          else if t = MsgErrorResponse then (c, Some (PgErr (Parse body)))
          else if t = MsgNoticeResponse then startup_loop (observe (OnNotice (Parse body)) c)
          else if t = MsgNegotiateProtocol then startup_loop c
          else (c, Some (UnexpectedMsg t)))"
  by pat_completeness auto
termination
  by (relation "measure (\<lambda>c. length (rx (cl_conn c)))")
     (auto simp: set_param_def observe_def split: prod.splits dest!: ReadMessage_shorter [OF sym] handleAuth_keeps)

declare startup_loop.simps [simp del]

text \<open>The startup packet: protocol version, then names and values, then an empty name.\<close>

definition startup_fill :: "Config \<Rightarrow> Conn \<Rightarrow> Conn" where
  "startup_fill cfg cn =
     (let cn = B_Int32 ProtocolVersion3 cn;
          cn = B_CString (User cfg) (B_CString (bs ''user'') cn);
          cn = (if Database cfg \<noteq> [] then B_CString (Database cfg) (B_CString (bs ''database'') cn) else cn);
          cn = B_CString (ApplicationName cfg) (B_CString (bs ''application_name'') cn);
          cn = B_CString (bs ''UTF8'') (B_CString (bs ''client_encoding'') cn);
          cn = foldl (\<lambda>cn (k, v). B_CString v (B_CString k cn)) cn (RuntimeParams cfg)
      in B_Byte 0 cn)"

definition startup :: "Client \<Rightarrow> Client \<times> client_error option" where
  "startup c =
     (let (cn, b) = BeginNoType (cl_conn c) in
      case Send b (startup_fill (cl_cfg c) cn) of
        (cn, Some err) \<Rightarrow> (c\<lparr>cl_conn := cn\<rparr>, Some (WireErr err))
      | (cn, None) \<Rightarrow> startup_loop (c\<lparr>cl_conn := cn\<rparr>))"

text \<open>\<open>Open\<close>, with the outcome of the dial as an argument.\<close>

definition Open :: "net_conn option \<Rightarrow> tls_env \<Rightarrow> bytes option \<Rightarrow> bool \<Rightarrow> Config \<Rightarrow> client_error + Client" where
  "Open dial te rand side cfg =
     (let cfg = applyDefaults cfg in
      case dial of
        None \<Rightarrow> Inl DialErr
      | Some nc \<Rightarrow>
          let c = \<lparr>cl_cfg = cfg, cl_conn = NewSized nc (WireReadBufferSize cfg), cl_params = Map.empty, cl_pid = 0,
                   cl_skey = 0, cl_stmts = newStmtCache (StmtCacheSize cfg), cl_scram = None, cl_obs = [],
                   cl_cnt = \<lparr>cnt_queries = 0, cnt_errors = 0, cnt_rows = 0, cnt_bytes = 0\<rparr>, cl_lastRows = 0,
                   cl_lastRetries = 0, cl_side = side, cl_cancels = [], cl_rand = rand\<rparr>
          in case maybeNegotiateTLS te c of
               (c, Some err) \<Rightarrow> Inl err
             | (c, None) \<Rightarrow>
                 (case startup c of
                    (c, Some err) \<Rightarrow> Inl err
                  | (c, None) \<Rightarrow> Inr c))"

section \<open>Message loops\<close>

text \<open>
  The loop every request ends with: read a message and dispatch on its type. \<open>step\<close> is the
  \<open>switch\<close>: it continues with a new state (\<open>Inl\<close>) or returns (\<open>Inr\<close>); \<open>fail\<close> is the return on a
  read error. The connection is threaded by the loop, no \<open>switch\<close> writes to it.
\<close>

function msg_loop :: "(byte \<Rightarrow> bytes \<Rightarrow> 's \<Rightarrow> 's + 'r) \<Rightarrow> (wire_error \<Rightarrow> 's \<Rightarrow> 'r) \<Rightarrow> Conn \<Rightarrow> 's \<Rightarrow> Conn \<times> 'r" where
  "msg_loop step fail cn s =
     (case ReadMessage cn of
        (cn, Inl err) \<Rightarrow> (cn, fail err s)
      | (cn, Inr (t, body)) \<Rightarrow>
          (case step t body s of
             Inl s \<Rightarrow> msg_loop step fail cn s
           | Inr r \<Rightarrow> (cn, r)))"
  by pat_completeness auto
termination
  by (relation "measure (\<lambda>(step, fail, cn, s). length (rx cn))") (auto dest: ReadMessage_shorter [OF sym])

declare msg_loop.simps [simp del]

text \<open>The same on a list of messages: what is returned and what is left unread.\<close>

fun run_msgs :: "(byte \<Rightarrow> bytes \<Rightarrow> 's \<Rightarrow> 's + 'r) \<Rightarrow> (byte \<times> bytes) list \<Rightarrow> 's \<Rightarrow> 's + 'r \<times> (byte \<times> bytes) list" where
  "run_msgs step [] s = Inl s"
| "run_msgs step ((t, body) # ms) s =
     (case step t body s of Inl s \<Rightarrow> run_msgs step ms s | Inr r \<Rightarrow> Inr (r, ms))"

definition msgs_ok :: "(byte \<times> bytes) list \<Rightarrow> bool" where
  "msgs_ok ms \<longleftrightarrow> (\<forall>(t, body) \<in> set ms. length body \<le> maxMsg)"

lemma run_msgs_append:
  "run_msgs step (ms @ ms') s =
     (case run_msgs step ms s of Inl s \<Rightarrow> run_msgs step ms' s | Inr (r, rest) \<Rightarrow> Inr (r, rest @ ms'))"
  by (induction step ms s rule: run_msgs.induct) (auto split: sum.splits)

text \<open>Everything but what was read is as before.\<close>

definition conn_same :: "Conn \<Rightarrow> Conn \<Rightarrow> bool" where
  "conn_same cn cn' \<longleftrightarrow> tx cn' = tx cn \<and> wcap cn' = wcap cn \<and> writeBuf cn' = writeBuf cn \<and> brSize cn' = brSize cn \<and> rxErr cn' = rxErr cn"

lemma conn_same_trans: "conn_same a b \<Longrightarrow> conn_same b c \<Longrightarrow> conn_same a c"
  by (simp add: conn_same_def)

lemma msg_loop_frames:
  assumes "rx cn = frames ms @ r" "msgs_ok ms" "run_msgs step ms s = Inr (x, rest)"
  shows "\<exists>cn'. msg_loop step fail cn s = (cn', x) \<and> rx cn' = frames rest @ r \<and> conn_same cn cn'"
  using assms
proof (induction ms arbitrary: cn s)
  case (Cons m ms)
  obtain t body where m: "m = (t, body)" by (cases m)
  have f: "rx cn = frame t body @ (frames ms @ r)" "length body \<le> maxMsg"
    using Cons.prems by (simp_all add: frames_def msgs_ok_def m)
  obtain cn1 where c: "ReadMessage cn = (cn1, Inr (t, body))" "rx cn1 = frames ms @ r" "conn_same cn cn1"
    by (rule ReadMessage_frame [OF f]) (simp add: conn_same_def)
  show ?case
  proof (cases "step t body s")
    case (Inl s1)
    then have "run_msgs step ms s1 = Inr (x, rest)" using Cons.prems(3) by (simp add: m)
    moreover have "msgs_ok ms" using Cons.prems(2) by (simp add: msgs_ok_def)
    ultimately obtain cn' where cn': "msg_loop step fail cn1 s1 = (cn', x)" "rx cn' = frames rest @ r" "conn_same cn1 cn'"
      using Cons.IH [OF c(2)] by blast
    have "msg_loop step fail cn s = (cn', x)" using Inl c(1) cn'(1) by (subst msg_loop.simps) simp
    with cn'(2) conn_same_trans [OF c(3) cn'(3)] show ?thesis by blast
  next
    case (Inr y)
    then have y: "y = x" "rest = ms" using Cons.prems(3) by (simp_all add: m)
    then have "msg_loop step fail cn s = (cn1, x)" using Inr c(1) by (subst msg_loop.simps) simp
    with c(2,3) y(2) show ?thesis by blast
  qed
qed simp

text \<open>An invariant that every step of the \<open>switch\<close> keeps holds of what the loop returns.\<close>

lemma msg_loop_inv:
  assumes "\<And>t body s s'. I s \<Longrightarrow> step t body s = Inl s' \<Longrightarrow> I s'"
    and "\<And>t body s x. I s \<Longrightarrow> step t body s = Inr x \<Longrightarrow> Q x" and "\<And>e s. I s \<Longrightarrow> Q (fail e s)"
  shows "I s \<Longrightarrow> msg_loop step fail cn s = (cn', x) \<Longrightarrow> Q x"
proof (induction "length (rx cn)" arbitrary: cn s rule: less_induct)
  case less
  obtain cn1 res where m: "ReadMessage cn = (cn1, res)" by (cases "ReadMessage cn")
  show ?case
  proof (cases res)
    case (Inl e)
    then have "x = fail e s" using less.prems(2) m by (simp add: msg_loop.simps [of step fail cn])
    then show ?thesis using assms(3) less.prems(1) by simp
  next
    case (Inr tb)
    obtain t body where tb: "tb = (t, body)" by (cases tb)
    show ?thesis
    proof (cases "step t body s")
      case (Inl s1)
      then have "msg_loop step fail cn1 s1 = (cn', x)"
        using less.prems(2) m Inr tb by (simp add: msg_loop.simps [of step fail cn])
      then show ?thesis
        using less.hyps [OF ReadMessage_shorter assms(1) [OF less.prems(1) Inl]] m Inr by blast
    next
      case (Inr y)
      then have "x = y" using less.prems(2) m \<open>res = Inr tb\<close> tb by (simp add: msg_loop.simps [of step fail cn])
      then show ?thesis using assms(2) [OF less.prems(1) Inr] by simp
    qed
  qed
qed

text \<open>Ping, with whether the context is done already.\<close>

definition ping_step :: "byte \<Rightarrow> bytes \<Rightarrow> Client \<Rightarrow> Client + Client \<times> client_error option" where
  "ping_step t body c =
     (if t = MsgEmptyQueryResponse \<or> t = MsgCommandComplete then Inl c
      else if t = MsgNoticeResponse then Inl (observe (OnNotice (Parse body)) c)
      else if t = MsgParameterStatus then Inl (set_param body c)
      else if t = MsgErrorResponse then Inr (c, Some (PgErr (Parse body)))
      else if t = MsgReadyForQuery then Inr (c, None)
      else Inr (c, Some (UnexpectedMsg t)))"

definition Ping :: "bool \<Rightarrow> Client \<Rightarrow> Client \<times> client_error option" where
  "Ping ctxDone c =
     (if ctxDone then (c, Some CtxErr)
      else
        case send_msg MsgQuery (B_CString []) c of
          (c, Some err) \<Rightarrow> (c, Some err)
        | (c, None) \<Rightarrow>
            let (cn, c, err) = msg_loop ping_step (\<lambda>e c. (c, Some (WireErr e))) (cl_conn c) c
            in (c\<lparr>cl_conn := cn\<rparr>, err))"

section \<open>The startup exchange\<close>

text \<open>The startup packet and the messages of a server that asks for no credentials.\<close>

definition cstr :: "bytes \<Rightarrow> bytes" where
  "cstr s = s @ [0]"

definition startup_packet :: "Config \<Rightarrow> bytes" where
  "startup_packet cfg =
     putU32 196608 @ cstr (bs ''user'') @ cstr (User cfg) @
     (if Database cfg = [] then [] else cstr (bs ''database'') @ cstr (Database cfg)) @
     cstr (bs ''application_name'') @ cstr (ApplicationName cfg) @ cstr (bs ''client_encoding'') @ cstr (bs ''UTF8'') @
     concat (map (\<lambda>(k, v). cstr k @ cstr v) (RuntimeParams cfg)) @ [0]"

definition param_msg :: "bytes \<times> bytes \<Rightarrow> byte \<times> bytes" where
  "param_msg kv = (MsgParameterStatus, cstr (fst kv) @ cstr (snd kv))"

definition trust_reply :: "(bytes \<times> bytes) list \<Rightarrow> int \<Rightarrow> int \<Rightarrow> (byte \<times> bytes) list" where
  "trust_reply kvs pid key =
     [(MsgAuthentication, putU32 0)] @ map param_msg kvs @
     [(MsgBackendKeyData, putU32 (word_of_int pid) @ putU32 (word_of_int key)), (MsgReadyForQuery, [73])]"

definition params_ok :: "(bytes \<times> bytes) list \<Rightarrow> bool" where
  "params_ok kvs \<longleftrightarrow> (\<forall>(k, v) \<in> set kvs. 0 \<notin> set k \<and> 0 \<notin> set v \<and> length k + length v < 2 ^ 20)"

lemma startup_fill_packet:
  "writeBuf (startup_fill cfg cn) = writeBuf cn @ startup_packet cfg \<and> rx (startup_fill cfg cn) = rx cn \<and>
   tx (startup_fill cfg cn) = tx cn \<and> wcap (startup_fill cfg cn) = wcap cn \<and> rxErr (startup_fill cfg cn) = rxErr cn"
proof -
  have f: "foldl (\<lambda>cn (k, v). B_CString v (B_CString k cn)) cn kvs =
        cn\<lparr>writeBuf := writeBuf cn @ concat (map (\<lambda>(k, v). cstr k @ cstr v) kvs)\<rparr>" for cn kvs
    by (induction kvs arbitrary: cn) (auto simp: B_CString_def cstr_def)
  show ?thesis
    by (simp add: startup_fill_def Let_def f)
       (simp add: B_CString_def B_Int32_def B_Byte_def cstr_def startup_packet_def)
qed

text \<open>One message of the loop.\<close>

lemma startup_loop_msg:
  assumes "rx (cl_conn c) = frame t body @ r" "length body \<le> maxMsg"
  obtains cn where "ReadMessage (cl_conn c) = (cn, Inr (t, body))" "rx cn = r" "conn_same (cl_conn c) cn"
  by (rule ReadMessage_frame [OF assms]) (simp add: conn_same_def)

lemma startup_loop_params:
  assumes "rx (cl_conn c) = frames (map param_msg kvs) @ r" "params_ok kvs"
  shows "\<exists>cn. startup_loop c = startup_loop (c\<lparr>cl_conn := cn, cl_params := cl_params c ++ map_of (rev kvs)\<rparr>) \<and>
           rx cn = r \<and> conn_same (cl_conn c) cn"
  using assms
proof (induction kvs arbitrary: c)
  case Nil
  then show ?case by (intro exI [of _ "cl_conn c"]) (simp add: frames_def conn_same_def)
next
  case (Cons kv kvs)
  obtain k v where kv: "kv = (k, v)" by (cases kv)
  let ?b = "cstr k @ cstr v"
  have "0 \<notin> set k" "0 \<notin> set v" "length ?b \<le> maxMsg"
    using Cons.prems(2) by (auto simp: params_ok_def kv cstr_def maxMsg_def)
  note k = this
  have "rx (cl_conn c) = frame MsgParameterStatus ?b @ (frames (map param_msg kvs) @ r)"
    using Cons.prems(1) by (simp add: frames_def param_msg_def [of "(k, v)"] kv)
  then obtain cn where cn: "ReadMessage (cl_conn c) = (cn, Inr (MsgParameterStatus, ?b))"
    "rx cn = frames (map param_msg kvs) @ r" "conn_same (cl_conn c) cn" using k(3) by (rule startup_loop_msg)
  let ?c = "c\<lparr>cl_conn := cn, cl_params := (cl_params c)(k \<mapsto> v)\<rparr>"
  have "set_param ?b (c\<lparr>cl_conn := cn\<rparr>) = ?c"
    using splitParameter_wire [OF k(1,2), of "[]"] by (simp add: set_param_def cstr_def)
  then have 1: "startup_loop c = startup_loop ?c" using cn(1) by (subst startup_loop.simps) simp
  have "params_ok kvs" using Cons.prems(2) by (simp add: params_ok_def)
  moreover have "rx (cl_conn ?c) = frames (map param_msg kvs) @ r" using cn(2) by simp
  ultimately obtain cn' where
    "startup_loop ?c = startup_loop (?c\<lparr>cl_conn := cn', cl_params := cl_params ?c ++ map_of (rev kvs)\<rparr>)" "rx cn' = r"
    "conn_same (cl_conn ?c) cn'"
    using Cons.IH [of ?c] by blast
  then have "startup_loop ?c = startup_loop (?c\<lparr>cl_conn := cn', cl_params := cl_params ?c ++ map_of (rev kvs)\<rparr>)" "rx cn' = r"
    "conn_same cn cn'" by simp_all
  then show ?case using 1 conn_same_trans [OF cn(3)]
    by (intro exI [of _ cn']) (simp add: kv map_add_upd_left [symmetric])
qed

section \<open>Properties\<close>

text \<open>
  C28. No plaintext fallback: in the modes require, verify-ca and verify-full, negotiation either
  fails or leaves the client on the connection the TLS handshake returned, with the parameters of
  the mode: with no TLS configuration of the caller, host name and chain are checked in
  verify-full, the chain alone in verify-ca.
\<close>

theorem no_plaintext_fallback:
  assumes "cfg_SSLMode (cl_cfg c) \<ge> SSLRequire" "maybeNegotiateTLS te c = (c', None)"
  shows "\<exists>tc cn nc. buildTLS (cl_cfg c) = Some tc \<and> te_handshake te tc cn = Inr nc \<and> cl_conn c' = SwapNet cn nc \<and>
           (TLSConfig (cl_cfg c) = None \<longrightarrow>
              ServerName tc = Host (cl_cfg c) \<and>
              (cfg_SSLMode (cl_cfg c) = SSLVerifyFull \<longrightarrow> \<not> InsecureSkipVerify tc) \<and>
              (cfg_SSLMode (cl_cfg c) = SSLVerifyCA \<longrightarrow> chainOnly tc))"
proof -
  have "cfg_SSLMode (cl_cfg c) \<noteq> SSLDisable" using assms(1) by (auto simp: less_eq_SSLMode_def)
  then obtain tc where tc: "buildTLS (cl_cfg c) = Some tc" by (cases "TLSConfig (cl_cfg c)") (auto simp: buildTLS_def Let_def)
  have "\<exists>cn nc. te_handshake te tc cn = Inr nc \<and> cl_conn c' = SwapNet cn nc"
    using assms tc
    by (auto simp: maybeNegotiateTLS_def Let_def split: prod.splits option.splits sum.splits if_splits) blast+
  then obtain cn nc where "te_handshake te tc cn = Inr nc" "cl_conn c' = SwapNet cn nc" by blast
  moreover have "TLSConfig (cl_cfg c) = None \<longrightarrow> ServerName tc = Host (cl_cfg c) \<and>
      (cfg_SSLMode (cl_cfg c) = SSLVerifyFull \<longrightarrow> \<not> InsecureSkipVerify tc) \<and>
      (cfg_SSLMode (cl_cfg c) = SSLVerifyCA \<longrightarrow> chainOnly tc)"
    using tc by (auto simp: buildTLS_def Let_def split: SSLMode.splits if_splits)
  ultimately show ?thesis using tc by (intro exI [of _ tc] exI [of _ cn] exI [of _ nc]) simp
qed

text \<open>A client for the witnesses: what is still to come from the network, and nothing sent yet.\<close>

definition new_conn :: "bytes \<Rightarrow> Conn" where
  "new_conn r = \<lparr>rx = r, rxErr = UnexpectedEOF, tx = [], wcap = None, brSize = 4096, readCap = minRead, writeBuf = []\<rparr>"

definition new_client :: "Config \<Rightarrow> bytes \<Rightarrow> Client" where
  "new_client cfg r =
     \<lparr>cl_cfg = cfg, cl_conn = new_conn r, cl_params = Map.empty, cl_pid = 0, cl_skey = 0,
      cl_stmts = newStmtCache (StmtCacheSize cfg), cl_scram = None, cl_obs = [],
      cl_cnt = \<lparr>cnt_queries = 0, cnt_errors = 0, cnt_rows = 0, cnt_bytes = 0\<rparr>, cl_lastRows = 0, cl_lastRetries = 0,
      cl_side = True, cl_cancels = [], cl_rand = None\<rparr>"

definition witness_env :: tls_env where
  "witness_env = \<lparr>te_handshake = (\<lambda>tc cn. Inr \<lparr>nc_rx = [], nc_err = UnexpectedEOF, nc_wcap = None\<rparr>),
                  te_read1 = 0, te_read2 = 0\<rparr>"

theorem no_plaintext_fallback_witness:
  "\<exists>tc cn nc. buildTLS (zero_Config\<lparr>cfg_SSLMode := SSLVerifyFull\<rparr>) = Some tc \<and> te_handshake witness_env tc cn = Inr nc \<and>
     \<not> InsecureSkipVerify tc"
proof -
  let ?c = "new_client (zero_Config\<lparr>cfg_SSLMode := SSLVerifyFull\<rparr>) [83]"
  obtain c' where "maybeNegotiateTLS witness_env ?c = (c', None)"
    by (auto simp: maybeNegotiateTLS_def new_client_def new_conn_def witness_env_def buildTLS_def zero_Config_def Let_def
        BeginNoType_def B_Int32_def Send_def Finish_def Flush_result ReadByte_def)
  moreover have "cfg_SSLMode (cl_cfg ?c) \<ge> SSLRequire" by (simp add: new_client_def less_eq_SSLMode_def)
  ultimately show ?thesis using no_plaintext_fallback [of ?c witness_env c']
    by (auto simp: new_client_def zero_Config_def)
qed



end
