(* ===== verification/Bufferpool.thy ===== *)
theory Bufferpool
  imports Transition
begin

text \<open>
  \<open>internal/bufferpool/pool.go\<close>: pooled scratch buffers with a soft cap on those checked out. A
  buffer is its capacity; \<open>free\<close> are the buffers inside the \<open>sync.Pool\<close>, which may hand out any of
  them or make a new one (the argument \<open>pick\<close>). Shown: the cap bounds the counter and the pool
  never pins a buffer above 1 MiB, for every interleaving of whole calls; and a caller that never
  returns its buffer uses up the cap for good.
\<close>

definition defaultCap :: nat where "defaultCap = 32 * 1024"

record bp_state =
  live :: int
  maxLive :: int
  free :: "nat list"

definition SetMaxLive :: "int \<Rightarrow> bp_state \<Rightarrow> bp_state" where
  "SetMaxLive n st = st\<lparr>maxLive := n\<rparr>"

definition Live :: "bp_state \<Rightarrow> int" where
  "Live st = (let n = live st in if n < 0 then 0 else n)"

text \<open>\<open>sync.Pool.Get\<close>: some pooled buffer, or \<open>New\<close>.\<close>

definition pool_get :: "nat \<Rightarrow> bp_state \<Rightarrow> bp_state \<times> nat" where
  "pool_get pick st =
     (if pick < length (free st)
      then (st\<lparr>free := take pick (free st) @ drop (pick + 1) (free st)\<rparr>, free st ! pick)
      else (st, defaultCap))"

definition Get :: "nat \<Rightarrow> bp_state \<Rightarrow> bp_state \<times> nat" where
  "Get pick st =
     (let m = maxLive st in
      if m > 0 then
        (if live st \<ge> m then (st, defaultCap)
         else pool_get pick (st\<lparr>live := live st + 1\<rparr>))
      else pool_get pick st)"

text \<open>\<open>None\<close> is the nil pointer.\<close>

definition Put :: "nat option \<Rightarrow> bp_state \<Rightarrow> bp_state" where
  "Put bp st =
     (case bp of
        None \<Rightarrow> st
      | Some c \<Rightarrow>
          if c > 2 ^ 20 then (if maxLive st > 0 then st\<lparr>live := live st - 1\<rparr> else st)
          else
            let st = (if maxLive st > 0 then st\<lparr>live := live st - 1\<rparr> else st)
            in st\<lparr>free := c # free st\<rparr>)"

section \<open>Calls as events\<close>

datatype bp_event = EGet nat nat | EPut "nat option"

inductive bp_step :: "bp_state \<Rightarrow> bp_event \<Rightarrow> bp_state \<Rightarrow> bool" where
  "Get pick st = (st', c) \<Longrightarrow> bp_step st (EGet pick c) st'"
| "bp_step st (EPut bp) (Put bp st)"

inductive_cases bp_stepE: "bp_step st e st'"

definition bp_start :: "int \<Rightarrow> bp_state \<Rightarrow> bool" where
  "bp_start m st \<longleftrightarrow> st = \<lparr>live = 0, maxLive = m, free = []\<rparr>"

definition bp_inv :: "int \<Rightarrow> bp_state \<Rightarrow> bool" where
  "bp_inv m st \<longleftrightarrow> maxLive st = m \<and> (m > 0 \<longrightarrow> live st \<le> m) \<and> (\<forall>c \<in> set (free st). c \<le> 2 ^ 20)"

interpretation bp: inductive_invariant "bp_start m" bp_step "bp_inv m" for m
proof
  show "bp_start m st \<Longrightarrow> bp_inv m st" for st by (simp add: bp_start_def bp_inv_def)
  show "bp_inv m st \<Longrightarrow> bp_step st e st' \<Longrightarrow> bp_inv m st'" for st e st'
    by (erule bp_stepE)
       (auto simp: bp_inv_def Get_def pool_get_def Put_def Let_def split: if_splits option.splits
         dest!: in_set_takeD in_set_dropD)
qed

text \<open>Calls of \<open>Get\<close> in a row, none of them returned.\<close>

fun gets :: "nat \<Rightarrow> bp_state \<Rightarrow> bp_state" where
  "gets 0 st = st"
| "gets (Suc n) st = gets n (fst (Get 0 st))"

lemma gets_live: "0 < m \<Longrightarrow> maxLive st = m \<Longrightarrow> live st \<le> m \<Longrightarrow> live (gets n st) = min m (live st + int n) \<and> maxLive (gets n st) = m"
proof (induction n arbitrary: st)
  case (Suc n)
  let ?st = "fst (Get 0 st)"
  have "maxLive ?st = m" "live ?st = (if live st \<ge> m then live st else live st + 1)"
    using Suc.prems by (auto simp: Get_def pool_get_def Let_def)
  with Suc.IH [of ?st] Suc.prems show ?case by (auto simp: min_def split: if_splits)
qed auto

section \<open>Properties\<close>



text \<open>
  A buffer that is checked out and never put back counts for ever: after as many unreturned
  \<open>Get\<close>s as the cap, every further one bypasses the pool and leaves its state alone. The
  streaming writer (\<open>pg2json/stream.go\<close>) returns its buffer only when a write fails, so this is
  what a sequence of successful streams does.
\<close>

lemma bufferpool_exhausted:
  assumes "0 < m" "m \<le> int n"
  shows "Get pick (gets n \<lparr>live = 0, maxLive = m, free = fs\<rparr>) = (gets n \<lparr>live = 0, maxLive = m, free = fs\<rparr>, defaultCap)"
  using gets_live [OF assms(1), of "\<lparr>live = 0, maxLive = m, free = fs\<rparr>" n] assms by (simp add: Get_def Let_def)

end
