(* ===== verification/Stream.thy ===== *)
theory Stream
  imports Bufferpool
begin

text \<open>
  \<open>pg2json/stream.go\<close>: the two produced paths behind the interface \<open>outWriter\<close>, an in-memory buffer
  and a writer that flushes to a caller's \<open>io.Writer\<close>. The caller's writer is a \<open>sink\<close>: the writes
  it took, and a function \<open>fails\<close> saying which call fails and after how many bytes. The clock is a
  function of the number of readings. Capacities are not observable and are left out. The interface
  is the locale \<open>out_writer\<close>, interpreted for both paths and for their union. Shown: both paths
  produce the same bytes, a write never splits what was appended between two flush points, and a
  reset discards exactly what has not been delivered.
\<close>

section \<open>The caller's writer\<close>

record sink =
  writes :: "bytes list"
  fails :: "nat \<Rightarrow> nat option"

definition sink_got :: "sink \<Rightarrow> bytes" where
  "sink_got w = concat (writes w)"

text \<open>One call of \<open>Write\<close>; the error carries the number of the call.\<close>

definition sink_write :: "sink \<Rightarrow> bytes \<Rightarrow> sink \<times> nat option" where
  "sink_write w p =
     (case fails w (length (writes w)) of
        None \<Rightarrow> (w\<lparr>writes := writes w @ [p]\<rparr>, None)
      | Some k \<Rightarrow> (w\<lparr>writes := writes w @ [take k p]\<rparr>, Some (length (writes w))))"

section \<open>bufWriter\<close>

record bufWriter =
  bw_p :: bytes
  bw_rowsHint :: int
  bw_grew :: bool

definition bw_SetBuf :: "bytes \<Rightarrow> bufWriter \<Rightarrow> bufWriter" where
  "bw_SetBuf p b = b\<lparr>bw_p := p\<rparr>"

definition bw_Write :: "bytes \<Rightarrow> bufWriter \<Rightarrow> bufWriter" where
  "bw_Write p b = b\<lparr>bw_p := bw_p b @ p\<rparr>"

definition bw_WriteByte :: "byte \<Rightarrow> bufWriter \<Rightarrow> bufWriter" where
  "bw_WriteByte c b = b\<lparr>bw_p := bw_p b @ [c]\<rparr>"

definition bw_MaybeFlush :: "bufWriter \<Rightarrow> bufWriter \<times> nat option" where
  "bw_MaybeFlush b = (b, None)"

definition bw_Flush :: "bufWriter \<Rightarrow> bufWriter \<times> nat option" where
  "bw_Flush b = (b, None)"

definition bw_Committed :: "bufWriter \<Rightarrow> bool" where
  "bw_Committed b = False"

definition bw_Reset :: "bufWriter \<Rightarrow> bufWriter" where
  "bw_Reset b = b\<lparr>bw_p := []\<rparr>"

definition bw_BytesOut :: "bufWriter \<Rightarrow> nat" where
  "bw_BytesOut b = length (bw_p b)"

definition bw_GrowForRow :: "int \<Rightarrow> bufWriter \<Rightarrow> bufWriter" where
  "bw_GrowForRow rowBytes b =
     (if bw_grew b \<or> bw_rowsHint b \<le> 0 \<or> rowBytes \<le> 0 then b else b\<lparr>bw_grew := True\<rparr>)"

section \<open>flushingWriter\<close>

text \<open>
  \<open>fw_src\<close> is the pooled buffer still held, \<open>fw_puts\<close> the buffers handed back to the buffer pool;
  \<open>fw_now\<close> and \<open>fw_ticks\<close> are the clock and how often it was read.
\<close>

record flushingWriter =
  fw_w :: sink
  fw_threshold :: int
  fw_interval :: int
  fw_lastFlush :: int
  fw_buf :: bytes
  fw_src :: "nat option"
  fw_puts :: "nat list"
  fw_committed :: bool
  fw_written :: nat
  fw_rowsHint :: int
  fw_grew :: bool
  fw_now :: "nat \<Rightarrow> int"
  fw_ticks :: nat

definition fw_time_Now :: "flushingWriter \<Rightarrow> flushingWriter \<times> int" where
  "fw_time_Now f = (f\<lparr>fw_ticks := fw_ticks f + 1\<rparr>, fw_now f (fw_ticks f))"

definition fw_SetBuf :: "bytes \<Rightarrow> flushingWriter \<Rightarrow> flushingWriter" where
  "fw_SetBuf p f = f\<lparr>fw_buf := p\<rparr>"

definition fw_Write :: "bytes \<Rightarrow> flushingWriter \<Rightarrow> flushingWriter" where
  "fw_Write p f = f\<lparr>fw_buf := fw_buf f @ p\<rparr>"

definition fw_WriteByte :: "byte \<Rightarrow> flushingWriter \<Rightarrow> flushingWriter" where
  "fw_WriteByte c f = f\<lparr>fw_buf := fw_buf f @ [c]\<rparr>"

definition releaseBuf :: "flushingWriter \<Rightarrow> flushingWriter" where
  "releaseBuf f =
     (case fw_src f of None \<Rightarrow> f | Some c \<Rightarrow> f\<lparr>fw_puts := fw_puts f @ [c], fw_src := None\<rparr>)"

definition fw_Flush :: "flushingWriter \<Rightarrow> flushingWriter \<times> nat option" where
  "fw_Flush f =
     (let (f, err) =
        (if length (fw_buf f) > 0 then
           (case sink_write (fw_w f) (fw_buf f) of
              (w, Some err) \<Rightarrow> (releaseBuf (f\<lparr>fw_w := w\<rparr>), Some err)
            | (w, None) \<Rightarrow>
                (f\<lparr>fw_w := w, fw_committed := True, fw_written := fw_written f + length (fw_buf f), fw_buf := []\<rparr>, None))
         else (f, None))
      in
      if err \<noteq> None then (f, err)
      else if fw_interval f > 0 then (let (f, t) = fw_time_Now f in (f\<lparr>fw_lastFlush := t\<rparr>, None))
      else (f, None))"

definition fw_MaybeFlush :: "flushingWriter \<Rightarrow> flushingWriter \<times> nat option" where
  "fw_MaybeFlush f =
     (if int (length (fw_buf f)) \<ge> fw_threshold f then fw_Flush f
      else if fw_interval f > 0 \<and> length (fw_buf f) > 0 then
        (let (f, t) = fw_time_Now f in
         if t - fw_lastFlush f \<ge> fw_interval f then fw_Flush f else (f, None))
      else (f, None))"

definition fw_Committed :: "flushingWriter \<Rightarrow> bool" where
  "fw_Committed f = fw_committed f"

definition fw_BytesOut :: "flushingWriter \<Rightarrow> nat" where
  "fw_BytesOut f = fw_written f + length (fw_buf f)"

definition fw_Reset :: "flushingWriter \<Rightarrow> flushingWriter" where
  "fw_Reset f = (if fw_committed f then f else f\<lparr>fw_buf := []\<rparr>)"

definition fw_GrowForRow :: "int \<Rightarrow> flushingWriter \<Rightarrow> flushingWriter" where
  "fw_GrowForRow rowBytes f =
     (if fw_grew f \<or> fw_rowsHint f \<le> 0 \<or> rowBytes \<le> 0 then f else f\<lparr>fw_grew := True\<rparr>)"

section \<open>The interface\<close>

text \<open>
  What the query engine relies on. \<open>sent\<close> are the bytes handed to the caller's writer, \<open>buf\<close> those
  waiting; a good state has counted what it sent. Appending extends the waiting bytes, a flush
  without an error moves them over in one write or leaves them, and a reset drops the waiting bytes
  as long as nothing was sent.
\<close>

locale out_writer =
  fixes good :: "'s \<Rightarrow> bool"
    and sent :: "'s \<Rightarrow> bytes list"
    and buf :: "'s \<Rightarrow> bytes"
    and setBuf :: "bytes \<Rightarrow> 's \<Rightarrow> 's"
    and append :: "bytes \<Rightarrow> 's \<Rightarrow> 's"
    and maybeFlush :: "'s \<Rightarrow> 's \<times> nat option"
    and flush :: "'s \<Rightarrow> 's \<times> nat option"
    and committed :: "'s \<Rightarrow> bool"
    and reset :: "'s \<Rightarrow> 's"
    and bytesOut :: "'s \<Rightarrow> nat"
    and grow :: "int \<Rightarrow> 's \<Rightarrow> 's"
  assumes set_laws: "buf (setBuf p s) = p" "sent (setBuf p s) = sent s" "good s \<Longrightarrow> good (setBuf p s)"
      "committed (setBuf p s) = committed s"
    and append_laws: "buf (append p s) = buf s @ p" "sent (append p s) = sent s" "good s \<Longrightarrow> good (append p s)"
      "committed (append p s) = committed s"
    and maybe_laws: "good s \<Longrightarrow> maybeFlush s = (s', None) \<Longrightarrow>
        good s' \<and> (sent s' = sent s \<and> buf s' = buf s \<or> buf s' = [] \<and> sent s' = sent s @ [buf s])"
    and flush_laws: "good s \<Longrightarrow> flush s = (s', None) \<Longrightarrow>
        good s' \<and> (sent s' = sent s \<and> buf s' = buf s \<or> buf s' = [] \<and> sent s' = sent s @ [buf s])"
    and committed_law: "good s \<Longrightarrow> committed s \<longleftrightarrow> concat (sent s) \<noteq> []"
    and reset_laws: "committed s \<Longrightarrow> good s \<Longrightarrow> reset s = s"
      "\<not> committed s \<Longrightarrow> good s \<Longrightarrow> buf (reset s) = [] \<and> sent (reset s) = sent s \<and> good (reset s)"
    and bytes_law: "good s \<Longrightarrow> bytesOut s = length (concat (sent s) @ buf s)"
    and grow_laws: "buf (grow n s) = buf s" "sent (grow n s) = sent s" "good s \<Longrightarrow> good (grow n s)"
      "committed (grow n s) = committed s"
begin

text \<open>Everything produced so far.\<close>

definition produced :: "'s \<Rightarrow> bytes" where
  "produced s = concat (sent s) @ buf s"

lemma produced_append: "produced (append p s) = produced s @ p"
  by (simp add: produced_def append_laws)

lemma produced_setBuf: "produced (setBuf (buf s @ p) s) = produced s @ p"
  by (simp add: produced_def set_laws)

lemma produced_maybeFlush: "good s \<Longrightarrow> maybeFlush s = (s', None) \<Longrightarrow> good s' \<and> produced s' = produced s"
  using maybe_laws [of s s'] by (auto simp: produced_def)

lemma produced_flush: "good s \<Longrightarrow> flush s = (s', None) \<Longrightarrow> good s' \<and> produced s' = produced s"
  using flush_laws [of s s'] by (auto simp: produced_def)

lemma produced_grow: "produced (grow n s) = produced s"
  by (simp add: produced_def grow_laws)

lemma bytesOut_produced: "good s \<Longrightarrow> bytesOut s = length (produced s)"
  by (simp add: produced_def bytes_law)

lemma reset_produced: "good s \<Longrightarrow> \<not> committed s \<Longrightarrow> produced (reset s) = [] \<and> good (reset s) \<and> \<not> committed (reset s)"
  using reset_laws(2) [of s] committed_law [of s] committed_law [of "reset s"] by (auto simp: produced_def)

text \<open>Chunks appended one after the other, with a flush point after each.\<close>

fun emit :: "bytes list \<Rightarrow> 's \<Rightarrow> 's \<times> nat option" where
  "emit [] s = (s, None)"
| "emit (p # ps) s =
     (case maybeFlush (setBuf (buf s @ p) s) of (s, None) \<Rightarrow> emit ps s | (s, Some e) \<Rightarrow> (s, Some e))"

lemma emit_produced: "good s \<Longrightarrow> emit ps s = (s', None) \<Longrightarrow> good s' \<and> produced s' = produced s @ concat ps"
proof (induction ps arbitrary: s)
  case (Cons p ps)
  obtain s1 where s1: "maybeFlush (setBuf (buf s @ p) s) = (s1, None)" "emit ps s1 = (s', None)"
    using Cons.prems(2) by (auto split: prod.splits option.splits)
  have "good s1 \<and> produced s1 = produced s @ p"
    using produced_maybeFlush [OF _ s1(1)] Cons.prems(1) by (simp add: set_laws produced_setBuf)
  with Cons.IH [OF _ s1(2)] show ?case by simp
qed simp

text \<open>Every write handed over is a concatenation of whole chunks.\<close>

lemma emit_whole:
  assumes "good s" "buf s = concat qs" "emit ps s = (s', None)"
  shows "\<exists>css rest. sent s' = sent s @ map concat css \<and> buf s' = concat rest \<and> qs @ ps = concat css @ rest"
  using assms
proof (induction ps arbitrary: s qs)
  case Nil
  then show ?case by (intro exI [of _ "[]"] exI [of _ qs]) simp
next
  case (Cons p ps)
  let ?t = "setBuf (buf s @ p) s"
  obtain s1 where s1: "maybeFlush ?t = (s1, None)" "emit ps s1 = (s', None)"
    using Cons.prems(3) by (auto split: prod.splits option.splits)
  have t: "good ?t" "sent ?t = sent s" "buf ?t = concat (qs @ [p])" using Cons.prems by (simp_all add: set_laws)
  from maybe_laws [OF t(1) s1(1)] consider
      "sent s1 = sent s" "buf s1 = concat (qs @ [p])" | "buf s1 = concat []" "sent s1 = sent s @ [concat (qs @ [p])]"
    using t by auto
  then show ?case
  proof cases
    case 1
    from Cons.IH [OF _ 1(2) s1(2)] maybe_laws [OF t(1) s1(1)] 1(1) show ?thesis by (simp add: append_assoc)
  next
    case 2
    from Cons.IH [OF _ 2(1) s1(2)] maybe_laws [OF t(1) s1(1)] obtain css rest where
      "sent s' = sent s1 @ map concat css" "buf s' = concat rest" "ps = concat css @ rest" by auto
    then show ?thesis using 2(2) by (intro exI [of _ "(qs @ [p]) # css"] exI [of _ rest]) simp
  qed
qed

end


section \<open>Both paths keep the interface\<close>

text \<open>A flushing writer is good when its count and its flag agree with what the sink took.\<close>

definition fw_good :: "flushingWriter \<Rightarrow> bool" where
  "fw_good f \<longleftrightarrow>
     fw_written f = length (sink_got (fw_w f)) \<and> (fw_committed f \<longleftrightarrow> sink_got (fw_w f) \<noteq> [])"

interpretation bw: out_writer "\<lambda>b. True" "\<lambda>b. []" bw_p bw_SetBuf bw_Write bw_MaybeFlush bw_Flush
  bw_Committed bw_Reset bw_BytesOut bw_GrowForRow
  by unfold_locales
     (auto simp: bw_SetBuf_def bw_Write_def bw_MaybeFlush_def bw_Flush_def bw_Committed_def bw_Reset_def
       bw_BytesOut_def bw_GrowForRow_def)

lemma fw_Flush_ok:
  assumes "fw_good f" "fw_Flush f = (f', None)"
  shows "fw_good f' \<and> (writes (fw_w f') = writes (fw_w f) \<and> fw_buf f' = fw_buf f \<or>
           fw_buf f' = [] \<and> writes (fw_w f') = writes (fw_w f) @ [fw_buf f])"
  using assms
  by (auto simp: fw_Flush_def fw_good_def sink_write_def sink_got_def fw_time_Now_def Let_def
      split: if_splits option.splits prod.splits)

lemma fw_good_tick: "fw_good (f\<lparr>fw_ticks := n\<rparr>) = fw_good f"
  by (simp add: fw_good_def)

lemma fw_MaybeFlush_ok:
  assumes "fw_good f" "fw_MaybeFlush f = (f', None)"
  shows "fw_good f' \<and> (writes (fw_w f') = writes (fw_w f) \<and> fw_buf f' = fw_buf f \<or>
           fw_buf f' = [] \<and> writes (fw_w f') = writes (fw_w f) @ [fw_buf f])"
  using assms fw_Flush_ok [of f f'] fw_Flush_ok [of "f\<lparr>fw_ticks := fw_ticks f + 1\<rparr>" f']
  by (auto simp: fw_MaybeFlush_def fw_time_Now_def fw_good_tick Let_def split: if_splits)

interpretation fw: out_writer fw_good "\<lambda>f. writes (fw_w f)" fw_buf fw_SetBuf fw_Write fw_MaybeFlush fw_Flush
  fw_Committed fw_Reset fw_BytesOut fw_GrowForRow
proof unfold_locales
  show "fw_good f \<Longrightarrow> fw_MaybeFlush f = (f', None) \<Longrightarrow>
      fw_good f' \<and> (writes (fw_w f') = writes (fw_w f) \<and> fw_buf f' = fw_buf f \<or>
        fw_buf f' = [] \<and> writes (fw_w f') = writes (fw_w f) @ [fw_buf f])" for f f' by (rule fw_MaybeFlush_ok)
  show "fw_good f \<Longrightarrow> fw_Flush f = (f', None) \<Longrightarrow>
      fw_good f' \<and> (writes (fw_w f') = writes (fw_w f) \<and> fw_buf f' = fw_buf f \<or>
        fw_buf f' = [] \<and> writes (fw_w f') = writes (fw_w f) @ [fw_buf f])" for f f' by (rule fw_Flush_ok)
qed (auto simp: fw_SetBuf_def fw_Write_def fw_Committed_def fw_Reset_def fw_BytesOut_def fw_GrowForRow_def
    fw_good_def sink_got_def)

section \<open>The dynamic dispatch of outWriter\<close>

datatype outWriter = BufW bufWriter | FlushW flushingWriter

primrec Buf :: "outWriter \<Rightarrow> bytes" where
  "Buf (BufW b) = bw_p b"
| "Buf (FlushW f) = fw_buf f"

primrec SetBuf :: "bytes \<Rightarrow> outWriter \<Rightarrow> outWriter" where
  "SetBuf p (BufW b) = BufW (bw_SetBuf p b)"
| "SetBuf p (FlushW f) = FlushW (fw_SetBuf p f)"

primrec Write :: "bytes \<Rightarrow> outWriter \<Rightarrow> outWriter" where
  "Write p (BufW b) = BufW (bw_Write p b)"
| "Write p (FlushW f) = FlushW (fw_Write p f)"

primrec WriteByte :: "byte \<Rightarrow> outWriter \<Rightarrow> outWriter" where
  "WriteByte c (BufW b) = BufW (bw_WriteByte c b)"
| "WriteByte c (FlushW f) = FlushW (fw_WriteByte c f)"

primrec MaybeFlush :: "outWriter \<Rightarrow> outWriter \<times> nat option" where
  "MaybeFlush (BufW b) = map_prod BufW id (bw_MaybeFlush b)"
| "MaybeFlush (FlushW f) = map_prod FlushW id (fw_MaybeFlush f)"

primrec FlushOut :: "outWriter \<Rightarrow> outWriter \<times> nat option" where
  "FlushOut (BufW b) = map_prod BufW id (bw_Flush b)"
| "FlushOut (FlushW f) = map_prod FlushW id (fw_Flush f)"

primrec Committed :: "outWriter \<Rightarrow> bool" where
  "Committed (BufW b) = bw_Committed b"
| "Committed (FlushW f) = fw_Committed f"

primrec Reset :: "outWriter \<Rightarrow> outWriter" where
  "Reset (BufW b) = BufW (bw_Reset b)"
| "Reset (FlushW f) = FlushW (fw_Reset f)"

primrec BytesOut :: "outWriter \<Rightarrow> nat" where
  "BytesOut (BufW b) = bw_BytesOut b"
| "BytesOut (FlushW f) = fw_BytesOut f"

primrec GrowForRow :: "int \<Rightarrow> outWriter \<Rightarrow> outWriter" where
  "GrowForRow n (BufW b) = BufW (bw_GrowForRow n b)"
| "GrowForRow n (FlushW f) = FlushW (fw_GrowForRow n f)"

primrec out_good :: "outWriter \<Rightarrow> bool" where
  "out_good (BufW b) = True"
| "out_good (FlushW f) = fw_good f"

primrec out_sent :: "outWriter \<Rightarrow> bytes list" where
  "out_sent (BufW b) = []"
| "out_sent (FlushW f) = writes (fw_w f)"

lemma WriteByte_Write: "WriteByte c out = Write [c] out"
  by (cases out) (simp_all add: bw_WriteByte_def bw_Write_def fw_WriteByte_def fw_Write_def)

text \<open>How the accessors of either path act, for the interpretation below.\<close>

lemma out_accessors:
  "Buf (SetBuf p s) = p \<and> out_sent (SetBuf p s) = out_sent s \<and> (out_good s \<longrightarrow> out_good (SetBuf p s)) \<and>
     Committed (SetBuf p s) = Committed s"
  "Buf (Write p s) = Buf s @ p \<and> out_sent (Write p s) = out_sent s \<and> (out_good s \<longrightarrow> out_good (Write p s)) \<and>
     Committed (Write p s) = Committed s"
  "Buf (GrowForRow n s) = Buf s \<and> out_sent (GrowForRow n s) = out_sent s \<and>
     (out_good s \<longrightarrow> out_good (GrowForRow n s)) \<and> Committed (GrowForRow n s) = Committed s"
  by (cases s; simp add: bw_SetBuf_def fw_SetBuf_def bw_Write_def fw_Write_def bw_GrowForRow_def fw_GrowForRow_def
        bw_Committed_def fw_Committed_def fw_good_def)+

interpretation ow: out_writer out_good out_sent Buf SetBuf Write MaybeFlush FlushOut Committed Reset BytesOut GrowForRow
proof unfold_locales
  fix s s' p
  show "Buf (SetBuf p s) = p" "out_sent (SetBuf p s) = out_sent s" "out_good s \<Longrightarrow> out_good (SetBuf p s)"
    "Committed (SetBuf p s) = Committed s"
    by (simp_all add: out_accessors)
  show "Buf (Write p s) = Buf s @ p" "out_sent (Write p s) = out_sent s" "out_good s \<Longrightarrow> out_good (Write p s)"
    "Committed (Write p s) = Committed s"
    by (simp_all add: out_accessors)
  show "out_good s \<Longrightarrow> MaybeFlush s = (s', None) \<Longrightarrow>
      out_good s' \<and> (out_sent s' = out_sent s \<and> Buf s' = Buf s \<or> Buf s' = [] \<and> out_sent s' = out_sent s @ [Buf s])"
  proof (cases s)
    case (FlushW f)
    assume "out_good s" "MaybeFlush s = (s', None)"
    with FlushW obtain f' where f': "s' = FlushW f'" "fw_MaybeFlush f = (f', None)" "fw_good f"
      by (cases "fw_MaybeFlush f") auto
    from fw.maybe_laws [OF f'(3,2)] show ?thesis by (simp add: FlushW f'(1))
  qed (auto simp: bw_MaybeFlush_def)
  show "out_good s \<Longrightarrow> FlushOut s = (s', None) \<Longrightarrow>
      out_good s' \<and> (out_sent s' = out_sent s \<and> Buf s' = Buf s \<or> Buf s' = [] \<and> out_sent s' = out_sent s @ [Buf s])"
  proof (cases s)
    case (FlushW f)
    assume "out_good s" "FlushOut s = (s', None)"
    with FlushW obtain f' where f': "s' = FlushW f'" "fw_Flush f = (f', None)" "fw_good f"
      by (cases "fw_Flush f") auto
    from fw.flush_laws [OF f'(3,2)] show ?thesis by (simp add: FlushW f'(1))
  qed (auto simp: bw_Flush_def)
  show "out_good s \<Longrightarrow> Committed s = (concat (out_sent s) \<noteq> [])"
    using fw.committed_law by (cases s) (auto simp: bw_Committed_def)
  show "Committed s \<Longrightarrow> out_good s \<Longrightarrow> Reset s = s"
    by (cases s) (auto simp: bw_Committed_def fw.reset_laws)
  show "\<not> Committed s \<Longrightarrow> out_good s \<Longrightarrow> Buf (Reset s) = [] \<and> out_sent (Reset s) = out_sent s \<and> out_good (Reset s)"
    by (cases s) (auto simp: bw_Reset_def fw.reset_laws)
  show "out_good s \<Longrightarrow> BytesOut s = length (concat (out_sent s) @ Buf s)"
    using fw.bytes_law by (cases s) (auto simp: bw_BytesOut_def)
  show "Buf (GrowForRow n s) = Buf s" "out_sent (GrowForRow n s) = out_sent s" "out_good s \<Longrightarrow> out_good (GrowForRow n s)"
    "Committed (GrowForRow n s) = Committed s" for n
    by (simp_all add: out_accessors)
qed

section \<open>Properties\<close>

text \<open>
  C22. Streaming equals buffering: whenever the flushing writer takes a sequence of chunks, with a
  flush point after each and a final flush, without an error, then the caller's writer received
  exactly the bytes the in-memory writer holds after the same chunks, whatever the threshold, the
  interval and the clock; and each single write is made of whole chunks, so no row is split.
\<close>

theorem streaming_equals_buffering:
  assumes "fw_good f" "fw_buf f = []" "writes (fw_w f) = []" "bw_p b = []" "[] \<notin> set ps"
    and "fw.emit ps f = (f1, None)" "fw_Flush f1 = (f2, None)" "bw.emit ps b = (b1, e)"
  shows "sink_got (fw_w f2) = bw_p b1 \<and> fw_buf f2 = [] \<and> fw_BytesOut f2 = bw_BytesOut b1 \<and>
         (\<exists>css. writes (fw_w f2) = map concat css \<and> concat css = ps)"
proof -
  have e: "e = None" using assms(8)
  proof (induction ps arbitrary: b)
    case (Cons p ps)
    from Cons.prems have "bw.emit ps (bw_SetBuf (bw_p b @ p) b) = (b1, e)"
      unfolding bw.emit.simps by (simp only: bw_MaybeFlush_def prod.case option.case)
    then show ?case by (rule Cons.IH)
  qed simp
  have b1: "bw_p b1 = concat ps" using bw.emit_produced [where s = b and ps = ps and s' = b1] assms(4,8) e by (simp add: bw.produced_def)
  have f1: "fw_good f1" "fw.produced f1 = concat ps"
    using fw.emit_produced [OF assms(1,6)] assms(2,3) by (simp_all add: fw.produced_def)
  have f2: "fw_good f2" "fw.produced f2 = concat ps" using fw.produced_flush [OF f1(1) assms(7)] f1(2) by simp_all
  have empty: "fw_buf f2 = []"
    using assms(7) by (auto simp: fw_Flush_def fw_time_Now_def Let_def split: if_splits prod.splits option.splits)
  obtain css rest where w: "writes (fw_w f1) = map concat css" "fw_buf f1 = concat rest" "ps = concat css @ rest"
    using fw.emit_whole [OF assms(1) _ assms(6), of "[]"] assms(2,3) by auto
  have "\<exists>css'. writes (fw_w f2) = map concat css' \<and> concat css' = ps"
  proof (cases "rest = []")
    case True
    then have "fw_buf f1 = []" using w by simp
    then have "writes (fw_w f2) = writes (fw_w f1)"
      using assms(7) by (auto simp: fw_Flush_def fw_time_Now_def Let_def split: if_splits prod.splits)
    then show ?thesis using w True by auto
  next
    case False
    have "[] \<notin> set rest" using assms(5) w(3) by auto
    with False have "fw_buf f1 \<noteq> []" using w(2) by (cases rest) auto
    with fw.flush_laws [OF f1(1) assms(7)] empty have "writes (fw_w f2) = writes (fw_w f1) @ [fw_buf f1]" by auto
    then show ?thesis using w by (intro exI [of _ "css @ [rest]"]) simp
  qed
  moreover have "fw_BytesOut f2 = bw_BytesOut b1"
    using fw.bytesOut_produced [OF f2(1)] f2(2) b1 by (simp add: bw_BytesOut_def)
  moreover have "sink_got (fw_w f2) = bw_p b1" using f2(2) empty b1 by (simp add: fw.produced_def sink_got_def)
  ultimately show ?thesis using empty by blast
qed

text \<open>A fresh flushing writer over a sink that takes everything.\<close>

definition fresh_flushing :: flushingWriter where
  "fresh_flushing =
     \<lparr>fw_w = \<lparr>writes = [], fails = (\<lambda>n. None)\<rparr>, fw_threshold = 4, fw_interval = 0, fw_lastFlush = 0, fw_buf = [],
      fw_src = Some 0, fw_puts = [], fw_committed = False, fw_written = 0, fw_rowsHint = 0, fw_grew = False,
      fw_now = (\<lambda>n. int n), fw_ticks = 0\<rparr>"

theorem streaming_equals_buffering_witness:
  "\<exists>(f2 :: flushingWriter) (b1 :: bufWriter). sink_got (fw_w f2) = bw_p b1 \<and> bw_p b1 = bs ''{1}{22}''"
proof -
  let ?ps = "[bs ''{1}'', bs ''{22}'']"
  let ?b = "\<lparr>bw_p = [], bw_rowsHint = 0, bw_grew = False\<rparr> :: bufWriter"
  obtain f1 where f1: "fw.emit ?ps fresh_flushing = (f1, None)" "fw_buf f1 = []"
    by (simp add: fresh_flushing_def fw_MaybeFlush_def fw_Flush_def fw_SetBuf_def sink_write_def)
  obtain f2 where f2: "fw_Flush f1 = (f2, None)"
    using f1(2) by (cases "0 < fw_interval f1") (auto simp: fw_Flush_def fw_time_Now_def)
  have b: "bw.emit ?ps ?b = (?b\<lparr>bw_p := bs ''{1}{22}''\<rparr>, None)"
    unfolding bw.emit.simps by (simp add: bw_MaybeFlush_def bw_SetBuf_def)
  have "fw_good fresh_flushing" "fw_buf fresh_flushing = []" "writes (fw_w fresh_flushing) = []"
    by (simp_all add: fresh_flushing_def fw_good_def sink_got_def)
  from streaming_equals_buffering [OF this _ _ f1(1) f2 b] have "sink_got (fw_w f2) = bs ''{1}{22}''" by simp
  then show ?thesis by (intro exI [of _ f2] exI [of _ "?b\<lparr>bw_p := bs ''{1}{22}''\<rparr>"]) simp
qed

text \<open>
  Retrying is safe: on either path, resetting a writer from which nothing has been delivered
  leaves no produced byte at all, and resetting after a delivery changes nothing, so bytes already
  with the caller are never contradicted.
\<close>

theorem reset_discards_or_keeps:
  assumes "out_good out"
  shows "(\<not> Committed out \<longrightarrow> concat (out_sent (Reset out)) @ Buf (Reset out) = [] \<and> BytesOut (Reset out) = 0) \<and>
         (Committed out \<longrightarrow> Reset out = out) \<and> (Committed out \<longleftrightarrow> concat (out_sent out) \<noteq> [])"
proof (intro conjI impI)
  assume "\<not> Committed out"
  with ow.reset_produced [OF assms] have r: "ow.produced (Reset out) = []" "out_good (Reset out)" by blast+
  then show "concat (out_sent (Reset out)) @ Buf (Reset out) = []" by (simp add: ow.produced_def)
  show "BytesOut (Reset out) = 0" using ow.bytesOut_produced [OF r(2)] r(1) by simp
next
  show "Committed out \<Longrightarrow> Reset out = out" by (rule ow.reset_laws(1) [OF _ assms])
  show "Committed out \<longleftrightarrow> concat (out_sent out) \<noteq> []" by (rule ow.committed_law [OF assms])
qed

theorem reset_discards_or_keeps_witness:
  "BytesOut (Reset (FlushW (fw_Write (bs ''abc'') fresh_flushing))) = 0"
proof -
  have "out_good (FlushW (fw_Write (bs ''abc'') fresh_flushing))"
    by (simp add: fresh_flushing_def fw_good_def sink_got_def fw_Write_def)
  from reset_discards_or_keeps [OF this] show ?thesis
    by (simp add: fresh_flushing_def fw_Write_def fw_Committed_def)
qed

end
