(* ===== verification/Query.thy ===== *)
theory Query
  imports Client Stream Float_Format
begin

text \<open>
  \<open>pg2json/query.go\<close> and \<open>args.go\<close>: the query engine. A call takes the client and the output
  writer and returns both with an optional error. The context is sampled: \<open>query_env\<close> says whether
  it is done at the points where the source looks (a cancellation that arrives during a read shows
  as the end of the incoming bytes), which entry an eviction drops, and how long the call took. The
  prepared statement is held by pointer in the cache, so a plan replaced while it executes is
  written back. Deadlines, timers and the watcher goroutine of \<open>ctx.go\<close> have no other effect on
  this state. Shown in \<open>Query_Proofs\<close>.
\<close>

section \<open>args.go\<close>

text \<open>Arguments by dynamic type; floats are their bit patterns.\<close>

datatype go_value =
    NilV
  | StringV bytes
  | BytesV bytes
  | BoolV bool
  | IntV int
  | Int32V int
  | Int64V int
  | UintV nat
  | Uint32V nat
  | Uint64V nat
  | Float32V nat
  | Float64V nat
  | OtherV

text \<open>\<open>strconv.FormatFloat(x, 'g', -1, bits)\<close>.\<close>

definition FormatFloat_g :: "float_info \<Rightarrow> nat \<Rightarrow> bytes" where
  "FormatFloat_g flt b =
     (if float_is_nan flt b then bs ''NaN''
      else if float_is_inf flt b then (if float_neg flt b then bs ''-Inf'' else bs ''+Inf'')
      else AppendFloat_g flt [] b)"

text \<open>The text form and whether it is NULL, or an error.\<close>

definition encodeArg :: "go_value \<Rightarrow> client_error + bytes \<times> bool" where
  "encodeArg v =
     (case v of
        NilV \<Rightarrow> Inr ([], True)
      | StringV x \<Rightarrow> Inr (x, False)
      | BytesV x \<Rightarrow> Inr ([92, 120] @ hex_EncodeToString x, False)
      | BoolV x \<Rightarrow> Inr (if x then bs ''t'' else bs ''f'', False)
      | IntV x \<Rightarrow> Inr (dec_int x, False)
      | Int32V x \<Rightarrow> Inr (dec_int x, False)
      | Int64V x \<Rightarrow> Inr (dec_int x, False)
      | UintV x \<Rightarrow> Inr (dec_nat x, False)
      | Uint32V x \<Rightarrow> Inr (dec_nat x, False)
      | Uint64V x \<Rightarrow> Inr (dec_nat x, False)
      | Float32V x \<Rightarrow> Inr (FormatFloat_g float32info x, False)
      | Float64V x \<Rightarrow> Inr (FormatFloat_g float64info x, False)
      | OtherV \<Rightarrow> Inl ArgErr)"

section \<open>Caps\<close>

definition checkCaps :: "Client \<Rightarrow> outWriter \<Rightarrow> nat \<Rightarrow> ResponseTooLargeError option" where
  "checkCaps c out rowCount =
     (let max' = MaxResponseRows (cl_cfg c) in
      if max' > 0 \<and> int rowCount \<ge> max' then
        Some \<lparr>Limit = bs ''rows'', LimitVal = max', Observed = int rowCount, tl_Committed = Committed out\<rparr>
      else
        let max' = MaxResponseBytes (cl_cfg c) in
        if max' > 0 then
          (let got = int (BytesOut out) in
           if got \<ge> max' then
             Some \<lparr>Limit = bs ''bytes'', LimitVal = max', Observed = got, tl_Committed = Committed out\<rparr>
           else None)
        else None)"

definition abort_step :: "byte \<Rightarrow> bytes \<Rightarrow> Client \<Rightarrow> Client + Client" where
  "abort_step t body c =
     (if t = MsgReadyForQuery then Inr c
      else if t = MsgParameterStatus then Inl (set_param body c)
      else if t = MsgNoticeResponse then Inl (observe (OnNotice (Parse body)) c)
      else Inl c)"

definition abortOversize :: "ResponseTooLargeError \<Rightarrow> Client \<Rightarrow> Client \<times> client_error option" where
  "abortOversize capErr c =
     (let c = fst (SendCancel c);
          (cn, c) = msg_loop abort_step (\<lambda>e c. c) (cl_conn c) c
      in (c\<lparr>cl_conn := cn\<rparr>, Some (TooLarge capErr)))"

section \<open>Output shapes\<close>

datatype Mode = ModeArray | ModeNDJSON | ModeColumnar | ModeTOON

definition writeHeader :: "outWriter \<Rightarrow> Mode \<Rightarrow> Plan \<Rightarrow> outWriter" where
  "writeHeader out mode plan =
     (case mode of
        ModeArray \<Rightarrow> WriteByte 91 out
      | ModeNDJSON \<Rightarrow> out
      | ModeColumnar \<Rightarrow> Write (ColumnsArrayHeader plan) out
      | ModeTOON \<Rightarrow> Write (TOONHeader plan) out)"

text \<open>The row appended to the scratch buffer, and the decoder's error.\<close>

definition appendRow :: "bytes \<Rightarrow> Mode \<Rightarrow> Plan \<Rightarrow> bytes \<Rightarrow> nat \<Rightarrow> bytes \<times> rows_error option" where
  "appendRow scratch mode plan body idx =
     (case mode of
        ModeArray \<Rightarrow> AppendObject (if idx > 0 then scratch @ [44] else scratch) body plan
      | ModeNDJSON \<Rightarrow> (let (scratch, err) = AppendObject scratch body plan in (scratch @ [10], err))
      | ModeColumnar \<Rightarrow> AppendArray (if idx > 0 then scratch @ [44] else scratch) body plan
      | ModeTOON \<Rightarrow> AppendTOONRow scratch body plan)"

definition writeRow :: "outWriter \<Rightarrow> Mode \<Rightarrow> Plan \<Rightarrow> bytes \<Rightarrow> nat \<Rightarrow> outWriter \<times> client_error option" where
  "writeRow out mode plan body idx =
     (let scratch = Buf out;
          startLen = length scratch
      in case appendRow scratch mode plan body idx of
           (_, Some err) \<Rightarrow> (out, Some (RowErr err))
         | (scratch, None) \<Rightarrow>
             let out = SetBuf scratch out;
                 out = (if idx = 0 then GrowForRow (int (length scratch) - int startLen) out else out);
                 (out, err) = MaybeFlush out
             in (out, map_option SinkErr err))"

definition writeFooter :: "outWriter \<Rightarrow> Mode \<Rightarrow> outWriter" where
  "writeFooter out mode =
     (case mode of
        ModeArray \<Rightarrow> WriteByte 93 out
      | ModeColumnar \<Rightarrow> Write (bs '']}'') out
      | _ \<Rightarrow> out)"

section \<open>Executing\<close>

text \<open>The locals of the two result loops, and how a loop ends.\<close>

record exec_state =
  ex_client :: Client
  ex_out :: outWriter
  ex_plan :: "Plan option"
  ex_rowCount :: nat
  ex_headerWritten :: bool
  ex_pgError :: "pg_error option"

datatype exec_end = Return "client_error option" | Oversize ResponseTooLargeError

definition on_client :: "(Client \<Rightarrow> Client) \<Rightarrow> exec_state \<Rightarrow> exec_state" where
  "on_client f s = s\<lparr>ex_client := f (ex_client s)\<rparr>"

text \<open>The branch of a DataRow.\<close>

definition row_step :: "Mode \<Rightarrow> Plan \<Rightarrow> bytes \<Rightarrow> exec_state \<Rightarrow> exec_state + exec_state \<times> exec_end" where
  "row_step mode plan body s =
     (let s = (if \<not> ex_headerWritten s
               then s\<lparr>ex_out := writeHeader (ex_out s) mode plan, ex_headerWritten := True\<rparr> else s) in
      case writeRow (ex_out s) mode plan body (ex_rowCount s) of
        (out, Some err) \<Rightarrow> Inr (s\<lparr>ex_out := out\<rparr>, Return (Some err))
      | (out, None) \<Rightarrow>
          let s = s\<lparr>ex_out := out, ex_rowCount := ex_rowCount s + 1\<rparr> in
          (case checkCaps (ex_client s) (ex_out s) (ex_rowCount s) of
             Some capErr \<Rightarrow> Inr (on_client (\<lambda>c. c\<lparr>cl_lastRows := ex_rowCount s\<rparr>) s, Oversize capErr)
           | None \<Rightarrow> Inl s))"

text \<open>The branch of ReadyForQuery.\<close>

definition ready_step :: "Mode \<Rightarrow> Plan \<Rightarrow> exec_state \<Rightarrow> exec_state + exec_state \<times> exec_end" where
  "ready_step mode plan s =
     (let s = on_client (\<lambda>c. c\<lparr>cl_lastRows := ex_rowCount s\<rparr>) s in
      case ex_pgError s of
        Some e \<Rightarrow> Inr (s, Return (Some (PgErr e)))
      | None \<Rightarrow>
          let out = (if \<not> ex_headerWritten s then writeHeader (ex_out s) mode plan else ex_out s);
              (out, err) = FlushOut (writeFooter out mode)
          in Inr (s\<lparr>ex_out := out\<rparr>, Return (map_option SinkErr err)))"

text \<open>The \<open>switch\<close> of \<open>bindExecute\<close>; the statement's plan is the one in the state.\<close>

definition bind_step :: "Mode \<Rightarrow> Plan \<Rightarrow> int list \<Rightarrow> byte \<Rightarrow> bytes \<Rightarrow> exec_state \<Rightarrow> exec_state + exec_state \<times> exec_end" where
  "bind_step mode plan0 fmts t body s =
     (let plan = (case ex_plan s of Some p \<Rightarrow> p | None \<Rightarrow> plan0) in
      if t = MsgBindComplete then Inl s
      else if t = MsgDataRow then row_step mode plan body s
      else if t = MsgCommandComplete \<or> t = MsgEmptyQueryResponse \<or> t = MsgPortalSuspended \<or> t = MsgCloseComplete
        then Inl s
      else if t = MsgRowDescription then
        (case ParseRowDescriptionForFormats body fmts of
           Inl e \<Rightarrow> Inr (s, Return (Some (RowErr e)))
         | Inr newPlan \<Rightarrow> Inl (s\<lparr>ex_plan := Some newPlan\<rparr>))
      else if t = MsgNoticeResponse then Inl (on_client (observe (OnNotice (Parse body))) s)
      else if t = MsgParameterStatus then Inl (on_client (set_param body) s)
      else if t = MsgErrorResponse then Inl (s\<lparr>ex_pgError := Some (Parse body)\<rparr>)
      else if t = MsgReadyForQuery then ready_step mode plan s
      else Inr (s, Return (Some (UnexpectedMsg t))))"

text \<open>The plan with no columns that a reply without rows is rendered with.\<close>

definition empty_plan :: Plan where
  "empty_plan = \<lparr>Columns = [], ColumnsArrayHeader = bs ''{\"columns\":[],\"rows\":['', TOONHeader = []\<rparr>"

text \<open>The \<open>switch\<close> of \<open>consumeText\<close>.\<close>

definition text_step :: "Mode \<Rightarrow> byte \<Rightarrow> bytes \<Rightarrow> exec_state \<Rightarrow> exec_state + exec_state \<times> exec_end" where
  "text_step mode t body s =
     (if t = MsgRowDescription then
        (case ParseRowDescription body of
           Inl e \<Rightarrow> Inr (s, Return (Some (RowErr e)))
         | Inr plan \<Rightarrow> Inl (s\<lparr>ex_plan := Some plan\<rparr>))
      else if t = MsgDataRow then
        (case ex_plan s of
           None \<Rightarrow> Inr (s, Return (Some EarlyDataRow))
         | Some plan \<Rightarrow> row_step mode plan body s)
      else if t = MsgCommandComplete \<or> t = MsgEmptyQueryResponse then Inl s
      else if t = MsgNoticeResponse then Inl (on_client (observe (OnNotice (Parse body))) s)
      else if t = MsgParameterStatus then Inl (on_client (set_param body) s)
      else if t = MsgErrorResponse then Inl (s\<lparr>ex_pgError := Some (Parse body)\<rparr>)
      else if t = MsgReadyForQuery then
        ready_step mode (case ex_plan s of Some p \<Rightarrow> p | None \<Rightarrow> empty_plan) s
      else Inr (s, Return (Some (UnexpectedMsg t))))"

text \<open>A result loop from its start to its return, oversize aborts included.\<close>

definition run_exec :: "(byte \<Rightarrow> bytes \<Rightarrow> exec_state \<Rightarrow> exec_state + exec_state \<times> exec_end) \<Rightarrow> outWriter \<Rightarrow> Client \<Rightarrow>
    Client \<times> outWriter \<times> Plan option \<times> client_error option" where
  "run_exec step out c =
     (let s = \<lparr>ex_client = c, ex_out = out, ex_plan = None, ex_rowCount = 0, ex_headerWritten = False, ex_pgError = None\<rparr>;
          (cn, s, r) = msg_loop step (\<lambda>e s. (s, Return (Some (WireErr e)))) (cl_conn c) s;
          c = (ex_client s)\<lparr>cl_conn := cn\<rparr>
      in case r of
           Return err \<Rightarrow> (c, ex_out s, ex_plan s, err)
         | Oversize capErr \<Rightarrow> (let (c, err) = abortOversize capErr c in (c, ex_out s, ex_plan s, err)))"

definition consumeText :: "outWriter \<Rightarrow> Mode \<Rightarrow> Client \<Rightarrow> Client \<times> outWriter \<times> client_error option" where
  "consumeText out mode c = (let (c, out, _, err) = run_exec (text_step mode) out c in (c, out, err))"

definition runSimple :: "outWriter \<Rightarrow> Mode \<Rightarrow> bytes \<Rightarrow> Client \<Rightarrow> Client \<times> outWriter \<times> client_error option" where
  "runSimple out mode sql c =
     (case send_msg MsgQuery (B_CString sql) c of
        (c, Some err) \<Rightarrow> (c, out, Some err)
      | (c, None) \<Rightarrow> consumeText out mode c)"

definition allBinary :: "int list \<Rightarrow> bool" where
  "allBinary fmts \<longleftrightarrow> (if length fmts = 0 then False else list_all (\<lambda>f. f = 1) fmts)"

definition isRetryableSerialization :: "client_error \<Rightarrow> bool" where
  "isRetryableSerialization err =
     (case err of PgErr pe \<Rightarrow> Code pe = bs ''40001'' \<or> Code pe = bs ''40P01'' | _ \<Rightarrow> False)"

definition isStaleStmtError :: "client_error \<Rightarrow> bool" where
  "isStaleStmtError err = (case err of PgErr pe \<Rightarrow> Code pe = bs ''26000'' | _ \<Rightarrow> False)"

text \<open>The parameter loop of a Bind message; an unsupported argument leaves the message unfinished.\<close>

fun bind_args :: "go_value list \<Rightarrow> Conn \<Rightarrow> Conn \<times> client_error option" where
  "bind_args [] cn = (cn, None)"
| "bind_args (a # as) cn =
     (case encodeArg a of
        Inl err \<Rightarrow> (cn, Some err)
      | Inr (s, isNull) \<Rightarrow>
          if isNull then bind_args as (B_Int32 (- 1) cn)
          else bind_args as (B_String s (B_Int32 (int (length s)) cn)))"

definition bind_formats :: "int list \<Rightarrow> Conn \<Rightarrow> Conn" where
  "bind_formats fmts cn =
     (if allBinary fmts then B_Int16 1 (B_Int16 1 cn)
      else foldl (\<lambda>cn f. B_Int16 f cn) (B_Int16 (int (length fmts)) cn) fmts)"

text \<open>Bind, Execute and Sync in one write.\<close>

definition send_bind :: "bytes \<Rightarrow> int list \<Rightarrow> go_value list \<Rightarrow> Conn \<Rightarrow> Conn \<times> client_error option" where
  "send_bind name fmts args cn =
     (let (cn, bd) = Begin MsgBind cn;
          cn = B_CString [] cn;
          cn = B_CString name cn;
          cn = B_Int16 0 cn;
          cn = B_Int16 (int (length args)) cn
      in case bind_args args cn of
           (cn, Some err) \<Rightarrow> (cn, Some err)
         | (cn, None) \<Rightarrow>
             let cn = Finish bd (bind_formats fmts cn);
                 (cn, ex) = Begin MsgExecute cn;
                 cn = Finish ex (B_Int32 0 (B_CString [] cn));
                 (cn, sy) = Begin MsgSync cn;
                 (cn, err) = Flush (Finish sy cn)
             in (cn, map_option WireErr err))"

definition bindExecute :: "outWriter \<Rightarrow> Mode \<Rightarrow> preparedStmt \<Rightarrow> go_value list \<Rightarrow> Client \<Rightarrow>
    Client \<times> outWriter \<times> preparedStmt \<times> client_error option" where
  "bindExecute out mode st args c =
     (case send_bind (st_name st) (st_resultFmts st) args (cl_conn c) of
        (cn, Some err) \<Rightarrow> (c\<lparr>cl_conn := cn\<rparr>, out, st, Some err)
      | (cn, None) \<Rightarrow>
          let (c, out, plan, err) = run_exec (bind_step mode (st_plan st) (st_resultFmts st)) out (c\<lparr>cl_conn := cn\<rparr>)
          in (c, out, (case plan of Some p \<Rightarrow> st\<lparr>st_plan := p\<rparr> | None \<Rightarrow> st), err))"

section \<open>Preparing\<close>

record prep_state =
  pr_client :: Client
  pr_plan :: "Plan option"
  pr_pgError :: "pg_error option"

text \<open>Columns whose type the configuration declares are upgraded to binary.\<close>

definition upgrade_formats :: "32 word list \<Rightarrow> Column list \<Rightarrow> int list \<Rightarrow> int list" where
  "upgrade_formats oids cols fmts = map2 (\<lambda>col f. if list_ex (\<lambda>oid. oid = TypeOID col) oids then 1 else f) cols fmts"

definition prep_step :: "byte \<Rightarrow> bytes \<Rightarrow> prep_state \<Rightarrow> prep_state + Client \<times> (client_error + Plan)" where
  "prep_step t body s =
     (if t = MsgParseComplete \<or> t = MsgParameterDescription \<or> t = MsgCloseComplete \<or> t = MsgNoData then Inl s
      else if t = MsgRowDescription then
        (case ParseRowDescription body of
           Inl e \<Rightarrow> Inr (pr_client s, Inl (RowErr e))
         | Inr plan \<Rightarrow> Inl (s\<lparr>pr_plan := Some plan\<rparr>))
      else if t = MsgErrorResponse then Inl (s\<lparr>pr_pgError := Some (Parse body)\<rparr>)
      else if t = MsgNoticeResponse then Inl (s\<lparr>pr_client := observe (OnNotice (Parse body)) (pr_client s)\<rparr>)
      else if t = MsgParameterStatus then Inl (s\<lparr>pr_client := set_param body (pr_client s)\<rparr>)
      else if t = MsgReadyForQuery then
        (case pr_pgError s of
           Some e \<Rightarrow> Inr (pr_client s, Inl (PgErr e))
         | None \<Rightarrow>
             (case pr_plan s of
                None \<Rightarrow> Inr (pr_client s, Inl NoRowDescription)
              | Some plan \<Rightarrow> Inr (pr_client s, Inr plan)))
      else Inr (pr_client s, Inl (UnexpectedMsg t)))"

definition close_msg :: "bytes \<Rightarrow> Conn \<Rightarrow> Conn" where
  "close_msg dead cn = (let (cn, cl) = Begin MsgClose cn in Finish cl (B_CString dead (B_Byte 83 cn)))"

text \<open>Pending Closes, Parse, Describe and Sync in one write.\<close>

definition send_prepare :: "bytes list \<Rightarrow> bytes \<Rightarrow> bytes \<Rightarrow> Conn \<Rightarrow> Conn \<times> wire_error option" where
  "send_prepare deads name sql cn =
     (let cn = foldl (\<lambda>cn dead. close_msg dead cn) cn deads;
          (cn, p) = Begin MsgParse cn;
          cn = Finish p (B_Int16 0 (B_CString sql (B_CString name cn)));
          (cn, d) = Begin MsgDescribe cn;
          cn = Finish d (B_CString name (B_Byte 83 cn));
          (cn, sy) = Begin MsgSync cn
      in Flush (Finish sy cn))"

definition result_formats :: "Config \<Rightarrow> Plan \<Rightarrow> int list" where
  "result_formats cfg plan =
     (let fmts = PickResultFormats (Columns plan) in
      if length (BinaryOIDs cfg) > 0 then upgrade_formats (BinaryOIDs cfg) (Columns plan) fmts else fmts)"

definition prepareAndDescribe :: "bytes \<Rightarrow> Client \<Rightarrow> Client \<times> (client_error + preparedStmt)" where
  "prepareAndDescribe sql c =
     (let (sc, name) = nextName (cl_stmts c);
          (sc, deads) = takePendingClose sc;
          c = c\<lparr>cl_stmts := sc\<rparr>
      in case send_prepare deads name sql (cl_conn c) of
           (cn, Some err) \<Rightarrow> (c\<lparr>cl_conn := cn\<rparr>, Inl (WireErr err))
         | (cn, None) \<Rightarrow>
             let c = c\<lparr>cl_conn := cn\<rparr>;
                 (cn, c, r) = msg_loop prep_step (\<lambda>e s. (pr_client s, Inl (WireErr e))) (cl_conn c)
                                \<lparr>pr_client = c, pr_plan = None, pr_pgError = None\<rparr>;
                 c = c\<lparr>cl_conn := cn\<rparr>
             in case r of
                  Inl err \<Rightarrow> (c, Inl err)
                | Inr plan \<Rightarrow>
                    let fmts = result_formats (cl_cfg c) plan in
                    (c, Inr \<lparr>st_name = name, st_plan = ApplyFormats plan fmts, st_resultFmts = fmts\<rparr>))"

section \<open>The cached path\<close>

text \<open>The cache holds a pointer to the statement.\<close>

definition sc_set :: "bytes \<Rightarrow> preparedStmt \<Rightarrow> stmtCache \<Rightarrow> stmtCache" where
  "sc_set sql st sc = sc\<lparr>sc_byKey := AList.map_entry sql (\<lambda>_. st) (sc_byKey sc)\<rparr>"

text \<open>The statement for a query: from the cache, or prepared and cached.\<close>

definition obtain_stmt :: "nat \<Rightarrow> bytes \<Rightarrow> Client \<Rightarrow> Client \<times> (client_error + preparedStmt \<times> bool)" where
  "obtain_stmt choice sql c =
     (case sc_get sql (cl_stmts c) of
        Some st \<Rightarrow> (c, Inr (st, True))
      | None \<Rightarrow>
          (case prepareAndDescribe sql c of
             (c, Inl err) \<Rightarrow> (c\<lparr>cl_stmts := sc_invalidate sql (cl_stmts c)\<rparr>, Inl err)
           | (c, Inr st) \<Rightarrow> (c\<lparr>cl_stmts := sc_put choice sql st (cl_stmts c)\<rparr>, Inr (st, False))))"

text \<open>The attempt loop, counting the attempts left: the first of two may be repeated.\<close>

fun runCached_loop :: "nat \<Rightarrow> nat \<Rightarrow> outWriter \<Rightarrow> Mode \<Rightarrow> bytes \<Rightarrow> go_value list \<Rightarrow> Client \<Rightarrow>
    Client \<times> outWriter \<times> client_error option" where
  "runCached_loop 0 choice out mode sql args c = (c, out, None)"
| "runCached_loop (Suc left) choice out mode sql args c =
     (case obtain_stmt choice sql c of
        (c, Inl err) \<Rightarrow> (c, out, Some err)
      | (c, Inr (st, fromCache)) \<Rightarrow>
          let (c, out, st, err) = bindExecute out mode st args c;
              c = c\<lparr>cl_stmts := sc_set sql st (cl_stmts c)\<rparr>
          in case err of
               None \<Rightarrow> (c, out, None)
             | Some err \<Rightarrow>
                 if left = 1 \<and> fromCache \<and> isStaleStmtError err \<and> \<not> Committed out then
                   runCached_loop left choice (Reset out) mode sql args (c\<lparr>cl_stmts := sc_invalidate sql (cl_stmts c)\<rparr>)
                 else (c, out, Some err))"

definition runCached :: "nat \<Rightarrow> outWriter \<Rightarrow> Mode \<Rightarrow> bytes \<Rightarrow> go_value list \<Rightarrow> Client \<Rightarrow> Client \<times> outWriter \<times> client_error option" where
  "runCached choice out mode sql args c = runCached_loop 2 choice out mode sql args c"

section \<open>Entry points\<close>

record query_env =
  qe_attachErr :: bool
  qe_done :: "nat \<Rightarrow> bool"
  qe_fired :: "nat \<Rightarrow> bool"
  qe_choice :: "nat \<Rightarrow> nat"
  qe_dur :: int

definition maxRetries :: nat where "maxRetries = 3"

text \<open>One attempt on the path the configuration selects.\<close>

definition attempt_query :: "nat \<Rightarrow> outWriter \<Rightarrow> Mode \<Rightarrow> bytes \<Rightarrow> go_value list \<Rightarrow> Client \<Rightarrow> Client \<times> outWriter \<times> client_error option" where
  "attempt_query choice out mode sql args c =
     (if StmtCacheSize (cl_cfg c) < 0 \<and> length args = 0 then runSimple out mode sql c
      else runCached choice out mode sql args c)"

function retry_loop :: "query_env \<Rightarrow> nat \<Rightarrow> outWriter \<Rightarrow> Mode \<Rightarrow> bytes \<Rightarrow> go_value list \<Rightarrow> Client \<Rightarrow>
    Client \<times> outWriter \<times> client_error option" where
  "retry_loop env attempt out mode sql args c =
     (case attempt_query (qe_choice env attempt) out mode sql args c of
        (c, out, None) \<Rightarrow> (c, out, None)
      | (c, out, Some err) \<Rightarrow>
          if \<not> RetryOnSerialization (cl_cfg c) then (c, out, Some err)
          else if attempt + 1 \<ge> maxRetries \<or> \<not> isRetryableSerialization err \<or> Committed out then (c, out, Some err)
          else if qe_done env attempt then (c, out, Some err)
          else
            let out = Reset out;
                c = c\<lparr>cl_lastRetries := cl_lastRetries c + 1\<rparr>
            in if qe_fired env attempt then (c, out, Some err)
               else retry_loop env (attempt + 1) out mode sql args c)"
  by pat_completeness auto
termination
  by (relation "measure (\<lambda>(env, attempt, rest). maxRetries - attempt)") auto

declare retry_loop.simps [simp del]

definition runQuery :: "query_env \<Rightarrow> outWriter \<Rightarrow> Mode \<Rightarrow> bytes \<Rightarrow> go_value list \<Rightarrow> Client \<Rightarrow> Client \<times> outWriter \<times> client_error option" where
  "runQuery env out mode sql args c =
     (if rejectNonSelect sql then (c, out, Some NotSelect)
      else
        let c = observe (OnQueryStart sql) c;
            (c, out, err) = (if qe_attachErr env then (c, out, Some CtxErr) else retry_loop env 0 out mode sql args c)
        in (recordEnd sql (cl_lastRows c) (BytesOut out) (qe_dur env) err c, out, err))"

text \<open>
  \<open>QueryJSON\<close> with the shared buffer pool: the capacities of the pooled buffer it is given and
  gives back are the pool's.
\<close>

definition QueryJSON :: "query_env \<Rightarrow> nat \<Rightarrow> nat \<Rightarrow> bytes \<Rightarrow> go_value list \<Rightarrow> bp_state \<times> Client \<Rightarrow>
    (bp_state \<times> Client) \<times> (client_error + bytes)" where
  "QueryJSON env pick cap' sql args bc =
     (let (bp, c) = bc;
          (bp, _) = Get pick bp;
          w = BufW \<lparr>bw_p = [], bw_rowsHint = RowsHint (cl_cfg c), bw_grew = False\<rparr>;
          (c, w, err) = runQuery env w ModeArray sql args c;
          bp = Put (Some cap') bp
      in ((bp, c), case err of Some e \<Rightarrow> Inl e | None \<Rightarrow> Inr (Buf w)))"

definition newFlushWriter :: "nat \<Rightarrow> (nat \<Rightarrow> int) \<Rightarrow> sink \<Rightarrow> bp_state \<times> Client \<Rightarrow> bp_state \<times> flushingWriter" where
  "newFlushWriter pick now w bc =
     (let (bp, c) = bc;
          (bp, cap') = Get pick bp
      in (bp, \<lparr>fw_w = w, fw_threshold = FlushBytes (cl_cfg c), fw_interval = FlushInterval (cl_cfg c), fw_lastFlush = now 0,
               fw_buf = [], fw_src = Some cap', fw_puts = [], fw_committed = False, fw_written = 0,
               fw_rowsHint = RowsHint (cl_cfg c), fw_grew = False, fw_now = now, fw_ticks = 1\<rparr>))"

text \<open>The streaming entry points; the buffers the writer handed back go to the pool.\<close>

definition stream_query :: "Mode \<Rightarrow> query_env \<Rightarrow> nat \<Rightarrow> (nat \<Rightarrow> int) \<Rightarrow> sink \<Rightarrow> bytes \<Rightarrow> go_value list \<Rightarrow> bp_state \<times> Client \<Rightarrow>
    (bp_state \<times> Client) \<times> outWriter \<times> client_error option" where
  "stream_query mode env pick now w sql args bc =
     (let (bp, f) = newFlushWriter pick now w bc;
          (c, out, err) = runQuery env (FlushW f) mode sql args (snd bc);
          bp = foldl (\<lambda>bp cap'. Put (Some cap') bp) bp (case out of FlushW f \<Rightarrow> fw_puts f | BufW _ \<Rightarrow> [])
      in ((bp, c), out, err))"

definition StreamJSON where "StreamJSON = stream_query ModeArray"
definition StreamNDJSON where "StreamNDJSON = stream_query ModeNDJSON"
definition StreamColumnar where "StreamColumnar = stream_query ModeColumnar"
definition StreamTOON where "StreamTOON = stream_query ModeTOON"

end
