(* ===== verification/Query_Exec.thy ===== *)
theory Query_Exec
  imports Query
begin

text \<open>
  Lemmas on the result loops of \<open>query.go\<close>: writers that never fail, the document a reply renders
  to, and the two \<open>switch\<close>es as instances of one contract.
\<close>

section \<open>Writers that never fail\<close>

primrec out_safe :: "outWriter \<Rightarrow> bool" where
  "out_safe (BufW b) = True"
| "out_safe (FlushW f) = (fw_good f \<and> fails (fw_w f) = (\<lambda>_. None))"

text \<open>What the caller has: the buffer, or what its writer took.\<close>

primrec delivered :: "outWriter \<Rightarrow> bytes" where
  "delivered (BufW b) = bw_p b"
| "delivered (FlushW f) = sink_got (fw_w f)"

lemma safe_good: "out_safe out \<Longrightarrow> out_good out"
  by (cases out) simp_all

lemma safe_accessors:
  "out_safe (SetBuf p out) = out_safe out" "out_safe (Write p out) = out_safe out" "out_safe (GrowForRow n out) = out_safe out"
  by (cases out; simp add: fw_SetBuf_def fw_Write_def fw_GrowForRow_def fw_good_def)+

lemma fw_Flush_fails: "fw_Flush f = (f', e) \<Longrightarrow> fails (fw_w f') = fails (fw_w f)"
  by (auto simp: fw_Flush_def sink_write_def releaseBuf_def fw_time_Now_def Let_def split: if_splits prod.splits option.splits)

lemma fw_Flush_safe: "fails (fw_w f) = (\<lambda>_. None) \<Longrightarrow> \<exists>f'. fw_Flush f = (f', None) \<and> fw_buf f' = []"
  by (cases "0 < fw_interval f")
     (auto simp: fw_Flush_def sink_write_def fw_time_Now_def Let_def)

lemma fw_MaybeFlush_safe:
  assumes "fails (fw_w f) = (\<lambda>_. None)"
  shows "\<exists>f'. fw_MaybeFlush f = (f', None) \<and> fails (fw_w f') = (\<lambda>_. None)"
proof -
  have flush: "\<exists>f'. fw_Flush g = (f', None) \<and> fails (fw_w f') = (\<lambda>_. None)" if "fails (fw_w g) = (\<lambda>_. None)" for g
    using fw_Flush_safe [OF that] fw_Flush_fails that by metis
  obtain g t where g: "fw_time_Now f = (g, t)" "fails (fw_w g) = (\<lambda>_. None)"
    using assms by (simp add: fw_time_Now_def)
  show ?thesis using flush [OF assms] flush [OF g(2)] assms g by (simp add: fw_MaybeFlush_def)
qed

lemma safe_maybe:
  assumes "out_safe out"
  shows "\<exists>out'. MaybeFlush out = (out', None) \<and> out_safe out' \<and> ow.produced out' = ow.produced out"
proof -
  obtain out' where o: "MaybeFlush out = (out', None)" "(case out' of BufW _ \<Rightarrow> True | FlushW f \<Rightarrow> fails (fw_w f) = (\<lambda>_. None))"
  proof (cases out)
    case (BufW b)
    then show ?thesis by (intro that [of out]) (simp_all add: bw_MaybeFlush_def)
  next
    case (FlushW f)
    then obtain f' where "fw_MaybeFlush f = (f', None)" "fails (fw_w f') = (\<lambda>_. None)"
      using fw_MaybeFlush_safe [of f] assms by auto
    then show ?thesis using FlushW by (intro that [of "FlushW f'"]) simp_all
  qed
  have p: "out_good out' \<and> ow.produced out' = ow.produced out"
    by (rule ow.produced_maybeFlush [OF safe_good [OF assms] o(1)])
  then have "out_safe out'" using o(2) by (cases out') simp_all
  with o(1) p show ?thesis by blast
qed

lemma safe_flush:
  assumes "out_safe out"
  shows "\<exists>out'. FlushOut out = (out', None) \<and> out_safe out' \<and> delivered out' = ow.produced out"
proof (cases out)
  case (BufW b)
  then show ?thesis by (simp add: bw_Flush_def ow.produced_def)
next
  case (FlushW f)
  then have f: "fw_good f" "fails (fw_w f) = (\<lambda>_. None)" using assms by simp_all
  then obtain f' where f': "fw_Flush f = (f', None)" "fw_buf f' = []" using fw_Flush_safe by blast
  from fw.produced_flush [OF f(1) f'(1)] have p: "fw_good f'" "fw.produced f' = fw.produced f" by simp_all
  have "fw.produced f' = sink_got (fw_w f')" using f'(2) by (simp add: fw.produced_def sink_got_def)
  moreover have "ow.produced out = fw.produced f" by (simp add: FlushW ow.produced_def fw.produced_def)
  ultimately show ?thesis using FlushW f f' p fw_Flush_fails [OF f'(1)] by auto
qed

section \<open>The document\<close>

definition head_text :: "Mode \<Rightarrow> Plan \<Rightarrow> bytes" where
  "head_text mode p = (case mode of ModeArray \<Rightarrow> [91] | ModeNDJSON \<Rightarrow> [] | ModeColumnar \<Rightarrow> ColumnsArrayHeader p | ModeTOON \<Rightarrow> TOONHeader p)"

definition foot_text :: "Mode \<Rightarrow> bytes" where
  "foot_text mode = (case mode of ModeArray \<Rightarrow> [93] | ModeColumnar \<Rightarrow> bs '']}'' | _ \<Rightarrow> [])"

definition sep_text :: "Mode \<Rightarrow> bytes" where
  "sep_text mode = (case mode of ModeArray \<Rightarrow> [44] | ModeColumnar \<Rightarrow> [44] | _ \<Rightarrow> [])"

definition object_text :: "Plan \<Rightarrow> bytes option list \<Rightarrow> bytes" where
  "object_text p cells = [123] @ join [44] (member_texts p cells) @ [125]"

definition array_text :: "Plan \<Rightarrow> bytes option list \<Rightarrow> bytes" where
  "array_text p cells = [91] @ join [44] (cell_texts p cells) @ [93]"

definition row_text :: "Mode \<Rightarrow> Plan \<Rightarrow> bytes option list \<Rightarrow> bytes" where
  "row_text mode p cells =
     (case mode of
        ModeArray \<Rightarrow> object_text p cells
      | ModeNDJSON \<Rightarrow> object_text p cells @ [10]
      | ModeColumnar \<Rightarrow> array_text p cells
      | ModeTOON \<Rightarrow> join [44] (cell_texts p cells) @ [10])"

definition rows_text :: "Mode \<Rightarrow> Plan \<Rightarrow> bytes option list list \<Rightarrow> bytes" where
  "rows_text mode p rows = join (sep_text mode) (map (row_text mode p) rows)"

definition document :: "Mode \<Rightarrow> Plan \<Rightarrow> bytes option list list \<Rightarrow> bytes" where
  "document mode p rows = head_text mode p @ rows_text mode p rows @ foot_text mode"

lemma join_snoc: "join sep (xs @ [x]) = (if xs = [] then x else join sep xs @ sep @ x)"
  by (cases xs) (simp_all add: join_Cons)

lemma rows_text_snoc:
  "rows_text mode p (rows @ [r]) = rows_text mode p rows @ (if rows = [] then [] else sep_text mode) @ row_text mode p r"
  by (simp add: rows_text_def join_snoc)

lemma appendRow_text:
  assumes "plan_ok p" "cells_for p cells"
  shows "appendRow scratch mode p (data_row cells) idx =
         (scratch @ (if idx = 0 then [] else sep_text mode) @ row_text mode p cells, None)"
  using rendered_row [OF assms, where rest = "[]"]
  by (cases mode) (simp_all add: appendRow_def sep_text_def row_text_def object_text_def array_text_def)

lemma writeHeader_produced: "ow.produced (writeHeader out mode p) = ow.produced out @ head_text mode p"
  by (cases mode) (simp_all add: writeHeader_def head_text_def WriteByte_Write ow.produced_append)

lemma writeHeader_safe: "out_safe (writeHeader out mode p) = out_safe out"
  by (cases mode) (simp_all add: writeHeader_def WriteByte_Write safe_accessors)

lemma writeFooter_produced: "ow.produced (writeFooter out mode) = ow.produced out @ foot_text mode"
  by (cases mode) (simp_all add: writeFooter_def foot_text_def WriteByte_Write ow.produced_append)

lemma writeFooter_safe: "out_safe (writeFooter out mode) = out_safe out"
  by (cases mode) (simp_all add: writeFooter_def WriteByte_Write safe_accessors)

lemma writeRow_text:
  assumes "plan_ok p" "cells_for p cells" "out_safe out"
  shows "\<exists>out'. writeRow out mode p (data_row cells) idx = (out', None) \<and> out_safe out' \<and>
           ow.produced out' = ow.produced out @ (if idx = 0 then [] else sep_text mode) @ row_text mode p cells"
proof -
  let ?t = "(if idx = 0 then [] else sep_text mode) @ row_text mode p cells"
  let ?o = "SetBuf (Buf out @ ?t) out"
  let ?o' = "if idx = 0 then GrowForRow (int (length (Buf out @ ?t)) - int (length (Buf out))) ?o else ?o"
  have "out_safe ?o'" using assms(3) by (simp add: safe_accessors)
  from safe_maybe [OF this] obtain out' where o: "MaybeFlush ?o' = (out', None)" "out_safe out'"
    "ow.produced out' = ow.produced ?o'" by blast
  have "ow.produced ?o' = ow.produced out @ ?t" by (simp only: ow.produced_grow ow.produced_setBuf split: if_split) simp
  moreover have "writeRow out mode p (data_row cells) idx = (out', None)"
    unfolding writeRow_def Let_def appendRow_text [OF assms(1,2)] using o(1) by simp
  ultimately show ?thesis using o by simp
qed

section \<open>One contract for both loops\<close>

text \<open>What no message but an administrative one changes of a client.\<close>

definition client_kept :: "Client \<Rightarrow> Client \<Rightarrow> bool" where
  "client_kept c c' \<longleftrightarrow>
     cl_cfg c' = cl_cfg c \<and> cl_stmts c' = cl_stmts c \<and> cl_conn c' = cl_conn c \<and> cl_lastRetries c' = cl_lastRetries c \<and>
     cl_pid c' = cl_pid c \<and> cl_skey c' = cl_skey c \<and> cl_cancels c' = cl_cancels c \<and> cl_side c' = cl_side c"

lemma client_kept_refl [simp]: "client_kept c c"
  by (simp add: client_kept_def)

lemma client_kept_trans: "client_kept a b \<Longrightarrow> client_kept b c \<Longrightarrow> client_kept a c"
  by (simp add: client_kept_def)

lemma client_kept_admin [simp]:
  "client_kept c (observe ob c)" "client_kept c (set_param body c)" "client_kept c (c\<lparr>cl_lastRows := n\<rparr>)"
  by (simp_all add: client_kept_def observe_def set_param_def split: prod.splits)

definition uncapped :: "Config \<Rightarrow> bool" where
  "uncapped cfg \<longleftrightarrow> MaxResponseRows cfg \<le> 0 \<and> MaxResponseBytes cfg \<le> 0"

text \<open>A reply: data rows, and administrative messages anywhere between them.\<close>

datatype reply_item = Row "bytes option list" | Admin byte bytes

primrec item_msg :: "reply_item \<Rightarrow> byte \<times> bytes" where
  "item_msg (Row cells) = (MsgDataRow, data_row cells)"
| "item_msg (Admin t body) = (t, body)"

fun rows_of :: "reply_item list \<Rightarrow> bytes option list list" where
  "rows_of [] = []"
| "rows_of (Row cells # is) = cells # rows_of is"
| "rows_of (Admin t body # is) = rows_of is"

locale result_loop =
  fixes step :: "byte \<Rightarrow> bytes \<Rightarrow> exec_state \<Rightarrow> exec_state + exec_state \<times> exec_end"
    and mode :: Mode
    and plan :: Plan
    and held :: "Plan option"
    and quiet :: "byte \<Rightarrow> bool"
  assumes data_law: "ex_plan s = held \<Longrightarrow> step MsgDataRow body s = row_step mode plan body s"
    and ready_law: "ex_plan s = held \<Longrightarrow> step MsgReadyForQuery body s = ready_step mode plan s"
    and quiet_law: "quiet t \<Longrightarrow> \<exists>f. step t body s = Inl (on_client f s) \<and> (\<forall>c. client_kept c (f c))"
begin

text \<open>The loop after the rows \<open>rows\<close>.\<close>

definition after :: "Client \<Rightarrow> bytes option list list \<Rightarrow> exec_state \<Rightarrow> bool" where
  "after c rows s \<longleftrightarrow>
     out_safe (ex_out s) \<and>
     ow.produced (ex_out s) = (if rows = [] then [] else head_text mode plan @ rows_text mode plan rows) \<and>
     ex_rowCount s = length rows \<and> ex_headerWritten s = (rows \<noteq> []) \<and> ex_pgError s = None \<and> ex_plan s = held \<and>
     client_kept c (ex_client s)"

lemma row_after:
  assumes "plan_ok plan" "cells_for plan cells" "uncapped (cl_cfg c)" "after c rows s"
  shows "\<exists>s'. row_step mode plan (data_row cells) s = Inl s' \<and> after c (rows @ [cells]) s'"
proof -
  let ?s = "if \<not> ex_headerWritten s then s\<lparr>ex_out := writeHeader (ex_out s) mode plan, ex_headerWritten := True\<rparr> else s"
  have safe: "out_safe (ex_out ?s)" using assms(4) by (simp add: after_def writeHeader_safe)
  have prod: "ow.produced (ex_out ?s) = head_text mode plan @ rows_text mode plan rows"
    using assms(4) by (auto simp: after_def writeHeader_produced rows_text_def)
  obtain out' where o: "writeRow (ex_out ?s) mode plan (data_row cells) (length rows) = (out', None)" "out_safe out'"
    "ow.produced out' = ow.produced (ex_out ?s) @ (if length rows = 0 then [] else sep_text mode) @ row_text mode plan cells"
    using writeRow_text [OF assms(1,2) safe] by blast
  let ?s' = "?s\<lparr>ex_out := out', ex_rowCount := Suc (length rows)\<rparr>"
  have h: "ex_headerWritten ?s" "ex_rowCount ?s = length rows" "ex_pgError ?s = None" "ex_plan ?s = held"
    "client_kept c (ex_client ?s)"
    using assms(4) by (auto simp: after_def)
  have cfg: "cl_cfg (ex_client ?s') = cl_cfg c" using h(5) by (simp add: client_kept_def)
  have "checkCaps (ex_client ?s') (ex_out ?s') n = None" for n
    using assms(3) unfolding checkCaps_def cfg by (simp add: uncapped_def Let_def)
  then have "row_step mode plan (data_row cells) s = Inl ?s'"
    using o(1) h(2) unfolding row_step_def by (simp add: Let_def)
  moreover have "after c (rows @ [cells]) ?s'"
    using o(2,3) h prod by (auto simp: after_def rows_text_snoc)
  ultimately show ?thesis by blast
qed

lemma items_after:
  assumes "plan_ok plan" "uncapped (cl_cfg c)"
  shows "after c rows s \<Longrightarrow> \<forall>cells. Row cells \<in> set is \<longrightarrow> cells_for plan cells \<Longrightarrow> \<forall>t body. Admin t body \<in> set is \<longrightarrow> quiet t \<Longrightarrow>
    \<exists>s'. run_msgs step (map item_msg is) s = Inl s' \<and> after c (rows @ rows_of is) s'"
proof (induction "is" arbitrary: rows s)
  case (Cons i "is")
  show ?case
  proof (cases i)
    case (Row cells)
    then obtain s1 where s1: "row_step mode plan (data_row cells) s = Inl s1" "after c (rows @ [cells]) s1"
      using row_after [OF assms(1) _ assms(2) Cons.prems(1)] Cons.prems(2) by auto
    have "step MsgDataRow (data_row cells) s = Inl s1"
      using s1(1) data_law Cons.prems(1) unfolding after_def by metis
    with Cons.IH [OF s1(2)] Cons.prems(2,3) Row show ?thesis by auto
  next
    case (Admin t body)
    then have "quiet t" using Cons.prems(3) by auto
    from quiet_law [OF this] obtain f where f: "step t body s = Inl (on_client f s)" "\<forall>c. client_kept c (f c)" by blast
    have "after c rows (on_client f s)"
      using Cons.prems(1) f(2) client_kept_trans by (auto simp: after_def on_client_def)
    from Cons.IH [OF this] Cons.prems(2,3) Admin f(1) show ?thesis by auto
  qed
qed auto

lemma ready_after:
  assumes "after c rows s"
  shows "\<exists>s'. step MsgReadyForQuery body s = Inr (s', Return None) \<and> delivered (ex_out s') = document mode plan rows \<and>
           out_safe (ex_out s') \<and> client_kept c (ex_client s') \<and> cl_lastRows (ex_client s') = length rows \<and> ex_plan s' = held"
proof -
  let ?o = "if \<not> ex_headerWritten s then writeHeader (ex_out s) mode plan else ex_out s"
  have prod: "ow.produced (writeFooter ?o mode) = document mode plan rows"
    using assms by (auto simp: after_def writeFooter_produced writeHeader_produced document_def rows_text_def)
  have "out_safe (writeFooter ?o mode)" using assms by (auto simp: after_def writeFooter_safe writeHeader_safe)
  from safe_flush [OF this] obtain out' where o: "FlushOut (writeFooter ?o mode) = (out', None)" "out_safe out'"
    "delivered out' = document mode plan rows" using prod by metis
  let ?s = "on_client (\<lambda>c. c\<lparr>cl_lastRows := ex_rowCount s\<rparr>) s"
  have "ex_pgError s = None" "ex_plan s = held" using assms by (simp_all add: after_def)
  then have "step MsgReadyForQuery body s = Inr (?s\<lparr>ex_out := out'\<rparr>, Return None)"
    using ready_law [of s body] o(1) by (cases "ex_headerWritten s") (simp_all add: ready_step_def on_client_def)
  moreover have "client_kept c (ex_client ?s)" "cl_lastRows (ex_client ?s) = length rows" "ex_plan ?s = held"
    using assms client_kept_trans by (auto simp: after_def on_client_def)
  ultimately show ?thesis using o(2,3) by auto
qed

text \<open>A whole reply, from a fresh writer.\<close>

lemma reply_document:
  assumes "plan_ok plan" "uncapped (cl_cfg c)" "after c [] s"
    and "\<forall>cells. Row cells \<in> set is \<longrightarrow> cells_for plan cells" "\<forall>t body. Admin t body \<in> set is \<longrightarrow> quiet t"
  shows "\<exists>s'. run_msgs step (map item_msg is @ (MsgReadyForQuery, z) # ms) s = Inr ((s', Return None), ms) \<and>
           delivered (ex_out s') = document mode plan (rows_of is) \<and> out_safe (ex_out s') \<and> client_kept c (ex_client s') \<and>
           cl_lastRows (ex_client s') = length (rows_of is) \<and> ex_plan s' = held"
proof -
  obtain s1 where s1: "run_msgs step (map item_msg is) s = Inl s1" "after c (rows_of is) s1"
    using items_after [OF assms(1,2,3,4,5)] unfolding append_Nil by blast
  obtain s2 where s2: "step MsgReadyForQuery z s1 = Inr (s2, Return None)" "delivered (ex_out s2) = document mode plan (rows_of is)"
    "out_safe (ex_out s2)" "client_kept c (ex_client s2)" "cl_lastRows (ex_client s2) = length (rows_of is)" "ex_plan s2 = held"
    using ready_after [OF s1(2)] by blast
  have "run_msgs step (map item_msg is @ (MsgReadyForQuery, z) # ms) s = Inr ((s2, Return None), ms)"
    using s1(1) s2(1) by (simp add: run_msgs_append)
  with s2 show ?thesis by blast
qed

end

text \<open>The administrative messages of the two paths.\<close>

definition bind_quiet :: "byte \<Rightarrow> bool" where
  "bind_quiet t \<longleftrightarrow>
     t \<in> {MsgBindComplete, MsgCommandComplete, MsgEmptyQueryResponse, MsgPortalSuspended, MsgCloseComplete, MsgNoticeResponse,
          MsgParameterStatus}"

definition text_quiet :: "byte \<Rightarrow> bool" where
  "text_quiet t \<longleftrightarrow> t \<in> {MsgCommandComplete, MsgEmptyQueryResponse, MsgNoticeResponse, MsgParameterStatus}"

lemma on_client_id: "on_client (\<lambda>c. c) s = s"
  by (simp add: on_client_def)

text \<open>Every branch of the two \<open>switch\<close>es.\<close>

definition plain_error :: "client_error \<Rightarrow> bool" where
  "plain_error e \<longleftrightarrow> (\<forall>x. e \<noteq> TooLarge x) \<and> (\<forall>n. e \<noteq> SinkErr n)"

lemma bind_args_error: "bind_args args cn = (cn', Some err) \<Longrightarrow> err = ArgErr"
  by (induction args arbitrary: cn) (auto simp: encodeArg_def split: sum.splits prod.splits if_splits go_value.splits)

lemma send_bind_error: "send_bind name fmts args cn = (cn', Some err) \<Longrightarrow> err = ArgErr \<or> (\<exists>e. err = WireErr e)"
  by (auto simp: send_bind_def Let_def split: prod.splits option.splits dest: bind_args_error)

lemma bind_step_quiet: "bind_quiet t \<Longrightarrow> \<exists>f. bind_step mode plan fmts t body s = Inl (on_client f s) \<and> (\<forall>c. client_kept c (f c))"
proof -
  assume "bind_quiet t"
  then consider "t \<in> {50, 67, 73, 115, 51}" | "t = 78" | "t = 83" by (auto simp: bind_quiet_def)
  then show ?thesis
  proof cases
    case 1
    then have "bind_step mode plan fmts t body s = Inl (on_client (\<lambda>c. c) s)"
      by (elim insertE emptyE) (simp_all add: bind_step_def on_client_id)
    then show ?thesis using client_kept_refl by blast
  next
    case 2
    then have "bind_step mode plan fmts t body s = Inl (on_client (observe (OnNotice (Parse body))) s)" by (simp add: bind_step_def)
    then show ?thesis using client_kept_admin(1) by blast
  next
    case 3
    then have "bind_step mode plan fmts t body s = Inl (on_client (set_param body) s)" by (simp add: bind_step_def)
    then show ?thesis using client_kept_admin(2) by blast
  qed
qed

lemma bind_step_cases:
  obtains (quiet) f where "bind_step mode plan fmts t body s = Inl (on_client f s)" "\<forall>c. client_kept c (f c)"
  | (row) p where "bind_step mode plan fmts t body s = row_step mode p body s"
  | (ready) p where "bind_step mode plan fmts t body s = ready_step mode p s"
  | (plan) p where "bind_step mode plan fmts t body s = Inl (s\<lparr>ex_plan := Some p\<rparr>)"
  | (pg) e where "bind_step mode plan fmts t body s = Inl (s\<lparr>ex_pgError := Some e\<rparr>)"
  | (err) e where "bind_step mode plan fmts t body s = Inr (s, Return (Some e))" "plain_error e"
proof -
  let ?p = "case ex_plan s of Some p \<Rightarrow> p | None \<Rightarrow> plan"
  consider "bind_quiet t" | "t = 68" | "t = 90" | "t = 84" | "t = 69" | "\<not> bind_quiet t" "t \<notin> {68, 90, 84, 69}" by blast
  then show thesis
  proof cases
    case 1
    then show ?thesis using bind_step_quiet quiet by blast
  next
    case 2
    then show ?thesis by (intro row [of ?p]) (simp add: bind_step_def)
  next
    case 3
    then show ?thesis by (intro ready [of ?p]) (simp add: bind_step_def)
  next
    case 4
    then show ?thesis using plan err by (cases "ParseRowDescriptionForFormats body fmts") (auto simp: bind_step_def plain_error_def)
  next
    case 5
    then show ?thesis by (intro pg [of "Parse body"]) (simp add: bind_step_def)
  next
    case 6
    then show ?thesis by (intro err [of "UnexpectedMsg t"]) (simp_all add: bind_step_def bind_quiet_def plain_error_def)
  qed
qed

lemma text_step_quiet: "text_quiet t \<Longrightarrow> \<exists>f. text_step mode t body s = Inl (on_client f s) \<and> (\<forall>c. client_kept c (f c))"
proof -
  assume "text_quiet t"
  then consider "t \<in> {67, 73}" | "t = 78" | "t = 83" by (auto simp: text_quiet_def)
  then show ?thesis
  proof cases
    case 1
    then have "text_step mode t body s = Inl (on_client (\<lambda>c. c) s)"
      by (elim insertE emptyE) (simp_all add: text_step_def on_client_id)
    then show ?thesis using client_kept_refl by blast
  next
    case 2
    then have "text_step mode t body s = Inl (on_client (observe (OnNotice (Parse body))) s)" by (simp add: text_step_def)
    then show ?thesis using client_kept_admin(1) by blast
  next
    case 3
    then have "text_step mode t body s = Inl (on_client (set_param body) s)" by (simp add: text_step_def)
    then show ?thesis using client_kept_admin(2) by blast
  qed
qed

interpretation bl: result_loop "bind_step mode plan fmts" mode plan None bind_quiet for mode plan fmts
proof
  fix s body t
  show "ex_plan s = None \<Longrightarrow> bind_step mode plan fmts MsgDataRow body s = row_step mode plan body s"
    "ex_plan s = None \<Longrightarrow> bind_step mode plan fmts MsgReadyForQuery body s = ready_step mode plan s"
    by (simp_all add: bind_step_def)
qed (rule bind_step_quiet)

interpretation tl: result_loop "text_step mode" mode plan "Some plan" text_quiet for mode plan
proof
  fix s body t
  show "ex_plan s = Some plan \<Longrightarrow> text_step mode MsgDataRow body s = row_step mode plan body s"
    "ex_plan s = Some plan \<Longrightarrow> text_step mode MsgReadyForQuery body s = ready_step mode plan s"
    by (simp_all add: text_step_def)
qed (rule text_step_quiet)

end
