(* ===== verification/Query_Proofs.thy ===== *)
theory Query_Proofs
  imports Query_Exec
begin

text \<open>
  Properties of the query engine: what a query sends and renders, end to end; that the document is
  JSON; retries; caps; the statistics.
\<close>

section \<open>What is sent\<close>

definition arg_wire :: "go_value \<Rightarrow> bytes" where
  "arg_wire a =
     (case encodeArg a of
        Inr (s, False) \<Rightarrow> putU32 (word_of_int (int (length s))) @ s
      | _ \<Rightarrow> putU32 (word_of_int (- 1)))"

definition formats_wire :: "int list \<Rightarrow> bytes" where
  "formats_wire fmts =
     (if allBinary fmts then putU16 1 @ putU16 1
      else putU16 (word_of_int (int (length fmts))) @ concat (map (\<lambda>f. putU16 (word_of_int f)) fmts))"

definition bind_body :: "bytes \<Rightarrow> int list \<Rightarrow> go_value list \<Rightarrow> bytes" where
  "bind_body name fmts args =
     [0] @ cstr name @ putU16 0 @ putU16 (word_of_int (int (length args))) @ concat (map arg_wire args) @ formats_wire fmts"

definition execute_msgs :: "bytes \<Rightarrow> int list \<Rightarrow> go_value list \<Rightarrow> (byte \<times> bytes) list" where
  "execute_msgs name fmts args =
     [(MsgBind, bind_body name fmts args), (MsgExecute, [0] @ putU32 0), (MsgSync, [])]"

definition prepare_msgs :: "bytes list \<Rightarrow> bytes \<Rightarrow> bytes \<Rightarrow> (byte \<times> bytes) list" where
  "prepare_msgs deads name sql =
     map (\<lambda>d. (MsgClose, 83 # cstr d)) deads @
     [(MsgParse, cstr name @ cstr sql @ putU16 0), (MsgDescribe, 83 # cstr name), (MsgSync, [])]"

definition supported :: "go_value list \<Rightarrow> bool" where
  "supported args \<longleftrightarrow> OtherV \<notin> set args"

lemma bind_args_wire:
  "supported args \<Longrightarrow> bind_args args cn = (cn\<lparr>writeBuf := writeBuf cn @ concat (map arg_wire args)\<rparr>, None)"
proof (induction args arbitrary: cn)
  case (Cons a args)
  then obtain s isNull where a: "encodeArg a = Inr (s, isNull)"
    by (cases a) (auto simp: supported_def encodeArg_def)
  have "supported args" using Cons.prems by (simp add: supported_def)
  from Cons.IH [OF this] a show ?case by (cases isNull) (simp_all add: arg_wire_def builder_append)
qed simp

lemma bind_formats_wire: "bind_formats fmts cn = cn\<lparr>writeBuf := writeBuf cn @ formats_wire fmts\<rparr>"
proof -
  have "foldl (\<lambda>cn f. B_Int16 f cn) cn fmts = cn\<lparr>writeBuf := writeBuf cn @ concat (map (\<lambda>f. putU16 (word_of_int f)) fmts)\<rparr>" for cn
    by (induction fmts arbitrary: cn) (simp_all add: builder_append)
  then show ?thesis by (simp add: bind_formats_def formats_wire_def builder_append)
qed

text \<open>The bind fails before anything is sent, or appends three whole messages and flushes.\<close>

lemma send_bind_frames:
  "supported args \<Longrightarrow>
   send_bind name fmts args cn =
     (let (cn', err) = Flush (cn\<lparr>writeBuf := writeBuf cn @ frames (execute_msgs name fmts args)\<rparr>)
      in (cn', map_option WireErr err))"
proof -
  assume "supported args"
  note a = bind_args_wire [OF this]
  define cn1 where "cn1 = cn\<lparr>writeBuf := writeBuf cn @ frame MsgBind (bind_body name fmts args)\<rparr>"
  define cn2 where "cn2 = cn1\<lparr>writeBuf := writeBuf cn1 @ frame MsgExecute ([0] @ putU32 0)\<rparr>"
  define cn3 where "cn3 = cn2\<lparr>writeBuf := writeBuf cn2 @ frame MsgSync []\<rparr>"
  note b1 = Finish_Begin(1) [of cn MsgBind "bind_body name fmts args", folded cn1_def, unfolded bind_body_def cstr_def, simplified]
  note b2 = Finish_Begin(1) [of cn1 MsgExecute "[0] @ putU32 0", folded cn2_def, simplified]
  note b3 = Finish_Begin(1) [of cn2 MsgSync "[]", folded cn3_def, simplified]
  have "send_bind name fmts args cn = (let (cn', err) = Flush cn3 in (cn', map_option WireErr err))"
    by (simp add: send_bind_def Let_def Begin_simps builder_append a bind_formats_wire b1 b2 b3)
  moreover have "cn3 = cn\<lparr>writeBuf := writeBuf cn @ frames (execute_msgs name fmts args)\<rparr>"
    by (simp add: cn3_def cn2_def cn1_def execute_msgs_def)
  ultimately show ?thesis by simp
qed

lemma send_prepare_frames:
  "send_prepare deads name sql cn = Flush (cn\<lparr>writeBuf := writeBuf cn @ frames (prepare_msgs deads name sql)\<rparr>)"
proof -
  have cl: "close_msg d cn = cn\<lparr>writeBuf := writeBuf cn @ frame MsgClose (83 # cstr d)\<rparr>" for d cn
    using Finish_Begin(1) [of cn MsgClose "83 # cstr d"]
    by (simp add: close_msg_def Begin_simps builder_append cstr_def)
  have f: "foldl (\<lambda>cn d. close_msg d cn) cn deads = cn\<lparr>writeBuf := writeBuf cn @ frames (map (\<lambda>d. (MsgClose, 83 # cstr d)) deads)\<rparr>" for cn
    by (induction deads arbitrary: cn) (simp_all add: cl)
  define cn0 where "cn0 = cn\<lparr>writeBuf := writeBuf cn @ frames (map (\<lambda>d. (MsgClose, 83 # cstr d)) deads)\<rparr>"
  define cn1 where "cn1 = cn0\<lparr>writeBuf := writeBuf cn0 @ frame MsgParse (cstr name @ cstr sql @ putU16 0)\<rparr>"
  define cn2 where "cn2 = cn1\<lparr>writeBuf := writeBuf cn1 @ frame MsgDescribe (83 # cstr name)\<rparr>"
  define cn3 where "cn3 = cn2\<lparr>writeBuf := writeBuf cn2 @ frame MsgSync []\<rparr>"
  note b1 = Finish_Begin(1) [of cn0 MsgParse "cstr name @ cstr sql @ putU16 0", folded cn1_def, unfolded cstr_def, simplified]
  note b2 = Finish_Begin(1) [of cn1 MsgDescribe "83 # cstr name", folded cn2_def, unfolded cstr_def, simplified]
  note b3 = Finish_Begin(1) [of cn2 MsgSync "[]", folded cn3_def, simplified]
  have f0: "foldl (\<lambda>cn d. close_msg d cn) cn deads = cn0" unfolding cn0_def by (rule f)
  have "send_prepare deads name sql cn = Flush cn3"
    by (simp add: send_prepare_def Let_def f0 Begin_simps builder_append b1 b2 b3)
  moreover have "cn3 = cn\<lparr>writeBuf := writeBuf cn @ frames (prepare_msgs deads name sql)\<rparr>"
    by (simp add: cn3_def cn2_def cn1_def cn0_def prepare_msgs_def)
  ultimately show ?thesis by simp
qed

text \<open>A connection with nothing half-built that takes what it is given.\<close>

definition conn_clear :: "Conn \<Rightarrow> bool" where
  "conn_clear cn \<longleftrightarrow> writeBuf cn = [] \<and> wcap cn = None"

lemma Flush_clear:
  "conn_clear cn \<Longrightarrow> Flush (cn\<lparr>writeBuf := writeBuf cn @ p\<rparr>) = (cn\<lparr>tx := tx cn @ p\<rparr>, None)"
  by (simp add: conn_clear_def Flush_result)

section \<open>A cached statement\<close>

definition reply_ok :: "(byte \<Rightarrow> bool) \<Rightarrow> Plan \<Rightarrow> reply_item list \<Rightarrow> bool" where
  "reply_ok quiet plan is \<longleftrightarrow>
     (\<forall>cells. Row cells \<in> set is \<longrightarrow> cells_for plan cells) \<and> (\<forall>t body. Admin t body \<in> set is \<longrightarrow> quiet t) \<and>
     msgs_ok (map item_msg is)"

text \<open>A result loop on a whole reply.\<close>

lemma run_exec_reply:
  assumes "rx (cl_conn c) = frames (ms @ (MsgReadyForQuery, z) # ms') @ r" "msgs_ok (ms @ (MsgReadyForQuery, z) # ms')"
    and "run_msgs step (ms @ (MsgReadyForQuery, z) # ms')
           \<lparr>ex_client = c, ex_out = out, ex_plan = None, ex_rowCount = 0, ex_headerWritten = False, ex_pgError = None\<rparr> =
         Inr ((s, Return None), ms')"
  shows "\<exists>cn. run_exec step out c = ((ex_client s)\<lparr>cl_conn := cn\<rparr>, ex_out s, ex_plan s, None) \<and>
           rx cn = frames ms' @ r \<and> conn_same (cl_conn c) cn"
  using msg_loop_frames [OF assms, of "\<lambda>e s. (s, Return (Some (WireErr e)))"] by (auto simp: run_exec_def Let_def)

lemma bindExecute_document:
  assumes "plan_ok (st_plan st)" "uncapped (cl_cfg c)" "supported args" "conn_clear (cl_conn c)"
    and "reply_ok bind_quiet (st_plan st) is" "length z \<le> maxMsg"
    and "rx (cl_conn c) = frames (map item_msg is @ [(MsgReadyForQuery, z)]) @ r"
    and "out_safe out" "ow.produced out = []"
  shows "\<exists>c' out'. bindExecute out mode st args c = (c', out', st, None) \<and>
           delivered out' = document mode (st_plan st) (rows_of is) \<and> rx (cl_conn c') = r \<and>
           tx (cl_conn c') = tx (cl_conn c) @ frames (execute_msgs (st_name st) (st_resultFmts st) args) \<and>
           conn_clear (cl_conn c') \<and> cl_cfg c' = cl_cfg c \<and> cl_stmts c' = cl_stmts c \<and> cl_lastRows c' = length (rows_of is)"
proof -
  let ?cn = "(cl_conn c)\<lparr>tx := tx (cl_conn c) @ frames (execute_msgs (st_name st) (st_resultFmts st) args)\<rparr>"
  let ?c = "c\<lparr>cl_conn := ?cn\<rparr>"
  let ?step = "bind_step mode (st_plan st) (st_resultFmts st)"
  have sb: "send_bind (st_name st) (st_resultFmts st) args (cl_conn c) = (?cn, None)"
    using send_bind_frames [OF assms(3)] Flush_clear [OF assms(4)] by simp
  have u: "uncapped (cl_cfg ?c)" using assms(2) by simp
  have a: "bl.after mode (st_plan st) ?c [] \<lparr>ex_client = ?c, ex_out = out, ex_plan = None, ex_rowCount = 0, ex_headerWritten = False, ex_pgError = None\<rparr>"
    using assms(8,9) by (simp add: bl.after_def)
  obtain s where s: "run_msgs ?step (map item_msg is @ (MsgReadyForQuery, z) # [])
      \<lparr>ex_client = ?c, ex_out = out, ex_plan = None, ex_rowCount = 0, ex_headerWritten = False, ex_pgError = None\<rparr> =
      Inr ((s, Return None), [])"
    "delivered (ex_out s) = document mode (st_plan st) (rows_of is)" "client_kept ?c (ex_client s)"
    "cl_lastRows (ex_client s) = length (rows_of is)" "ex_plan s = None"
    using bl.reply_document [OF assms(1) u a] assms(5) unfolding reply_ok_def by metis
  have "msgs_ok (map item_msg is @ (MsgReadyForQuery, z) # [])" using assms(5,6) by (auto simp: reply_ok_def msgs_ok_def)
  from run_exec_reply [OF _ this s(1), of r] assms(7)
  obtain cn where cn: "run_exec ?step out ?c = ((ex_client s)\<lparr>cl_conn := cn\<rparr>, ex_out s, None, None)" "rx cn = r" "conn_same ?cn cn"
    using s(5) by auto
  have "bindExecute out mode st args c = ((ex_client s)\<lparr>cl_conn := cn\<rparr>, ex_out s, st, None)"
    using sb cn(1) by (simp add: bindExecute_def)
  then show ?thesis using s cn assms(4) by (auto simp: client_kept_def conn_same_def conn_clear_def)
qed

section \<open>A statement prepared first\<close>

definition plan_of :: "field_desc list \<Rightarrow> Plan" where
  "plan_of fs = \<lparr>Columns = map column_of fs, ColumnsArrayHeader = buildColumnsHeader (map column_of fs),
                 TOONHeader = buildTOONHeader (map column_of fs)\<rparr>"

definition descs_ok :: "field_desc list \<Rightarrow> bool" where
  "descs_ok fs \<longleftrightarrow> (\<forall>f \<in> set fs. desc_ok f) \<and> length fs < 2 ^ 15"

lemma ParseRowDescription_wire: "descs_ok fs \<Longrightarrow> ParseRowDescription (row_description fs) = Inr (plan_of fs)"
  using beI16_put_nat [of "length fs" "[]"] parse_columns_wire [of fs "[]"]
  by (simp add: ParseRowDescription_def row_description_def descs_ok_def plan_of_def)

definition prep_quiet :: "byte \<Rightarrow> bool" where
  "prep_quiet t \<longleftrightarrow>
     t \<in> {MsgParseComplete, MsgParameterDescription, MsgCloseComplete, MsgNoData, MsgNoticeResponse, MsgParameterStatus}"

text \<open>The reply to a prepare: the description, with administrative messages before and after it.\<close>

definition prepare_reply :: "(byte \<times> bytes) list \<Rightarrow> field_desc list \<Rightarrow> (byte \<times> bytes) list \<Rightarrow> bytes \<Rightarrow> (byte \<times> bytes) list" where
  "prepare_reply qs fs qs' z = qs @ [(MsgRowDescription, row_description fs)] @ qs' @ [(MsgReadyForQuery, z)]"

lemma prep_quiet_run:
  "\<forall>(t, body) \<in> set qs. prep_quiet t \<Longrightarrow>
   \<exists>c'. run_msgs prep_step qs s = Inl (s\<lparr>pr_client := c'\<rparr>) \<and> client_kept (pr_client s) c'"
proof (induction qs arbitrary: s)
  case Nil
  show ?case by (rule exI [of _ "pr_client s"]) simp
next
  case (Cons q qs)
  obtain t body where q: "q = (t, body)" by (cases q)
  have "prep_quiet t" using Cons.prems q by simp
  then obtain c1 where c1: "prep_step t body s = Inl (s\<lparr>pr_client := c1\<rparr>)" "client_kept (pr_client s) c1"
  proof -
    have "prep_step t body s = Inl (s\<lparr>pr_client := pr_client s\<rparr>) \<or>
      prep_step t body s = Inl (s\<lparr>pr_client := observe (OnNotice (Parse body)) (pr_client s)\<rparr>) \<or>
      prep_step t body s = Inl (s\<lparr>pr_client := set_param body (pr_client s)\<rparr>)"
      using \<open>prep_quiet t\<close> by (auto simp: prep_quiet_def prep_step_def)
    then show ?thesis using that client_kept_refl client_kept_admin by blast
  qed
  obtain c2 where "run_msgs prep_step qs (s\<lparr>pr_client := c1\<rparr>) = Inl (s\<lparr>pr_client := c2\<rparr>)" "client_kept c1 c2"
    using Cons.IH [of "s\<lparr>pr_client := c1\<rparr>"] Cons.prems by auto
  then show ?case using c1 client_kept_trans [OF c1(2)] by (auto simp: q)
qed

lemma prep_reply_run:
  assumes "\<forall>(t, body) \<in> set (qs @ qs'). prep_quiet t" "descs_ok fs"
  shows "\<exists>c'. run_msgs prep_step (prepare_reply qs fs qs' z @ ms) \<lparr>pr_client = c, pr_plan = None, pr_pgError = None\<rparr> =
           Inr ((c', Inr (plan_of fs)), ms) \<and> client_kept c c'"
proof -
  let ?s = "\<lparr>pr_client = c, pr_plan = None, pr_pgError = None\<rparr>"
  obtain c1 where c1: "run_msgs prep_step qs ?s = Inl (?s\<lparr>pr_client := c1\<rparr>)" "client_kept c c1"
    using prep_quiet_run [of qs ?s] assms(1) by auto
  let ?s1 = "\<lparr>pr_client = c1, pr_plan = Some (plan_of fs), pr_pgError = None\<rparr>"
  have d: "prep_step MsgRowDescription (row_description fs) (?s\<lparr>pr_client := c1\<rparr>) = Inl ?s1"
    using ParseRowDescription_wire [OF assms(2)] by (simp add: prep_step_def)
  obtain c2 where c2: "run_msgs prep_step qs' ?s1 = Inl (?s1\<lparr>pr_client := c2\<rparr>)" "client_kept c1 c2"
    using prep_quiet_run [of qs' ?s1] assms(1) by auto
  have "prep_step MsgReadyForQuery z (?s1\<lparr>pr_client := c2\<rparr>) = Inr (c2, Inr (plan_of fs))" by (simp add: prep_step_def)
  then show ?thesis using c1 c2 d client_kept_trans
    by (intro exI [of _ c2]) (simp add: prepare_reply_def run_msgs_append del: MsgRowDescription_def MsgReadyForQuery_def)
qed

definition planned :: "Config \<Rightarrow> bytes \<Rightarrow> field_desc list \<Rightarrow> preparedStmt" where
  "planned cfg name fs =
     (let fmts = result_formats cfg (plan_of fs)
      in \<lparr>st_name = name, st_plan = ApplyFormats (plan_of fs) fmts, st_resultFmts = fmts\<rparr>)"

lemma planned_ok: "descs_ok fs \<Longrightarrow> plan_ok (st_plan (planned cfg name fs))"
  using ParseRowDescription_ok [OF ParseRowDescription_wire] ApplyFormats_ok by (simp add: planned_def Let_def)

lemma prepare_statement:
  assumes "\<forall>(t, body) \<in> set (qs @ qs'). prep_quiet t" "descs_ok fs" "conn_clear (cl_conn c)"
    and "msgs_ok (prepare_reply qs fs qs' z)" "rx (cl_conn c) = frames (prepare_reply qs fs qs' z) @ r"
    and "name = stmt_name (sc_seq (cl_stmts c) + 1)"
  shows "\<exists>c'. prepareAndDescribe sql c = (c', Inr (planned (cl_cfg c) name fs)) \<and> rx (cl_conn c') = r \<and> conn_clear (cl_conn c') \<and>
           tx (cl_conn c') = tx (cl_conn c) @ frames (prepare_msgs (sc_closed (cl_stmts c)) name sql) \<and> cl_cfg c' = cl_cfg c \<and>
           cl_stmts c' = (cl_stmts c)\<lparr>sc_seq := sc_seq (cl_stmts c) + 1, sc_closed := []\<rparr>"
proof -
  let ?sc = "cl_stmts c"
  let ?sc' = "?sc\<lparr>sc_seq := sc_seq ?sc + 1, sc_closed := []\<rparr>"
  have t: "takePendingClose (?sc\<lparr>sc_seq := sc_seq ?sc + 1\<rparr>) = (?sc', sc_closed ?sc)"
    by (simp add: takePendingClose_def)
  let ?cn = "(cl_conn c)\<lparr>tx := tx (cl_conn c) @ frames (prepare_msgs (sc_closed ?sc) name sql)\<rparr>"
  let ?c = "c\<lparr>cl_stmts := ?sc', cl_conn := ?cn\<rparr>"
  have f: "send_prepare (sc_closed ?sc) name sql (cl_conn c) = (?cn, None)"
    unfolding send_prepare_frames by (rule Flush_clear [OF assms(3)])
  obtain c1 where c1: "run_msgs prep_step (prepare_reply qs fs qs' z) \<lparr>pr_client = ?c, pr_plan = None, pr_pgError = None\<rparr> =
      Inr ((c1, Inr (plan_of fs)), [])" "client_kept ?c c1"
    using prep_reply_run [OF assms(1,2), of z "[]" ?c] by auto
  have "rx ?cn = frames (prepare_reply qs fs qs' z) @ r" using assms(5) by simp
  from msg_loop_frames [OF this assms(4) c1(1), of "\<lambda>e s. (pr_client s, Inl (WireErr e))"]
  obtain cn where cn: "msg_loop prep_step (\<lambda>e s. (pr_client s, Inl (WireErr e))) ?cn
      \<lparr>pr_client = ?c, pr_plan = None, pr_pgError = None\<rparr> = (cn, c1, Inr (plan_of fs))" "rx cn = r" "conn_same ?cn cn"
    by auto
  have "cl_cfg c1 = cl_cfg c" "cl_stmts c1 = ?sc'" using c1(2) by (simp_all add: client_kept_def)
  then have "prepareAndDescribe sql c = (c1\<lparr>cl_conn := cn\<rparr>, Inr (planned (cl_cfg c) name fs))"
    using t f cn(1) assms(6) by (simp add: prepareAndDescribe_def nextName_alt Let_def planned_def)
  then show ?thesis using cn \<open>cl_cfg c1 = cl_cfg c\<close> \<open>cl_stmts c1 = ?sc'\<close> assms(3) by (auto simp: conn_same_def conn_clear_def)
qed

section \<open>From the statement to the caller\<close>

lemma recordEnd_keeps:
  "cl_conn (recordEnd sql n b d e c) = cl_conn c" "cl_stmts (recordEnd sql n b d e c) = cl_stmts c"
  "cl_cfg (recordEnd sql n b d e c) = cl_cfg c"
  by (simp_all add: recordEnd_def observe_def Let_def)

lemma sc_set_same: "sc_get sql sc = Some st' \<Longrightarrow> sc_get sql (sc_set sql st sc) = Some st"
  by (simp add: sc_get_def sc_set_def map_of_map_entry)

text \<open>What a successful bind gives the whole call.\<close>

lemma runQuery_of_bind:
  assumes "\<not> rejectNonSelect sql" "\<not> qe_attachErr env" "0 \<le> StmtCacheSize (cl_cfg c) \<or> args \<noteq> []"
    and "obtain_stmt (qe_choice env 0) sql (observe (OnQueryStart sql) c) = (c1, Inr (st, fromCache))"
    and "bindExecute out mode st args c1 = (c2, out', st, None)"
  shows "runQuery env out mode sql args c =
    (recordEnd sql (cl_lastRows c2) (BytesOut out') (qe_dur env) None (c2\<lparr>cl_stmts := sc_set sql st (cl_stmts c2)\<rparr>), out', None)"
proof -
  let ?c = "observe (OnQueryStart sql) c"
  have "attempt_query (qe_choice env 0) out mode sql args ?c = runCached (qe_choice env 0) out mode sql args ?c"
    using assms(3) by (auto simp: attempt_query_def observe_def)
  also have "\<dots> = (c2\<lparr>cl_stmts := sc_set sql st (cl_stmts c2)\<rparr>, out', None)"
    unfolding runCached_def using assms(4,5) by (simp add: numeral_2_eq_2 Let_def)
  finally have "retry_loop env 0 out mode sql args ?c = (c2\<lparr>cl_stmts := sc_set sql st (cl_stmts c2)\<rparr>, out', None)"
    by (simp add: retry_loop.simps [of env 0])
  then show ?thesis using assms(1,2) by (simp add: runQuery_def Let_def)
qed

lemma query_run:
  assumes "\<not> rejectNonSelect sql" "\<not> qe_attachErr env" "0 \<le> StmtCacheSize (cl_cfg c) \<or> args \<noteq> []" "uncapped (cl_cfg c)"
    and "sc_get sql (cl_stmts c) = None" "sc_wf (cl_stmts c)" "supported args" "conn_clear (cl_conn c)"
    and "descs_ok fs" "\<forall>(t, body) \<in> set (qs @ qs'). prep_quiet t" "msgs_ok (prepare_reply qs fs qs' z)"
    and "st = planned (cl_cfg c) (stmt_name (sc_seq (cl_stmts c) + 1)) fs"
    and "reply_ok bind_quiet (st_plan st) is" "length z' \<le> maxMsg"
    and "rx (cl_conn c) = frames (prepare_reply qs fs qs' z @ map item_msg is @ [(MsgReadyForQuery, z')]) @ r"
    and "out_safe out" "ow.produced out = []"
  shows "\<exists>c' out'. runQuery env out mode sql args c = (c', out', None) \<and>
           delivered out' = document mode (st_plan st) (rows_of is) \<and> rx (cl_conn c') = r \<and>
           tx (cl_conn c') = tx (cl_conn c) @
             frames (prepare_msgs (sc_closed (cl_stmts c)) (st_name st) sql @ execute_msgs (st_name st) (st_resultFmts st) args) \<and>
           sc_get sql (cl_stmts c') = Some st"
proof -
  let ?c = "observe (OnQueryStart sql) c"
  have k: "cl_conn ?c = cl_conn c" "cl_stmts ?c = cl_stmts c" "cl_cfg ?c = cl_cfg c" by (simp_all add: observe_def)
  have rx: "rx (cl_conn ?c) = frames (prepare_reply qs fs qs' z) @ (frames (map item_msg is @ [(MsgReadyForQuery, z')]) @ r)"
    using assms(15) k by simp
  have name: "st_name st = stmt_name (sc_seq (cl_stmts ?c) + 1)" "st = planned (cl_cfg ?c) (st_name st) fs"
    unfolding assms(12) k by (simp_all add: planned_def Let_def)
  obtain c1 where c1: "prepareAndDescribe sql ?c = (c1, Inr st)" "rx (cl_conn c1) = frames (map item_msg is @ [(MsgReadyForQuery, z')]) @ r"
    "conn_clear (cl_conn c1)" "tx (cl_conn c1) = tx (cl_conn c) @ frames (prepare_msgs (sc_closed (cl_stmts c)) (st_name st) sql)"
    "cl_cfg c1 = cl_cfg c" "cl_stmts c1 = (cl_stmts c)\<lparr>sc_seq := sc_seq (cl_stmts c) + 1, sc_closed := []\<rparr>"
    using prepare_statement [OF assms(10,9) _ assms(11) rx name(1)] assms(8) name(2) k by metis
  let ?c2 = "c1\<lparr>cl_stmts := sc_put (qe_choice env 0) sql st (cl_stmts c1)\<rparr>"
  have ob: "obtain_stmt (qe_choice env 0) sql ?c = (?c2, Inr (st, False))"
    using assms(5) c1(1) k by (simp add: obtain_stmt_def)
  have wf: "sc_wf (cl_stmts c1)" using assms(6) c1(6) by (simp add: sc_wf_def)
  have pl: "plan_ok (st_plan st)" using planned_ok [OF assms(9)] assms(12) by simp
  obtain c3 out' where c3: "bindExecute out mode st args ?c2 = (c3, out', st, None)"
    "delivered out' = document mode (st_plan st) (rows_of is)" "rx (cl_conn c3) = r"
    "tx (cl_conn c3) = tx (cl_conn ?c2) @ frames (execute_msgs (st_name st) (st_resultFmts st) args)" "cl_stmts c3 = cl_stmts ?c2"
    using bindExecute_document [OF pl _ assms(7) _ assms(13,14) _ assms(16,17), of ?c2 r mode] assms(4) c1 by auto
  have "sc_get sql (cl_stmts c3) = Some st" using sc.lookup_insert [OF wf] c3(5) by simp
  from sc_set_same [OF this] have g: "sc_get sql (sc_set sql st (cl_stmts c3)) = Some st" .
  show ?thesis
    using runQuery_of_bind [OF assms(1-3) ob c3(1)] c3(2-4) c1(4) g by (simp add: recordEnd_keeps)
qed

section \<open>Properties\<close>

text \<open>
  C30. A query, end to end, on a connection that has not prepared it yet: when the server
  describes the columns and answers with rows of those columns, with notices, parameter changes
  and the other administrative messages anywhere between them, the call returns without an error,
  on either output path and in every mode; the caller has exactly the document of the rows in
  order; exactly the two pipelined requests were sent; the reply is consumed to its end; and the
  statement is cached under its name.
\<close>

theorem query_document:
  assumes "\<not> rejectNonSelect sql" "\<not> qe_attachErr env" "0 \<le> StmtCacheSize (cl_cfg c) \<or> args \<noteq> []" "uncapped (cl_cfg c)"
    and "sc_get sql (cl_stmts c) = None" "sc_wf (cl_stmts c)" "supported args" "conn_clear (cl_conn c)"
    and "descs_ok fs" "\<forall>(t, body) \<in> set (qs @ qs'). prep_quiet t" "msgs_ok (prepare_reply qs fs qs' z)"
    and "st = planned (cl_cfg c) (stmt_name (sc_seq (cl_stmts c) + 1)) fs"
    and "reply_ok bind_quiet (st_plan st) is" "length z' \<le> maxMsg"
    and "rx (cl_conn c) = frames (prepare_reply qs fs qs' z @ map item_msg is @ [(MsgReadyForQuery, z')]) @ r"
    and "out_safe out" "ow.produced out = []"
  shows "\<exists>c' out'. runQuery env out mode sql args c = (c', out', None) \<and>
           delivered out' = document mode (st_plan st) (rows_of is) \<and> rx (cl_conn c') = r \<and>
           tx (cl_conn c') = tx (cl_conn c) @
             frames (prepare_msgs (sc_closed (cl_stmts c)) (st_name st) sql @ execute_msgs (st_name st) (st_resultFmts st) args) \<and>
           sc_get sql (cl_stmts c') = Some st"
  by (rule query_run [OF assms])

text \<open>
  The witnesses: a table with one \<open>int4\<close> column named \<open>id\<close> and two rows, in the binary format the
  driver asks for, on a fresh connection.
\<close>

definition demo_items :: "reply_item list" where
  "demo_items = [Admin 50 [], Row [Some [0, 0, 0, 7]], Admin 78 [0], Row [None], Admin 67 (bs ''SELECT 2'' @ [0])]"

definition demo_reply :: "(byte \<times> bytes) list" where
  "demo_reply = prepare_reply [(49, []), (116, [0, 0])] [id_desc] [] [73] @ map item_msg demo_items @ [(90, [73])]"

definition demo_client :: Client where
  "demo_client = new_client zero_Config (frames demo_reply @ [])"

definition demo_env :: query_env where
  "demo_env = \<lparr>qe_attachErr = False, qe_done = (\<lambda>_. False), qe_fired = (\<lambda>_. False), qe_choice = (\<lambda>_. 0), qe_dur = 0\<rparr>"

definition demo_st :: preparedStmt where
  "demo_st = planned zero_Config (stmt_name 1) [id_desc]"

definition mem_writer :: outWriter where
  "mem_writer = BufW \<lparr>bw_p = [], bw_rowsHint = 0, bw_grew = False\<rparr>"

lemma demo_formats: "result_formats zero_Config (plan_of [id_desc]) = [1]"
  by (simp add: result_formats_def zero_Config_def PickResultFormats_def plan_of_def column_of_def id_desc_def HasBinary_def
      PickBinary.simps Let_def)

lemma demo_columns: "Columns (st_plan demo_st) = [(column_of id_desc)\<lparr>Format := 1, Encoder := encodeInt4Binary\<rparr>]"
  unfolding demo_st_def planned_def demo_formats Let_def preparedStmt.select_convs
  by (simp add: ApplyFormats_def plan_of_def format_encoder_def column_of_def id_desc_def PickBinary.simps)

lemma demo_document: "document ModeArray (st_plan demo_st) (rows_of demo_items) = bs ''[{\"id\":7},{\"id\":null}]''"
proof -
  have "dec_int 7 = bs ''7''" by (simp add: dec_int_def dec_nat.simps digit_def)
  moreover have "beI32 [0, 0, 0, 7] = 7" by (simp add: beI32_def beU32_def)
  moreover have "AppendString [] (bs ''id'') = bs ''\"id\"''"
    unfolding AppendString_def AppendStringBody_esc esc_def escapeFlag_iff by simp
  ultimately show ?thesis
    by (simp add: document_def rows_text_def row_text_def object_text_def member_texts_def demo_items_def demo_columns
        head_text_def foot_text_def sep_text_def column_of_def id_desc_def encodeInt4Binary_def AppendNull_def)
qed

lemma demo_select: "\<not> rejectNonSelect (bs ''select id'')"
  by (simp add: rejectNonSelect_def TrimLeft_ws_def ws_byte_def strip_line_comments.simps strip_block_comments.simps
      HasPrefix_def select_keywords_def)

lemma demo_parts:
  "cl_cfg demo_client = zero_Config" "cl_stmts demo_client = newStmtCache 0" "cl_conn demo_client = new_conn (frames demo_reply @ [])"
  by (simp_all add: demo_client_def new_client_def zero_Config_def)

lemma demo_reply_ok: "reply_ok bind_quiet (st_plan demo_st) demo_items"
  by (auto simp: reply_ok_def demo_items_def bind_quiet_def msgs_ok_def cells_for_def demo_columns elem_ok_def maxMsg_def
      data_row_def elem_wire_def)

lemma demo_described:
  "descs_ok [id_desc]" "msgs_ok (prepare_reply [(49, []), (116, [0, 0])] [id_desc] [] [73])"
  "demo_st = planned (cl_cfg demo_client) (stmt_name (sc_seq (cl_stmts demo_client) + 1)) [id_desc]"
  "rx (cl_conn demo_client) = frames (prepare_reply [(49, []), (116, [0, 0])] [id_desc] [] [73] @ map item_msg demo_items @
     [(MsgReadyForQuery, [73])]) @ []"
proof -
  show "descs_ok [id_desc]" by (simp add: descs_ok_def id_desc_def desc_ok_def in_i16_def in_i32_def)
  show "msgs_ok (prepare_reply [(49, []), (116, [0, 0])] [id_desc] [] [73])"
    by (simp add: msgs_ok_def prepare_reply_def maxMsg_def row_description_def desc_wire_def id_desc_def)
  show "demo_st = planned (cl_cfg demo_client) (stmt_name (sc_seq (cl_stmts demo_client) + 1)) [id_desc]"
    by (simp add: demo_st_def demo_parts newStmtCache_def)
  show "rx (cl_conn demo_client) = frames (prepare_reply [(49, []), (116, [0, 0])] [id_desc] [] [73] @ map item_msg demo_items @
     [(MsgReadyForQuery, [73])]) @ []"
    by (simp add: demo_parts new_conn_def demo_reply_def)
qed

lemmas demo_defs =
  demo_env_def demo_parts zero_Config_def uncapped_def newStmtCache_def sc_get_def sc_wf_def supported_def conn_clear_def
  new_conn_def prep_quiet_def maxMsg_def mem_writer_def ow.produced_def demo_document

lemma demo_run:
  "\<exists>c' out'. runQuery demo_env mem_writer ModeArray (bs ''select id'') [] demo_client = (c', out', None) \<and>
     delivered out' = bs ''[{\"id\":7},{\"id\":null}]''"
  using query_run [OF demo_select _ _ _ _ _ _ _ demo_described(1) _ demo_described(2,3) demo_reply_ok _ demo_described(4),
      of demo_env "[]" mem_writer ModeArray]
  by (auto simp: demo_defs)

theorem query_document_witness:
  "\<exists>c' out'. runQuery demo_env mem_writer ModeArray (bs ''select id'') [] demo_client = (c', out', None) \<and>
     delivered out' = bs ''[{\"id\":7},{\"id\":null}]''"
  using query_document [OF demo_select _ _ _ _ _ _ _ demo_described(1) _ demo_described(2,3) demo_reply_ok _ demo_described(4),
      of demo_env "[]" mem_writer ModeArray]
  by (auto simp: demo_defs)

end
