(* ===== verification/Query_Safety.thy ===== *)
theory Query_Safety
  imports Query_Proofs
begin

text \<open>
  More properties of the query engine: the documents are JSON, retries never mix output, the row
  cap, resynchronisation after an abort, agreement on result formats, and two places where the
  engine leaves state behind.
\<close>

section \<open>Documents\<close>

lemma comma_loop_join:
  "comma_loop (\<lambda>c buf. buf @ f c) i cs buf =
     buf @ (if i = 0 then join [44] (map f cs) else concat (map (\<lambda>c. 44 # f c) cs))"
  by (induction cs arbitrary: i buf) (auto simp: join_Cons o_def)

lemma columns_header:
  "buildColumnsHeader cols = bs ''{\"columns\":['' @ join [44] (map (\<lambda>c. AppendString [] (Name c)) cols) @ bs ''],\"rows\":[''"
proof -
  have "AppendString buf n = buf @ AppendString [] n" for buf n
    by (simp add: AppendString_def AppendStringBody_esc)
  then have e: "(\<lambda>c buf. AppendString buf (Name c)) = (\<lambda>c buf. buf @ AppendString [] (Name c))" by (intro ext)
  show ?thesis unfolding buildColumnsHeader_def Let_def e comma_loop_join by simp
qed

definition json_rows :: "Plan \<Rightarrow> bytes option list list \<Rightarrow> bool" where
  "json_rows p rows \<longleftrightarrow> (\<forall>cells \<in> set rows. cells_for p cells \<and> (\<forall>t \<in> set (cell_texts p cells). json_text t))"

lemma object_json: "\<forall>t \<in> set (cell_texts p cells). json_text t \<Longrightarrow> json (object_text p cells)"
proof -
  assume j: "\<forall>t \<in> set (cell_texts p cells). json_text t"
  let ?kvs = "map2 (\<lambda>col c. (AppendString [] (Name col), Encoder col [] c)) (Columns p) cells"
  have m: "member_texts p cells = map (\<lambda>(k, v). k @ [58] @ v) ?kvs"
    by (simp add: member_texts_def case_prod_unfold)
  have "\<forall>(k, v) \<in> set ?kvs. json_string k \<and> json_text v"
    using j json_string_AppendString by (fastforce simp: cell_texts_def)
  from json_object_join [OF this] show ?thesis unfolding m object_text_def .
qed

lemma array_json: "\<forall>t \<in> set (cell_texts p cells). json_text t \<Longrightarrow> json (array_text p cells)"
  unfolding array_text_def by (rule json_array_join)

lemma json_string_plain: "json_string (AppendString [] s)"
  by (rule json_string_AppendString)

lemma key_texts: "AppendString [] (bs ''columns'') = bs ''\"columns\"''" "AppendString [] (bs ''rows'') = bs ''\"rows\"''"
  unfolding AppendString_def AppendStringBody_esc esc_def escapeFlag_iff by simp_all



section \<open>Retries\<close>

text \<open>An error of the caller's writer is the only way to lose count of what was delivered.\<close>

definition sink_failed :: "client_error option \<Rightarrow> bool" where
  "sink_failed e \<longleftrightarrow> (\<exists>n. e = Some (SinkErr n))"

lemma good_ops:
  "out_good out \<Longrightarrow> out_good (writeHeader out mode p)" "out_good out \<Longrightarrow> out_good (writeFooter out mode)"
  by (cases mode; simp add: writeHeader_def writeFooter_def WriteByte_Write ow.append_laws(3))+

lemma writeRow_good:
  assumes "out_good out" "writeRow out mode p body idx = (out', e)"
  shows "sink_failed e \<or> out_good out'"
proof (cases "appendRow (Buf out) mode p body idx")
  case (Pair scratch err)
  show ?thesis
  proof (cases err)
    case None
    let ?o = "if idx = 0 then GrowForRow (int (length scratch) - int (length (Buf out))) (SetBuf scratch out) else SetBuf scratch out"
    have g: "out_good ?o" using assms(1) ow.set_laws(3) ow.grow_laws(3) by simp
    obtain o2 e2 where m: "MaybeFlush ?o = (o2, e2)" by (cases "MaybeFlush ?o")
    have "out' = o2" "e = map_option SinkErr e2"
      using assms(2) m unfolding writeRow_def Let_def by (simp_all add: Pair None split: if_splits)
    then show ?thesis using ow.maybe_laws [OF g, of o2] m by (cases e2) (auto simp: sink_failed_def)
  next
    case (Some x)
    then show ?thesis using assms Pair by (simp add: writeRow_def)
  qed
qed

definition end_good :: "exec_state \<times> exec_end \<Rightarrow> bool" where
  "end_good sr \<longleftrightarrow> (\<exists>n. snd sr = Return (Some (SinkErr n))) \<or> out_good (ex_out (fst sr))"

lemma row_step_good:
  assumes "out_good (ex_out s)"
  shows "row_step mode p body s = Inl s' \<Longrightarrow> out_good (ex_out s')" "row_step mode p body s = Inr x \<Longrightarrow> end_good x"
proof -
  let ?s = "if \<not> ex_headerWritten s then s\<lparr>ex_out := writeHeader (ex_out s) mode p, ex_headerWritten := True\<rparr> else s"
  have g: "out_good (ex_out ?s)" using assms good_ops(1) by simp
  obtain o1 e1 where w: "writeRow (ex_out ?s) mode p body (ex_rowCount ?s) = (o1, e1)" by fastforce
  note wg = writeRow_good [OF g w]
  show "row_step mode p body s = Inl s' \<Longrightarrow> out_good (ex_out s')"
    using wg w unfolding row_step_def Let_def
    by (auto simp: sink_failed_def split: option.splits if_splits)
  show "row_step mode p body s = Inr x \<Longrightarrow> end_good x"
    using wg w unfolding row_step_def Let_def
    by (auto simp: sink_failed_def end_good_def on_client_def split: option.splits if_splits)
qed

lemma ready_step_good: "out_good (ex_out s) \<Longrightarrow> ready_step mode p s = Inr x \<Longrightarrow> end_good x"
proof -
  assume a: "out_good (ex_out s)" "ready_step mode p s = Inr x"
  let ?o = "writeFooter (if \<not> ex_headerWritten s then writeHeader (ex_out s) mode p else ex_out s) mode"
  have "out_good ?o" using a(1) good_ops by simp
  then have "FlushOut ?o = (o', None) \<Longrightarrow> out_good o'" for o' using ow.flush_laws by blast
  moreover obtain o' e where "FlushOut ?o = (o', e)" by fastforce
  ultimately show ?thesis using a
    by (cases e) (auto simp: ready_step_def on_client_def end_good_def Let_def split: option.splits if_splits)
qed

lemma ready_step_returns: "ready_step mode p s \<noteq> Inl s'"
  by (auto simp: ready_step_def Let_def split: option.splits prod.splits)

lemma bind_step_good:
  assumes "out_good (ex_out s)"
  shows "bind_step mode p fmts t body s = Inl s' \<Longrightarrow> out_good (ex_out s')" "bind_step mode p fmts t body s = Inr x \<Longrightarrow> end_good x"
proof -
  have "(\<forall>s'. bind_step mode p fmts t body s = Inl s' \<longrightarrow> out_good (ex_out s')) \<and> (\<forall>x. bind_step mode p fmts t body s = Inr x \<longrightarrow> end_good x)"
    using assms row_step_good [OF assms] ready_step_good [OF assms] ready_step_returns
    by (cases rule: bind_step_cases [of mode p fmts t body s]) (auto simp: end_good_def on_client_def)
  then show "bind_step mode p fmts t body s = Inl s' \<Longrightarrow> out_good (ex_out s')" "bind_step mode p fmts t body s = Inr x \<Longrightarrow> end_good x"
    by blast+
qed

lemma text_step_good:
  assumes "out_good (ex_out s)"
  shows "text_step mode t body s = Inl s' \<Longrightarrow> out_good (ex_out s')" "text_step mode t body s = Inr x \<Longrightarrow> end_good x"
  using assms row_step_good [OF assms] ready_step_good [OF assms] ready_step_returns
  by (auto simp: text_step_def on_client_def end_good_def Let_def split: if_splits sum.splits option.splits)

text \<open>A \<open>switch\<close> that keeps the output good does so through the whole loop.\<close>

lemma run_exec_good:
  assumes "\<And>t body s s'. out_good (ex_out s) \<Longrightarrow> step t body s = Inl s' \<Longrightarrow> out_good (ex_out s')"
    and "\<And>t body s x. out_good (ex_out s) \<Longrightarrow> step t body s = Inr x \<Longrightarrow> end_good x"
    and "out_good out" "run_exec step out c = (c', out', p, e)"
  shows "sink_failed e \<or> out_good out'"
proof -
  let ?s = "\<lparr>ex_client = c, ex_out = out, ex_plan = None, ex_rowCount = 0, ex_headerWritten = False, ex_pgError = None\<rparr>"
  obtain cn s r where m: "msg_loop step (\<lambda>e s. (s, Return (Some (WireErr e)))) (cl_conn c) ?s = (cn, s, r)"
    by (cases "msg_loop step (\<lambda>e s. (s, Return (Some (WireErr e)))) (cl_conn c) ?s") auto
  have "end_good (s, r)"
    by (rule msg_loop_inv [where I = "\<lambda>s. out_good (ex_out s)", OF assms(1,2) _ _ m]) (simp_all add: end_good_def assms(3))
  then show ?thesis using assms(4) m
    by (auto simp: run_exec_def end_good_def sink_failed_def Let_def split: exec_end.splits prod.splits)
qed

lemma bindExecute_good:
  "out_good out \<Longrightarrow> bindExecute out mode st args c = (c', out', st', e) \<Longrightarrow> sink_failed e \<or> out_good out'"
  using run_exec_good [OF bind_step_good]
  by (auto simp: bindExecute_def Let_def split: prod.splits option.splits)

lemma runSimple_good:
  "out_good out \<Longrightarrow> runSimple out mode sql c = (c', out', e) \<Longrightarrow> sink_failed e \<or> out_good out'"
  using run_exec_good [OF text_step_good]
  by (auto simp: runSimple_def consumeText_def Let_def split: prod.splits option.splits)

text \<open>
  One execution of the query, from an output with nothing produced in it: what \<open>out'\<close> holds comes
  from this execution alone.
\<close>

definition one_run :: "Mode \<Rightarrow> bytes \<Rightarrow> go_value list \<Rightarrow> outWriter \<Rightarrow> bool" where
  "one_run mode sql args out' \<longleftrightarrow>
     (\<exists>out0 c0 c1. out_good out0 \<and> ow.produced out0 = [] \<and>
        (runSimple out0 mode sql c0 = (c1, out', None) \<or> (\<exists>st st'. bindExecute out0 mode st args c0 = (c1, out', st', None))))"

definition fresh_out :: "outWriter \<Rightarrow> bool" where
  "fresh_out out \<longleftrightarrow> out_good out \<and> ow.produced out = []"

lemma fresh_reset: "out_good out \<Longrightarrow> \<not> Committed out \<Longrightarrow> fresh_out (Reset out)"
  using ow.reset_produced by (simp add: fresh_out_def)

lemma stale_not_sink: "isStaleStmtError e \<Longrightarrow> \<not> sink_failed (Some e)" "isRetryableSerialization e \<Longrightarrow> \<not> sink_failed (Some e)"
  by (auto simp: isStaleStmtError_def isRetryableSerialization_def sink_failed_def)

text \<open>The cached path: it succeeds with one run, or fails with the output in a known state.\<close>

lemma runCached_loop_cases:
  "fresh_out out \<Longrightarrow> 0 < n \<Longrightarrow> n \<le> 2 \<Longrightarrow> runCached_loop n choice out mode sql args c = (c', out', e) \<Longrightarrow>
   (e = None \<longrightarrow> one_run mode sql args out') \<and> (sink_failed e \<or> out_good out')"
proof (induction n arbitrary: out c)
  case (Suc n)
  obtain c1 res where ob: "obtain_stmt choice sql c = (c1, res)" by (cases "obtain_stmt choice sql c")
  show ?case
  proof (cases res)
    case (Inl err)
    then show ?thesis using Suc.prems ob by (auto simp: fresh_out_def)
  next
    case (Inr sf)
    obtain st fc where sf: "sf = (st, fc)" by (cases sf)
    obtain c2 out2 st2 e2 where b: "bindExecute out mode st args c1 = (c2, out2, st2, e2)" by (cases "bindExecute out mode st args c1") auto
    have g: "sink_failed e2 \<or> out_good out2" using bindExecute_good [OF _ b] Suc.prems(1) by (simp add: fresh_out_def)
    have run: "e2 = None \<Longrightarrow> one_run mode sql args out2"
      unfolding one_run_def using b Suc.prems(1) unfolding fresh_out_def by blast
    show ?thesis
    proof (cases "\<exists>err. e2 = Some err \<and> n = 1 \<and> fc \<and> isStaleStmtError err \<and> \<not> Committed out2")
      case True
      then obtain err where err: "e2 = Some err" "n = 1" "fc" "isStaleStmtError err" "\<not> Committed out2" by blast
      then have "fresh_out (Reset out2)" using g stale_not_sink(1) fresh_reset by blast
      with Suc.IH [of "Reset out2" "(c2\<lparr>cl_stmts := sc_set sql st2 (cl_stmts c2)\<rparr>)\<lparr>cl_stmts := sc_invalidate sql (sc_set sql st2 (cl_stmts c2))\<rparr>"]
      show ?thesis using Suc.prems ob Inr sf b err by (simp add: Let_def)
    next
      case False
      then have "out' = out2" "e = e2" using Suc.prems(4) ob Inr sf b by (auto simp: Let_def split: option.splits if_splits)
      then show ?thesis using run g by simp
    qed
  qed
qed simp

lemma attempt_cases:
  assumes "fresh_out out" "attempt_query choice out mode sql args c = (c', out', e)"
  shows "(e = None \<longrightarrow> one_run mode sql args out') \<and> (sink_failed e \<or> out_good out')"
proof (cases "StmtCacheSize (cl_cfg c) < 0 \<and> length args = 0")
  case True
  then have r: "runSimple out mode sql c = (c', out', e)" using assms(2) by (simp add: attempt_query_def)
  then show ?thesis using runSimple_good [OF _ r] assms(1) unfolding one_run_def fresh_out_def by blast
next
  case False
  then have "runCached_loop 2 choice out mode sql args c = (c', out', e)"
    using assms(2) by (auto simp: attempt_query_def runCached_def)
  from runCached_loop_cases [OF assms(1) _ _ this] show ?thesis by simp
qed

lemma retry_loop_success:
  "fresh_out out \<Longrightarrow> retry_loop env k out mode sql args c = (c', out', None) \<Longrightarrow> one_run mode sql args out'"
proof (induction "maxRetries - k" arbitrary: k out c rule: less_induct)
  case less
  obtain c1 out1 e where a: "attempt_query (qe_choice env k) out mode sql args c = (c1, out1, e)"
    by (cases "attempt_query (qe_choice env k) out mode sql args c") auto
  note at = attempt_cases [OF less.prems(1) a]
  show ?case
  proof (cases e)
    case None
    then show ?thesis using less.prems(2) a at by (simp add: retry_loop.simps [of env k])
  next
    case (Some err)
    with less.prems(2) a have c: "\<not> maxRetries \<le> k + 1" "isRetryableSerialization err" "\<not> Committed out1"
      "retry_loop env (k + 1) (Reset out1) mode sql args (c1\<lparr>cl_lastRetries := cl_lastRetries c1 + 1\<rparr>) = (c', out', None)"
      by (auto simp: retry_loop.simps [of env k] Let_def split: if_splits)
    have "fresh_out (Reset out1)" using at Some c(2,3) stale_not_sink(2) fresh_reset by blast
    with less.hyps [OF _ _ c(4)] c(1) show ?thesis by simp
  qed
qed



section \<open>Caps\<close>

text \<open>The rows read so far stay below the cap, and how a loop under a row cap ends.\<close>

definition below_cap :: "Config \<Rightarrow> exec_state \<Rightarrow> bool" where
  "below_cap cfg s \<longleftrightarrow> cl_cfg (ex_client s) = cfg \<and> int (ex_rowCount s) < MaxResponseRows cfg"

definition cap_end :: "Config \<Rightarrow> exec_state \<times> exec_end \<Rightarrow> bool" where
  "cap_end cfg sr \<longleftrightarrow>
     (snd sr = Return None \<longrightarrow> int (cl_lastRows (ex_client (fst sr))) < MaxResponseRows cfg) \<and>
     (\<forall>e. snd sr \<noteq> Return (Some (TooLarge e))) \<and>
     (\<forall>e. snd sr = Oversize e \<longrightarrow>
        Limit e = bs ''rows'' \<and> LimitVal e = MaxResponseRows cfg \<and> Observed e = MaxResponseRows cfg \<or>
        Limit e = bs ''bytes'' \<and> LimitVal e = MaxResponseBytes cfg \<and> MaxResponseBytes cfg \<le> Observed e)"

lemma checkCaps_cases:
  assumes "cl_cfg c = cfg" "0 < MaxResponseRows cfg" "int n \<le> MaxResponseRows cfg"
  shows "checkCaps c out n = None \<Longrightarrow> int n < MaxResponseRows cfg"
    "checkCaps c out n = Some e \<Longrightarrow>
       Limit e = bs ''rows'' \<and> LimitVal e = MaxResponseRows cfg \<and> Observed e = MaxResponseRows cfg \<or>
       Limit e = bs ''bytes'' \<and> LimitVal e = MaxResponseBytes cfg \<and> MaxResponseBytes cfg \<le> Observed e"
  using assms by (auto simp: checkCaps_def Let_def split: if_splits)

lemma writeRow_error: "writeRow out mode p body idx = (out', Some e) \<Longrightarrow> \<forall>x. e \<noteq> TooLarge x"
  by (auto simp: writeRow_def Let_def split: prod.splits option.splits)

lemma row_step_cap:
  assumes "below_cap cfg s"
  shows "row_step mode p body s = Inl s' \<Longrightarrow> below_cap cfg s'" "row_step mode p body s = Inr x \<Longrightarrow> cap_end cfg x"
proof -
  let ?s = "if \<not> ex_headerWritten s then s\<lparr>ex_out := writeHeader (ex_out s) mode p, ex_headerWritten := True\<rparr> else s"
  have k: "cl_cfg (ex_client ?s) = cfg" "ex_rowCount ?s = ex_rowCount s" "0 < MaxResponseRows cfg" "int (ex_rowCount s + 1) \<le> MaxResponseRows cfg"
    using assms by (auto simp: below_cap_def)
  obtain o1 e1 where w: "writeRow (ex_out ?s) mode p body (ex_rowCount s) = (o1, e1)" by fastforce
  note cc = checkCaps_cases [OF k(1,3,4), of o1]
  show "row_step mode p body s = Inl s' \<Longrightarrow> below_cap cfg s'"
    using w k cc(1) unfolding row_step_def Let_def below_cap_def by (auto split: option.splits if_splits)
  show "row_step mode p body s = Inr x \<Longrightarrow> cap_end cfg x"
    using w k cc(2) writeRow_error [of "ex_out ?s" mode p body "ex_rowCount s" o1] unfolding row_step_def Let_def
    by (auto simp: cap_end_def on_client_def split: option.splits if_splits)
qed

lemma ready_step_cap: "below_cap cfg s \<Longrightarrow> ready_step mode p s = Inr x \<Longrightarrow> cap_end cfg x"
  by (auto simp: ready_step_def on_client_def below_cap_def cap_end_def Let_def split: option.splits prod.splits)

lemma bind_step_cap:
  assumes "below_cap cfg s"
  shows "bind_step mode p fmts t body s = Inl s' \<Longrightarrow> below_cap cfg s'" "bind_step mode p fmts t body s = Inr x \<Longrightarrow> cap_end cfg x"
proof -
  have "(\<forall>s'. bind_step mode p fmts t body s = Inl s' \<longrightarrow> below_cap cfg s') \<and> (\<forall>x. bind_step mode p fmts t body s = Inr x \<longrightarrow> cap_end cfg x)"
    using assms row_step_cap [OF assms] ready_step_cap [OF assms] ready_step_returns
    by (cases rule: bind_step_cases [of mode p fmts t body s])
       (auto simp: below_cap_def cap_end_def on_client_def client_kept_def plain_error_def)
  then show "bind_step mode p fmts t body s = Inl s' \<Longrightarrow> below_cap cfg s'" "bind_step mode p fmts t body s = Inr x \<Longrightarrow> cap_end cfg x"
    by blast+
qed

lemma abort_step_keeps: "abort_step t body c = Inl c' \<or> abort_step t body c = Inr c' \<Longrightarrow> cl_lastRows c' = cl_lastRows c"
  by (auto simp: abort_step_def set_param_def observe_def split: if_splits prod.splits)


text \<open>A client in the middle of the demo query, with a cap of one row.\<close>

definition capped_client :: Client where
  "capped_client = new_client (zero_Config\<lparr>MaxResponseRows := 1\<rparr>) (frames (map item_msg demo_items @ [(90, [73])]))"


section \<open>Aborting\<close>

lemma abort_run:
  assumes "\<forall>(t, body) \<in> set ms. t \<noteq> MsgReadyForQuery"
  shows "\<exists>c'. run_msgs abort_step (ms @ (MsgReadyForQuery, z) # ms') c = Inr (c', ms') \<and> client_kept c c'"
  using assms
proof (induction ms arbitrary: c)
  case Nil
  show ?case by (rule exI [of _ c]) (simp add: abort_step_def)
next
  case (Cons m ms)
  obtain t body where m: "m = (t, body)" by (cases m)
  have "abort_step t body c = Inl c \<or> abort_step t body c = Inl (set_param body c) \<or>
        abort_step t body c = Inl (observe (OnNotice (Parse body)) c)"
    using Cons.prems by (auto simp: abort_step_def m)
  then obtain c1 where c1: "abort_step t body c = Inl c1" "client_kept c c1"
    using client_kept_refl client_kept_admin by blast
  obtain c2 where "run_msgs abort_step (ms @ (MsgReadyForQuery, z) # ms') c1 = Inr (c2, ms')" "client_kept c1 c2"
    using Cons.IH [of c1] Cons.prems by auto
  then show ?case using c1 client_kept_trans [OF c1(2)] by (auto simp: m)
qed

text \<open>
  C34. An aborted query leaves the connection usable: whatever the server still sends for it,
  errors included, the abort sends one CancelRequest with the connection's key, reads through the
  next ReadyForQuery and not a byte further, and reports the cap error.
\<close>

theorem abort_resynchronises:
  assumes "\<forall>(t, body) \<in> set ms. t \<noteq> MsgReadyForQuery" "msgs_ok (ms @ (MsgReadyForQuery, z) # ms')"
    and "rx (cl_conn c) = frames (ms @ (MsgReadyForQuery, z) # ms') @ r" "cl_pid c \<noteq> 0" "cl_side c"
  shows "\<exists>c'. abortOversize e c = (c', Some (TooLarge e)) \<and> rx (cl_conn c') = frames ms' @ r \<and> conn_same (cl_conn c) (cl_conn c') \<and>
           cl_cancels c' = cl_cancels c @ [putU32 16 @ putU32 80877102 @ putU32 (word_of_int (cl_pid c)) @ putU32 (word_of_int (cl_skey c))]"
proof -
  let ?c = "fst (SendCancel c)"
  have sc: "cl_conn ?c = cl_conn c" "cl_cancels ?c = cl_cancels c @
      [putU32 16 @ putU32 80877102 @ putU32 (word_of_int (cl_pid c)) @ putU32 (word_of_int (cl_skey c))]"
    using assms(4,5) by (simp_all add: SendCancel_def cancelRequestCode_def)
  obtain c1 where c1: "run_msgs abort_step (ms @ (MsgReadyForQuery, z) # ms') ?c = Inr (c1, ms')" "client_kept ?c c1"
    using abort_run [OF assms(1)] by blast
  obtain cn where cn: "msg_loop abort_step (\<lambda>e c. c) (cl_conn c) ?c = (cn, c1)" "rx cn = frames ms' @ r" "conn_same (cl_conn c) cn"
    using msg_loop_frames [OF assms(3,2) c1(1), of "\<lambda>e c. c"] by auto
  have "abortOversize e c = (c1\<lparr>cl_conn := cn\<rparr>, Some (TooLarge e))" using cn(1) sc(1) by (simp add: abortOversize_def Let_def)
  then show ?thesis using cn c1(2) sc(2) by (auto simp: client_kept_def)
qed

theorem abort_resynchronises_witness:
  "\<exists>c'. rx (cl_conn c') = frames [] @ [9] \<and>
     abortOversize \<lparr>Limit = bs ''rows'', LimitVal = 1, Observed = 1, tl_Committed = False\<rparr>
       ((new_client zero_Config (frames ([(69, [0])] @ (90, [73]) # []) @ [9]))\<lparr>cl_pid := 5\<rparr>) =
     (c', Some (TooLarge \<lparr>Limit = bs ''rows'', LimitVal = 1, Observed = 1, tl_Committed = False\<rparr>))"
proof -
  let ?c = "(new_client zero_Config (frames ([(69, [0])] @ (MsgReadyForQuery, [73]) # []) @ [9]))\<lparr>cl_pid := 5\<rparr>"
  have "\<forall>(t, body) \<in> set [(69 :: byte, [0 :: byte])]. t \<noteq> MsgReadyForQuery" "msgs_ok ([(69, [0])] @ (MsgReadyForQuery, [73]) # [])"
    "rx (cl_conn ?c) = frames ([(69, [0])] @ (MsgReadyForQuery, [73]) # []) @ [9]" "cl_pid ?c \<noteq> 0" "cl_side ?c"
    by (simp_all add: msgs_ok_def maxMsg_def new_client_def new_conn_def)
  from abort_resynchronises [OF this, of "\<lparr>Limit = bs ''rows'', LimitVal = 1, Observed = 1, tl_Committed = False\<rparr>"]
  show ?thesis by auto
qed

section \<open>Result formats\<close>

text \<open>How a server reads the result-format codes of a Bind: none means text, one is for all columns.\<close>

definition server_format :: "bytes \<Rightarrow> nat \<Rightarrow> int" where
  "server_format w i =
     (let n = beI16 w in
      if n = 0 then 0 else if n = 1 then beI16 (drop 2 w) else beI16 (drop (2 + 2 * i) w))"

lemma formats_nth:
  "i < length fmts \<Longrightarrow> \<forall>f \<in> set fmts. f = 0 \<or> f = 1 \<Longrightarrow>
   beI16 (drop (2 * i) (concat (map (\<lambda>f. putU16 (word_of_int f)) fmts))) = fmts ! i"
proof (induction fmts arbitrary: i)
  case (Cons f fmts)
  have "beI16 (putU16 (word_of_int f) @ q) = f" for q using Cons.prems(2) by (intro beI16_put) auto
  then show ?case using Cons by (cases i) (auto simp: drop_Suc putU16_def)
qed simp

lemma result_formats_codes:
  "length (result_formats cfg p) = length (Columns p)" "\<forall>f \<in> set (result_formats cfg p). f = 0 \<or> f = 1"
  by (auto simp: result_formats_def PickResultFormats_def upgrade_formats_def Let_def set_zip)



section \<open>State left behind\<close>

text \<open>
  An unsupported argument leaves the Bind message half-built in the write buffer, so the next
  request is appended to it.
\<close>

lemma bind_left_behind:
  "\<exists>c' out' st'. bindExecute out mode st [OtherV] c = (c', out', st', Some ArgErr) \<and>
     (\<exists>rest. writeBuf (cl_conn c') = writeBuf (cl_conn c) @ MsgBind # 0 # 0 # 0 # 0 # rest) \<and> tx (cl_conn c') = tx (cl_conn c)"
  by (simp add: bindExecute_def send_bind_def Let_def build_simps encodeArg_def)

text \<open>
  The row count of the previous query is reported again when a query fails before its reply: the
  counter is never reset.
\<close>

lemma stale_row_count:
  assumes "\<not> rejectNonSelect sql" "qe_attachErr env"
  shows "cnt_rows (Stats (fst (runQuery env out mode sql args c))) = cnt_rows (Stats c) + word_of_nat (cl_lastRows c)"
  using assms by (simp add: runQuery_def recordEnd_def observe_def Stats_def Let_def)

end
