(* ===== verification/Pool.thy ===== *)
theory Pool
  imports Transition Bufferpool "HOL-Library.Multiset"
begin

text \<open>
  \<open>pg2json/pool/pool.go\<close>: the connection pool. Every section under the mutex is one function; the
  pool together with its callers, the goroutines that open connections and the waiters' channels is
  a transition system whose events are those sections, so any interleaving of callers is a run.
  Connections and channels are numbered. Shown: a connection is never in two hands, the in-use count
  is exact, a closed or draining pool keeps nothing idle, senders never block, and when the open
  count is exact.
\<close>

section \<open>State and defaults\<close>

record PoolConfig =
  MaxConns :: int
  MinIdle :: int
  IdleTimeout :: int
  HealthCheck :: int
  PingAfterIdle :: int
  MaxConnLifetime :: int
  MaxInFlightBuffers :: int

definition time_Minute :: int where "time_Minute = 60000000000"

definition pool_applyDefaults :: "PoolConfig \<Rightarrow> bp_state \<Rightarrow> PoolConfig \<times> bp_state" where
  "pool_applyDefaults c bp =
     (let c = (if MaxConns c \<le> 0 then c\<lparr>MaxConns := 16\<rparr> else c);
          c = (if IdleTimeout c \<le> 0 then c\<lparr>IdleTimeout := 5 * time_Minute\<rparr> else c);
          c = (if HealthCheck c \<le> 0 then c\<lparr>HealthCheck := 30000000000\<rparr> else c);
          c = (if PingAfterIdle c = 0 then c\<lparr>PingAfterIdle := 30000000000\<rparr> else c);
          c = (if MaxConnLifetime c = 0 then c\<lparr>MaxConnLifetime := 60 * time_Minute\<rparr> else c)
      in (c, if MaxInFlightBuffers c > 0 then SetMaxLive (MaxInFlightBuffers c) bp else bp))"

record entry =
  e_c :: nat
  lastUsed :: int
  bornAt :: int

record Pool =
  po_cfg :: PoolConfig
  po_idle :: "entry list"
  po_open :: int
  po_inUse :: int
  po_closed :: bool
  po_draining :: bool
  po_waiters :: "nat list"

text \<open>\<open>New\<close>, with the outcome of each eager open: the clients, or an error.\<close>

fun open_idle :: "(nat \<times> int) option list \<Rightarrow> Pool \<Rightarrow> Pool option" where
  "open_idle [] p = Some p"
| "open_idle (None # rs) p = None"
| "open_idle (Some (c, now) # rs) p =
     open_idle rs (p\<lparr>po_idle := po_idle p @ [\<lparr>e_c = c, lastUsed = now, bornAt = now\<rparr>], po_open := po_open p + 1\<rparr>)"

definition pool_New :: "PoolConfig \<Rightarrow> (nat \<times> int) option list \<Rightarrow> bp_state \<Rightarrow> bp_state \<times> Pool option" where
  "pool_New cfg opens bp =
     (let (cfg, bp) = pool_applyDefaults cfg bp;
          p = \<lparr>po_cfg = cfg, po_idle = [], po_open = 0, po_inUse = 0, po_closed = False, po_draining = False, po_waiters = []\<rparr>
      in (bp, open_idle (take (nat (MinIdle cfg)) opens) p))"

section \<open>Sections under the mutex\<close>

datatype acquired = GotClosed | GotIdle entry | GotSlot | GotQueue

definition acquire_lock :: "nat \<Rightarrow> Pool \<Rightarrow> Pool \<times> acquired" where
  "acquire_lock ch p =
     (if po_closed p \<or> po_draining p then (p, GotClosed)
      else
        let n = length (po_idle p) in
        if n > 0 then
          (let e = po_idle p ! (n - 1)
           in (p\<lparr>po_idle := take (n - 1) (po_idle p), po_inUse := po_inUse p + 1\<rparr>, GotIdle e))
        else if po_open p < MaxConns (po_cfg p) then
          (p\<lparr>po_open := po_open p + 1, po_inUse := po_inUse p + 1\<rparr>, GotSlot)
        else (p\<lparr>po_waiters := po_waiters p @ [ch]\<rparr>, GotQueue))"

definition acquire_failed :: "Pool \<Rightarrow> Pool" where
  "acquire_failed p = p\<lparr>po_inUse := po_inUse p - 1\<rparr>"

definition acquire_received :: "Pool \<Rightarrow> Pool" where
  "acquire_received p = p\<lparr>po_inUse := po_inUse p + 1\<rparr>"

definition acquire_cancelled :: "nat \<Rightarrow> Pool \<Rightarrow> Pool" where
  "acquire_cancelled ch p = p\<lparr>po_waiters := remove1 ch (po_waiters p)\<rparr>"

text \<open>Whether \<open>Acquire\<close> hands a connection out or discards it and tries again, at most three times.\<close>

definition acquire_hands_out :: "PoolConfig \<Rightarrow> int \<Rightarrow> bool \<Rightarrow> entry \<Rightarrow> bool" where
  "acquire_hands_out cfg now pingOK e =
     (if MaxConnLifetime cfg > 0 \<and> now - bornAt e > MaxConnLifetime cfg then False
      else if PingAfterIdle cfg > 0 \<and> now - lastUsed e > PingAfterIdle cfg then pingOK
      else True)"

text \<open>What \<open>Acquire\<close> returns, given what \<open>acquireOnce\<close> gave on each try and the verdicts.\<close>

datatype acquire_result = Acquired entry | AcquireErr | ExhaustedRetries

fun Acquire :: "nat \<Rightarrow> PoolConfig \<Rightarrow> (entry option \<times> int \<times> bool) list \<Rightarrow> acquire_result" where
  "Acquire 0 cfg tries = ExhaustedRetries"
| "Acquire (Suc n) cfg [] = AcquireErr"
| "Acquire (Suc n) cfg ((e, now, pingOK) # tries) =
     (case e of
        None \<Rightarrow> AcquireErr
      | Some e \<Rightarrow> if acquire_hands_out cfg now pingOK e then Acquired e else Acquire n cfg tries)"

datatype put_result = PutClose | PutHand nat entry | PutIdle

definition put_lock :: "int \<Rightarrow> entry \<Rightarrow> Pool \<Rightarrow> Pool \<times> put_result" where
  "put_lock now e p =
     (let e = e\<lparr>lastUsed := now\<rparr>;
          p = p\<lparr>po_inUse := po_inUse p - 1\<rparr>
      in if po_closed p \<or> po_draining p then (p, PutClose)
         else
           case po_waiters p of
             w # ws \<Rightarrow> (p\<lparr>po_waiters := ws\<rparr>, PutHand w e)
           | [] \<Rightarrow> (p\<lparr>po_idle := po_idle p @ [e]\<rparr>, PutIdle))"

definition open_minus :: "nat \<Rightarrow> Pool \<Rightarrow> Pool" where
  "open_minus n p = p\<lparr>po_open := po_open p - int n\<rparr>"

definition discard_lock :: "Pool \<Rightarrow> Pool \<times> nat option" where
  "discard_lock p =
     (let p = p\<lparr>po_open := po_open p - 1\<rparr> in
      case po_waiters p of
        w # ws \<Rightarrow> (p\<lparr>po_waiters := ws\<rparr>, Some w)
      | [] \<Rightarrow> (p, None))"

text \<open>The goroutine of \<open>discard\<close> after its open failed, and after it succeeded.\<close>

definition replace_failed :: "Pool \<Rightarrow> Pool" where
  "replace_failed p = (if \<not> po_closed p then p\<lparr>po_open := po_open p - 1\<rparr> else p)"

definition replace_opened :: "Pool \<Rightarrow> Pool \<times> bool" where
  "replace_opened p = (if po_closed p then (p, False) else (p\<lparr>po_open := po_open p + 1\<rparr>, True))"

definition Drain_lock :: "Pool \<Rightarrow> Pool \<times> (entry list \<times> nat list) option" where
  "Drain_lock p =
     (if po_closed p then (p, None)
      else (p\<lparr>po_draining := True, po_idle := [], po_waiters := []\<rparr>, Some (po_idle p, po_waiters p)))"

definition Drain_done :: "Pool \<Rightarrow> bool" where
  "Drain_done p \<longleftrightarrow> \<not> po_inUse p > 0"

definition WaitIdle_done :: "Pool \<Rightarrow> bool" where
  "WaitIdle_done p \<longleftrightarrow> \<not> (po_inUse p > 0 \<and> \<not> po_closed p)"

definition Close_lock :: "Pool \<Rightarrow> Pool \<times> (entry list \<times> nat list) option" where
  "Close_lock p =
     (if po_closed p then (p, None)
      else (p\<lparr>po_closed := True, po_idle := [], po_waiters := []\<rparr>, Some (po_idle p, po_waiters p)))"

text \<open>The loop of \<open>evictIdle\<close>: kept entries and the number dropped.\<close>

fun evict_loop :: "int \<Rightarrow> int \<Rightarrow> entry list \<Rightarrow> entry list \<Rightarrow> nat \<Rightarrow> entry list \<times> nat" where
  "evict_loop cutoff minIdle [] keep dropped = (keep, dropped)"
| "evict_loop cutoff minIdle (e # es) keep dropped =
     (if lastUsed e < cutoff \<and> int (length keep) + 1 > minIdle then evict_loop cutoff minIdle es keep (dropped + 1)
      else evict_loop cutoff minIdle es (keep @ [e]) dropped)"

definition evictIdle :: "int \<Rightarrow> Pool \<Rightarrow> Pool" where
  "evictIdle now p =
     (let cutoff = now - IdleTimeout (po_cfg p);
          (keep, dropped) = evict_loop cutoff (MinIdle (po_cfg p)) (po_idle p) [] 0
      in p\<lparr>po_idle := keep, po_open := po_open p - int dropped\<rparr>)"

record pool_Stats =
  st_Open :: int
  st_Idle :: nat
  st_InUse :: int
  st_Waiting :: nat
  st_Max :: int

definition pool_stats :: "Pool \<Rightarrow> pool_Stats" where
  "pool_stats p =
     \<lparr>st_Open = po_open p, st_Idle = length (po_idle p), st_InUse = po_inUse p, st_Waiting = length (po_waiters p),
      st_Max = MaxConns (po_cfg p)\<rparr>"

section \<open>The pool and its callers\<close>

text \<open>
  \<open>pw_held\<close> are the handles out, \<open>pw_opening\<close> the calls of \<open>acquireOnce\<close> that are opening a
  connection, \<open>pw_mail\<close> what was sent to a waiter's channel and not yet received, \<open>pw_replacing\<close> the
  goroutines opening a replacement for a channel, \<open>pw_blocked\<close> the calls in the \<open>select\<close>,
  \<open>pw_discards\<close> the calls on their way into \<open>discard\<close>, \<open>pw_debts\<close> amounts still to be subtracted
  from the open count, \<open>pw_cancels\<close> the goroutines about to cancel their slot, \<open>pw_ch\<close> and \<open>pw_conn\<close> the next unused numbers.
\<close>

record pool_world =
  pw_pool :: Pool
  pw_held :: "entry list"
  pw_opening :: nat
  pw_mail :: "(nat \<times> entry option) list"
  pw_replacing :: "nat list"
  pw_blocked :: "nat list"
  pw_discards :: nat
  pw_debts :: "nat list"
  pw_cancels :: nat
  pw_ch :: nat
  pw_conn :: nat

datatype pool_event =
    EAcquire
  | EOpened int
  | EOpenFailed
  | EReceive nat
  | ECancel nat
  | ERelease entry int
  | EDiscard entry
  | EDiscardLock
  | EReplaced nat int
  | EReplaceFailed nat
  | ECancelSlot
  | EDrain
  | EClose
  | ESettle nat
  | EEvict int

inductive pool_step :: "pool_world \<Rightarrow> pool_event \<Rightarrow> pool_world \<Rightarrow> bool" where
  acq_closed: "acquire_lock (pw_ch w) (pw_pool w) = (p, GotClosed) \<Longrightarrow> pool_step w EAcquire (w\<lparr>pw_pool := p\<rparr>)"
| acq_idle: "acquire_lock (pw_ch w) (pw_pool w) = (p, GotIdle e) \<Longrightarrow>
    pool_step w EAcquire (w\<lparr>pw_pool := p, pw_held := e # pw_held w\<rparr>)"
| acq_slot: "acquire_lock (pw_ch w) (pw_pool w) = (p, GotSlot) \<Longrightarrow>
    pool_step w EAcquire (w\<lparr>pw_pool := p, pw_opening := pw_opening w + 1\<rparr>)"
| acq_queue: "acquire_lock (pw_ch w) (pw_pool w) = (p, GotQueue) \<Longrightarrow>
    pool_step w EAcquire (w\<lparr>pw_pool := p, pw_blocked := pw_ch w # pw_blocked w, pw_ch := pw_ch w + 1\<rparr>)"
| opened: "0 < pw_opening w \<Longrightarrow>
    pool_step w (EOpened now)
      (w\<lparr>pw_opening := pw_opening w - 1, pw_held := \<lparr>e_c = pw_conn w, lastUsed = now, bornAt = now\<rparr> # pw_held w,
         pw_conn := pw_conn w + 1\<rparr>)"
| open_failed: "0 < pw_opening w \<Longrightarrow>
    pool_step w EOpenFailed
      (w\<lparr>pw_pool := acquire_failed (pw_pool w), pw_opening := pw_opening w - 1, pw_discards := pw_discards w + 1\<rparr>)"
| received: "(ch, Some e) \<in> set (pw_mail w) \<Longrightarrow> ch \<in> set (pw_blocked w) \<Longrightarrow>
    pool_step w (EReceive ch)
      (w\<lparr>pw_pool := acquire_received (pw_pool w), pw_mail := remove1 (ch, Some e) (pw_mail w),
         pw_blocked := remove1 ch (pw_blocked w), pw_held := e # pw_held w\<rparr>)"
| received_nil: "(ch, None) \<in> set (pw_mail w) \<Longrightarrow> ch \<in> set (pw_blocked w) \<Longrightarrow>
    pool_step w (EReceive ch)
      (w\<lparr>pw_mail := remove1 (ch, None) (pw_mail w), pw_blocked := remove1 ch (pw_blocked w)\<rparr>)"
| cancelled: "ch \<in> set (pw_blocked w) \<Longrightarrow>
    pool_step w (ECancel ch)
      (w\<lparr>pw_pool := acquire_cancelled ch (pw_pool w), pw_blocked := remove1 ch (pw_blocked w)\<rparr>)"
| put_close: "e \<in> set (pw_held w) \<Longrightarrow> put_lock now e (pw_pool w) = (p, PutClose) \<Longrightarrow>
    pool_step w (ERelease e now) (w\<lparr>pw_pool := p, pw_held := remove1 e (pw_held w), pw_debts := 1 # pw_debts w\<rparr>)"
| put_hand: "e \<in> set (pw_held w) \<Longrightarrow> put_lock now e (pw_pool w) = (p, PutHand ch e') \<Longrightarrow>
    pool_step w (ERelease e now) (w\<lparr>pw_pool := p, pw_held := remove1 e (pw_held w), pw_mail := (ch, Some e') # pw_mail w\<rparr>)"
| put_idle: "e \<in> set (pw_held w) \<Longrightarrow> put_lock now e (pw_pool w) = (p, PutIdle) \<Longrightarrow>
    pool_step w (ERelease e now) (w\<lparr>pw_pool := p, pw_held := remove1 e (pw_held w)\<rparr>)"
| discarded: "e \<in> set (pw_held w) \<Longrightarrow>
    pool_step w (EDiscard e)
      (w\<lparr>pw_pool := acquire_failed (pw_pool w), pw_held := remove1 e (pw_held w), pw_discards := pw_discards w + 1\<rparr>)"
| discard_none: "0 < pw_discards w \<Longrightarrow> discard_lock (pw_pool w) = (p, None) \<Longrightarrow>
    pool_step w EDiscardLock (w\<lparr>pw_pool := p, pw_discards := pw_discards w - 1\<rparr>)"
| discard_waiter: "0 < pw_discards w \<Longrightarrow> discard_lock (pw_pool w) = (p, Some ch) \<Longrightarrow>
    pool_step w EDiscardLock
      (w\<lparr>pw_pool := p, pw_discards := pw_discards w - 1, pw_replacing := ch # pw_replacing w\<rparr>)"
| replaced: "ch \<in> set (pw_replacing w) \<Longrightarrow> replace_opened (pw_pool w) = (p, True) \<Longrightarrow>
    pool_step w (EReplaced ch now)
      (w\<lparr>pw_pool := p, pw_replacing := remove1 ch (pw_replacing w),
         pw_mail := (ch, Some \<lparr>e_c = pw_conn w, lastUsed = now, bornAt = 0\<rparr>) # pw_mail w, pw_conn := pw_conn w + 1\<rparr>)"
| replaced_late: "ch \<in> set (pw_replacing w) \<Longrightarrow> replace_opened (pw_pool w) = (p, False) \<Longrightarrow>
    pool_step w (EReplaced ch now)
      (w\<lparr>pw_pool := p, pw_replacing := remove1 ch (pw_replacing w), pw_mail := (ch, None) # pw_mail w,
         pw_conn := pw_conn w + 1\<rparr>)"
| replace_fail: "ch \<in> set (pw_replacing w) \<Longrightarrow>
    pool_step w (EReplaceFailed ch)
      (w\<lparr>pw_replacing := remove1 ch (pw_replacing w), pw_mail := (ch, None) # pw_mail w, pw_cancels := pw_cancels w + 1\<rparr>)"
| slot_cancelled: "0 < pw_cancels w \<Longrightarrow>
    pool_step w ECancelSlot (w\<lparr>pw_pool := replace_failed (pw_pool w), pw_cancels := pw_cancels w - 1\<rparr>)"
| drained: "Drain_lock (pw_pool w) = (p, Some (idle, waiters)) \<Longrightarrow>
    pool_step w EDrain
      (w\<lparr>pw_pool := p, pw_debts := length idle # pw_debts w, pw_mail := map (\<lambda>ch. (ch, None)) waiters @ pw_mail w\<rparr>)"
| drained_closed: "Drain_lock (pw_pool w) = (p, None) \<Longrightarrow> pool_step w EDrain (w\<lparr>pw_pool := p\<rparr>)"
| closed: "Close_lock (pw_pool w) = (p, Some (idle, waiters)) \<Longrightarrow>
    pool_step w EClose (w\<lparr>pw_pool := p, pw_mail := map (\<lambda>ch. (ch, None)) waiters @ pw_mail w\<rparr>)"
| closed_already: "Close_lock (pw_pool w) = (p, None) \<Longrightarrow> pool_step w EClose (w\<lparr>pw_pool := p\<rparr>)"
| settled: "n \<in> set (pw_debts w) \<Longrightarrow>
    pool_step w (ESettle n) (w\<lparr>pw_pool := open_minus n (pw_pool w), pw_debts := remove1 n (pw_debts w)\<rparr>)"
| evicted: "pool_step w (EEvict now) (w\<lparr>pw_pool := evictIdle now (pw_pool w)\<rparr>)"

text \<open>A pool that \<open>New\<close> returned: its eager connections are numbered from 0.\<close>

definition pool_start :: "pool_world \<Rightarrow> bool" where
  "pool_start w \<longleftrightarrow>
     (\<exists>cfg bp bp' nows. nat (MinIdle cfg) = length nows \<and>
        pool_New cfg (map Some (zip [0..<length nows] nows)) bp = (bp', Some (pw_pool w)) \<and>
        w = \<lparr>pw_pool = pw_pool w, pw_held = [], pw_opening = 0, pw_mail = [], pw_replacing = [], pw_blocked = [],
             pw_discards = 0, pw_debts = [], pw_cancels = 0, pw_ch = 0, pw_conn = length nows\<rparr>)"

section \<open>Tokens\<close>

text \<open>A multiset of numbers below \<open>n\<close> without repetition: connections and channels are such.\<close>

definition tokens :: "nat \<Rightarrow> nat multiset \<Rightarrow> bool" where
  "tokens n M \<longleftrightarrow> (\<forall>x. count M x \<le> 1) \<and> (\<forall>x. x \<in># M \<longrightarrow> x < n)"

lemma tokens_mset: "tokens n (mset xs) \<longleftrightarrow> distinct xs \<and> set xs \<subseteq> {..<n}"
proof -
  have "(\<forall>x. count (mset xs) x \<le> 1) \<longleftrightarrow> distinct xs"
  proof
    assume "\<forall>x. count (mset xs) x \<le> 1"
    then have "count (mset xs) a = 1" if "a \<in> set xs" for a
      using that by (metis count_greater_eq_one_iff le_antisym set_mset_mset)
    then show "distinct xs"
      by (simp add: distinct_count_atmost_1)
  qed (simp add: distinct_count_atmost_1)
  then show ?thesis
    by (auto simp: tokens_def)
qed

lemma tokens_sub: "tokens n M \<Longrightarrow> M' \<subseteq># M \<Longrightarrow> n \<le> n' \<Longrightarrow> tokens n' M'"
  unfolding tokens_def by (metis (no_types, lifting) le_trans mset_subset_eq_count mset_subset_eqD order_less_le_trans)

lemma tokens_fresh: "tokens n M \<Longrightarrow> M' \<subseteq># add_mset n M \<Longrightarrow> tokens (n + 1) M'"
proof -
  assume t: "tokens n M" and sub: "M' \<subseteq># add_mset n M"
  have c: "count (add_mset n M) x \<le> 1" for x
    using t by (auto simp: tokens_def not_in_iff [symmetric])
  have b: "x < n + 1" if "x \<in># add_mset n M" for x
    using t that by (auto simp: tokens_def less_Suc_eq)
  have "tokens (n + 1) (add_mset n M)"
    unfolding tokens_def using b c by blast
  then show ?thesis
    using sub by (rule tokens_sub) simp
qed

lemma mset_remove1_in: "x \<in> set xs \<Longrightarrow> mset xs = add_mset x (mset (remove1 x xs))"
  by simp

lemma mset_pop: "xs \<noteq> [] \<Longrightarrow> mset xs = add_mset (xs ! (length xs - 1)) (mset (take (length xs - 1) xs))"
  by (metis add_mset_add_single butlast_conv_take last_conv_nth mset_append mset_single_iff snoc_eq_iff_butlast
      append_butlast_last_id mset.simps)

fun mail_entries :: "(nat \<times> entry option) list \<Rightarrow> entry list" where
  "mail_entries [] = []"
| "mail_entries ((ch, None) # m) = mail_entries m"
| "mail_entries ((ch, Some e) # m) = e # mail_entries m"

definition pool_conns :: "pool_world \<Rightarrow> nat multiset" where
  "pool_conns w =
     image_mset e_c (mset (po_idle (pw_pool w)) + mset (pw_held w) + mset (mail_entries (pw_mail w)))"

definition pool_chans :: "pool_world \<Rightarrow> nat multiset" where
  "pool_chans w = mset (po_waiters (pw_pool w)) + mset (pw_replacing w) + image_mset fst (mset (pw_mail w))"

section \<open>What a step does to connections and channels\<close>

lemma mail_entries_append [simp]: "mail_entries (m @ m') = mail_entries m @ mail_entries m'"
  by (induction m rule: mail_entries.induct) auto

lemma mail_entries_nils [simp]: "mail_entries (map (\<lambda>ch. (ch, None)) chs) = []"
  by (induction chs) auto

lemma mail_entries_remove1_None [simp]: "mail_entries (remove1 (ch, None) m) = mail_entries m"
  by (induction m rule: mail_entries.induct) auto

lemma mset_mail_remove1_Some:
  "(ch, Some e) \<in> set m \<Longrightarrow> mset (mail_entries m) = add_mset e (mset (mail_entries (remove1 (ch, Some e) m)))"
  by (induction m rule: mail_entries.induct) auto

lemma subset_add_mset: "A \<subseteq># B \<Longrightarrow> A \<subseteq># add_mset x B"
  by (metis add_mset_add_single mset_subset_eq_add_left subset_mset.order_trans)

lemma evict_loop_keeps:
  "evict_loop cutoff k es keep d = (keep', d') \<Longrightarrow>
     mset keep' \<subseteq># mset keep + mset es \<and> length keep' + d' = length keep + length es + d"
proof (induction cutoff k es keep d rule: evict_loop.induct)
  case (2 cutoff k e es keep d)
  then show ?case
    by (auto split: if_splits intro: subset_add_mset)
qed simp

lemmas pool_locks = acquire_lock_def put_lock_def discard_lock_def replace_opened_def Drain_lock_def Close_lock_def
  acquire_failed_def acquire_received_def acquire_cancelled_def open_minus_def replace_failed_def

lemma evictIdle_keeps:
  "mset (po_idle (evictIdle now p)) \<subseteq># mset (po_idle p)"
  "po_open (evictIdle now p) = po_open p + int (length (po_idle (evictIdle now p))) - int (length (po_idle p))"
  "po_waiters (evictIdle now p) = po_waiters p" "po_inUse (evictIdle now p) = po_inUse p"
  "po_closed (evictIdle now p) = po_closed p" "po_draining (evictIdle now p) = po_draining p"
  "po_cfg (evictIdle now p) = po_cfg p"
  using evict_loop_keeps [of "now - IdleTimeout (po_cfg p)" "MinIdle (po_cfg p)" "po_idle p" "[]" 0]
  by (auto simp: evictIdle_def split: prod.splits)

lemma evictIdle_empty: "po_idle p = [] \<Longrightarrow> po_idle (evictIdle now p) = []"
  by (simp add: evictIdle_def)

lemma acquire_lock_idle:
  "acquire_lock ch p = (p', GotIdle e) \<Longrightarrow>
     mset (po_idle p) = add_mset e (mset (po_idle p')) \<and> po_inUse p' = po_inUse p + 1 \<and> po_waiters p' = po_waiters p \<and>
     po_open p' = po_open p \<and> po_cfg p' = po_cfg p \<and> \<not> po_closed p' \<and> \<not> po_draining p' \<and> \<not> po_closed p \<and> \<not> po_draining p"
  using mset_pop [of "po_idle p"] by (auto simp: acquire_lock_def Let_def split: if_splits)

lemma put_lock_handed:
  "put_lock now e p = (p', PutHand ch e') \<Longrightarrow>
     e_c e' = e_c e \<and> po_waiters p = ch # po_waiters p' \<and> po_idle p' = po_idle p \<and> po_inUse p' = po_inUse p - 1 \<and>
     po_open p' = po_open p \<and> po_cfg p' = po_cfg p \<and> po_closed p' = po_closed p \<and> po_draining p' = po_draining p"
  by (auto simp: put_lock_def Let_def split: if_splits list.splits)

lemma put_lock_idle:
  "put_lock now e p = (p', PutIdle) \<Longrightarrow>
     po_idle p' = po_idle p @ [e\<lparr>lastUsed := now\<rparr>] \<and> po_waiters p' = [] \<and> po_waiters p = [] \<and> po_inUse p' = po_inUse p - 1 \<and>
     po_open p' = po_open p \<and> po_cfg p' = po_cfg p \<and> \<not> po_closed p' \<and> \<not> po_draining p'"
  by (auto simp: put_lock_def Let_def split: if_splits list.splits)

lemma put_lock_close:
  "put_lock now e p = (p', PutClose) \<Longrightarrow> p' = p\<lparr>po_inUse := po_inUse p - 1\<rparr> \<and> (po_closed p \<or> po_draining p)"
  by (auto simp: put_lock_def Let_def split: if_splits list.splits)

lemma acquire_lock_other:
  "acquire_lock ch p = (p', GotClosed) \<Longrightarrow> p' = p"
  "acquire_lock ch p = (p', GotSlot) \<Longrightarrow>
     p' = p\<lparr>po_open := po_open p + 1, po_inUse := po_inUse p + 1\<rparr> \<and> po_open p < MaxConns (po_cfg p) \<and> po_idle p = [] \<and>
     \<not> po_closed p \<and> \<not> po_draining p"
  "acquire_lock ch p = (p', GotQueue) \<Longrightarrow>
     p' = p\<lparr>po_waiters := po_waiters p @ [ch]\<rparr> \<and> \<not> po_closed p \<and> \<not> po_draining p \<and> po_idle p = [] \<and>
     MaxConns (po_cfg p) \<le> po_open p"
  by (auto simp: acquire_lock_def Let_def split: if_splits)

lemma discard_lock_cases:
  "discard_lock p = (p', None) \<Longrightarrow> p' = p\<lparr>po_open := po_open p - 1\<rparr> \<and> po_waiters p = []"
  "discard_lock p = (p', Some ch) \<Longrightarrow>
     po_open p' = po_open p - 1 \<and> po_waiters p = ch # po_waiters p' \<and> po_idle p' = po_idle p \<and> po_inUse p' = po_inUse p \<and>
     po_cfg p' = po_cfg p \<and> po_closed p' = po_closed p \<and> po_draining p' = po_draining p"
  by (auto simp: discard_lock_def Let_def split: list.splits)

lemma replace_opened_cases:
  "replace_opened p = (p', True) \<Longrightarrow> p' = p\<lparr>po_open := po_open p + 1\<rparr> \<and> \<not> po_closed p"
  "replace_opened p = (p', False) \<Longrightarrow> p' = p \<and> po_closed p"
  by (auto simp: replace_opened_def split: if_splits)

lemma Drain_lock_cases:
  "Drain_lock p = (p', Some (idle, waiters)) \<Longrightarrow>
     p' = p\<lparr>po_draining := True, po_idle := [], po_waiters := []\<rparr> \<and> idle = po_idle p \<and> waiters = po_waiters p \<and> \<not> po_closed p"
  "Drain_lock p = (p', None) \<Longrightarrow> p' = p"
  by (auto simp: Drain_lock_def split: if_splits)

lemma Close_lock_cases:
  "Close_lock p = (p', Some (idle, waiters)) \<Longrightarrow>
     p' = p\<lparr>po_closed := True, po_idle := [], po_waiters := []\<rparr> \<and> idle = po_idle p \<and> waiters = po_waiters p \<and> \<not> po_closed p"
  "Close_lock p = (p', None) \<Longrightarrow> p' = p"
  by (auto simp: Close_lock_def split: if_splits)

lemmas lock_dests = acquire_lock_idle acquire_lock_other put_lock_handed put_lock_idle put_lock_close discard_lock_cases
  replace_opened_cases Drain_lock_cases Close_lock_cases

text \<open>Connections only move, go away, or are new.\<close>

lemma pool_step_conns:
  "pool_step w e w' \<Longrightarrow>
     pool_conns w' \<subseteq># pool_conns w \<and> pw_conn w \<le> pw_conn w' \<or>
     pool_conns w' \<subseteq># add_mset (pw_conn w) (pool_conns w) \<and> pw_conn w' = pw_conn w + 1"
proof (induction rule: pool_step.induct)
  case (received ch e w)
  then show ?case
    by (simp add: pool_conns_def acquire_received_def mset_mail_remove1_Some [OF received(1)])
next
  case (put_hand e w now p ch e')
  then show ?case
    by (auto dest!: put_lock_handed simp: pool_conns_def mset_remove1_in [OF put_hand(1)] simp del: mset_remove1)
next
  case (put_idle e w now p)
  then show ?case
    by (auto dest!: put_lock_idle simp: pool_conns_def mset_remove1_in [OF put_idle(1)] simp del: mset_remove1)
next
  case (put_close e w now p)
  then show ?case
    by (auto dest!: put_lock_close simp: pool_conns_def mset_remove1_in [OF put_close(1)] simp del: mset_remove1)
next
  case (discarded e w)
  then show ?case
    by (auto simp: pool_conns_def acquire_failed_def mset_remove1_in [OF discarded] simp del: mset_remove1)
next
  case (evicted w now)
  show ?case
    using image_mset_subseteq_mono [OF evictIdle_keeps(1)] by (auto simp: pool_conns_def)
qed (auto dest!: lock_dests simp: pool_conns_def pool_locks(7-))

lemma image_fst_remove1:
  "(ch, x) \<in> set m \<Longrightarrow> image_mset fst (mset m) = add_mset ch (image_mset fst (mset (remove1 (ch, x) m)))"
  using mset_remove1_in [of "(ch, x)" m] by (metis fst_conv image_mset_add_mset)

lemma pool_step_chans:
  "pool_step w e w' \<Longrightarrow>
     pool_chans w' \<subseteq># pool_chans w \<and> pw_ch w' = pw_ch w \<or>
     pool_chans w' \<subseteq># add_mset (pw_ch w) (pool_chans w) \<and> pw_ch w' = pw_ch w + 1"
proof (induction rule: pool_step.induct)
  case (received ch e w)
  then show ?case
    by (simp add: pool_chans_def acquire_received_def image_fst_remove1 [OF received(1)] del: mset_remove1)
next
  case (received_nil ch w)
  then show ?case
    by (simp add: pool_chans_def image_fst_remove1 [OF received_nil(1)] del: mset_remove1)
next
  case (cancelled ch w)
  then show ?case
    by (simp add: pool_chans_def acquire_cancelled_def)
next
  case (replaced ch w p now)
  then show ?case
    by (auto dest!: replace_opened_cases simp: pool_chans_def mset_remove1_in [OF replaced(1)] simp del: mset_remove1)
next
  case (replaced_late ch w p now)
  then show ?case
    by (auto dest!: replace_opened_cases simp: pool_chans_def mset_remove1_in [OF replaced_late(1)] simp del: mset_remove1)
next
  case (replace_fail ch w)
  then show ?case
    by (auto simp: pool_chans_def mset_remove1_in [OF replace_fail(1)] simp del: mset_remove1)
qed (auto dest!: lock_dests simp: pool_chans_def pool_locks(7-) evictIdle_keeps multiset.map_comp comp_def)

section \<open>The invariant\<close>

definition pool_inv :: "pool_world \<Rightarrow> bool" where
  "pool_inv w \<longleftrightarrow>
     tokens (pw_conn w) (pool_conns w) \<and> tokens (pw_ch w) (pool_chans w) \<and>
     tokens (pw_ch w) (mset (pw_blocked w)) \<and> set (pw_blocked w) \<subseteq> set_mset (pool_chans w) \<and>
     po_inUse (pw_pool w) = int (length (pw_held w)) + int (pw_opening w) \<and>
     (po_closed (pw_pool w) \<or> po_draining (pw_pool w) \<longrightarrow> po_idle (pw_pool w) = [] \<and> po_waiters (pw_pool w) = [])"

lemma pool_step_blocked:
  "pool_step w e w' \<Longrightarrow>
     mset (pw_blocked w') \<subseteq># mset (pw_blocked w) \<and> pw_ch w' = pw_ch w \<or>
     mset (pw_blocked w') = add_mset (pw_ch w) (mset (pw_blocked w)) \<and> pw_ch w' = pw_ch w + 1"
  by (induction rule: pool_step.induct) auto

lemma length_remove1_int: "x \<in> set xs \<Longrightarrow> int (length (remove1 x xs)) = int (length xs) - 1"
  using length_pos_if_in_set [of x xs] by (auto simp: length_remove1 of_nat_diff Suc_leI simp del: length_greater_0_conv)

lemma pool_step_inUse:
  "pool_step w e w' \<Longrightarrow> po_inUse (pw_pool w) = int (length (pw_held w)) + int (pw_opening w) \<Longrightarrow>
     po_inUse (pw_pool w') = int (length (pw_held w')) + int (pw_opening w')"
  by (induction rule: pool_step.induct)
     (auto dest!: lock_dests simp: pool_locks(7-) evictIdle_keeps length_remove1_int simp del: length_remove1)

lemma pool_step_shut:
  "pool_step w e w' \<Longrightarrow>
     po_closed (pw_pool w) \<or> po_draining (pw_pool w) \<longrightarrow> po_idle (pw_pool w) = [] \<and> po_waiters (pw_pool w) = [] \<Longrightarrow>
     po_closed (pw_pool w') \<or> po_draining (pw_pool w') \<longrightarrow> po_idle (pw_pool w') = [] \<and> po_waiters (pw_pool w') = []"
proof (induction rule: pool_step.induct)
  case (evicted w now)
  then show ?case
    by (auto simp: evictIdle_keeps evictIdle_empty)
qed (auto dest!: lock_dests simp: pool_locks(7-))

text \<open>No caller is forgotten: whoever is blocked is queued, or served, or has its message.\<close>

lemma pool_step_served:
  "pool_step w e w' \<Longrightarrow> distinct (pw_blocked w) \<Longrightarrow> set (pw_blocked w) \<subseteq> set_mset (pool_chans w) \<Longrightarrow>
     x \<in> set (pw_blocked w') \<Longrightarrow> x \<in># pool_chans w'"
proof (induction rule: pool_step.induct)
  case (received ch e w)
  then have "x \<noteq> ch" "x \<in># pool_chans w"
    by auto
  then show ?case
    by (auto simp: pool_chans_def acquire_received_def image_fst_remove1 [OF received(1)] simp del: mset_remove1)
next
  case (received_nil ch w)
  then have "x \<noteq> ch" "x \<in># pool_chans w"
    by auto
  then show ?case
    by (auto simp: pool_chans_def image_fst_remove1 [OF received_nil(1)] simp del: mset_remove1)
next
  case (cancelled ch w)
  then have "x \<noteq> ch" "x \<in># pool_chans w"
    by auto
  then show ?case
    by (auto simp: pool_chans_def acquire_cancelled_def simp del: mset_remove1)
next
  case (replaced ch w p now)
  then have "x \<in># pool_chans w"
    by auto
  then show ?case
    using replaced(2) by (auto dest!: replace_opened_cases simp: pool_chans_def mset_remove1_in [OF replaced(1)]
      simp del: mset_remove1)
next
  case (replaced_late ch w p now)
  then have "x \<in># pool_chans w"
    by auto
  then show ?case
    using replaced_late(2) by (auto dest!: replace_opened_cases simp: pool_chans_def mset_remove1_in [OF replaced_late(1)]
      simp del: mset_remove1)
next
  case (replace_fail ch w)
  then have "x \<in># pool_chans w"
    by auto
  then show ?case
    by (auto simp: pool_chans_def mset_remove1_in [OF replace_fail(1)] simp del: mset_remove1)
qed (force dest!: lock_dests simp: pool_chans_def pool_locks(7-) evictIdle_keeps)+

lemma pool_step_inv:
  assumes "pool_inv w" "pool_step w e w'"
  shows "pool_inv w'"
proof -
  note inv = assms(1) [unfolded pool_inv_def]
  have "tokens (pw_conn w') (pool_conns w')"
    using pool_step_conns [OF assms(2)] inv tokens_sub tokens_fresh by metis
  moreover have "tokens (pw_ch w') (pool_chans w')"
    using pool_step_chans [OF assms(2)] inv tokens_sub tokens_fresh by (metis order_refl)
  moreover have "tokens (pw_ch w') (mset (pw_blocked w'))"
    using pool_step_blocked [OF assms(2)] inv tokens_sub tokens_fresh by (metis order_refl subset_mset.order_refl)
  moreover have "set (pw_blocked w') \<subseteq> set_mset (pool_chans w')"
    using pool_step_served [OF assms(2)] inv by (auto simp: tokens_mset)
  moreover have "po_inUse (pw_pool w') = int (length (pw_held w')) + int (pw_opening w')"
    using pool_step_inUse [OF assms(2)] inv by blast
  moreover have "po_closed (pw_pool w') \<or> po_draining (pw_pool w') \<longrightarrow> po_idle (pw_pool w') = [] \<and> po_waiters (pw_pool w') = []"
    using pool_step_shut [OF assms(2)] inv by blast
  ultimately show ?thesis
    unfolding pool_inv_def by blast
qed

text \<open>\<open>New\<close>: the eager connections are idle and counted.\<close>

lemma open_idle_all:
  "open_idle (map Some (zip [a..<a + length nows] nows)) p =
     Some (p\<lparr>po_idle := po_idle p @ map (\<lambda>(c, now). \<lparr>e_c = c, lastUsed = now, bornAt = now\<rparr>) (zip [a..<a + length nows] nows),
             po_open := po_open p + int (length nows)\<rparr>)"
proof (induction nows arbitrary: a p)
  case (Cons now nows)
  have "[a..<a + length (now # nows)] = a # [Suc a..<Suc a + length nows]"
    by (simp add: upt_rec)
  then show ?case
    using Cons.IH [of "Suc a"] by simp
qed simp

lemma pool_start_pool:
  assumes "pool_start w"
  obtains cfg :: PoolConfig and nows :: "int list" where "int (length nows) = max 0 (MinIdle cfg)" "MaxConns (po_cfg (pw_pool w)) > 0"
    "MinIdle (po_cfg (pw_pool w)) = MinIdle cfg"
    "map e_c (po_idle (pw_pool w)) = [0..<length nows]" "po_open (pw_pool w) = int (length nows)"
    "po_inUse (pw_pool w) = 0" "\<not> po_closed (pw_pool w)" "\<not> po_draining (pw_pool w)" "po_waiters (pw_pool w) = []"
    "pw_held w = []" "pw_opening w = 0" "pw_mail w = []" "pw_replacing w = []" "pw_blocked w = []"
    "pw_discards w = 0" "pw_debts w = []" "pw_cancels w = 0" "pw_ch w = 0" "pw_conn w = length nows"
proof -
  obtain cfg bp bp' nows where n: "nat (MinIdle cfg) = length nows"
    and new: "pool_New cfg (map Some (zip [0..<length nows] nows)) bp = (bp', Some (pw_pool w))"
    and w: "w = \<lparr>pw_pool = pw_pool w, pw_held = [], pw_opening = 0, pw_mail = [], pw_replacing = [], pw_blocked = [],
             pw_discards = 0, pw_debts = [], pw_cancels = 0, pw_ch = 0, pw_conn = length nows\<rparr>"
    using assms unfolding pool_start_def by blast
  obtain cfg' where d: "fst (pool_applyDefaults cfg bp) = cfg'" "MaxConns cfg' > 0" "MinIdle cfg' = MinIdle cfg"
    by (auto simp: pool_applyDefaults_def Let_def)
  have p: "pw_pool w = \<lparr>po_cfg = cfg', po_idle = map (\<lambda>(c, now). \<lparr>e_c = c, lastUsed = now, bornAt = now\<rparr>) (zip [0..<length nows] nows),
      po_open = int (length nows), po_inUse = 0, po_closed = False, po_draining = False, po_waiters = []\<rparr>"
    using new d n open_idle_all [of 0 nows] by (auto simp: pool_New_def Let_def split: prod.splits)
  have m: "map (e_c \<circ> (\<lambda>(c, now). \<lparr>e_c = c, lastUsed = now, bornAt = now\<rparr>)) (zip [0..<length nows] nows) = [0..<length nows]"
    by (simp add: comp_def case_prod_beta' flip: map_map)
  show ?thesis
    by (rule that [of nows cfg]; (subst w)?) (use n d m in \<open>simp_all add: p\<close>)
qed

lemma pool_start_inv: "pool_start w \<Longrightarrow> pool_inv w"
proof (erule pool_start_pool)
  fix cfg nows
  assume "map e_c (po_idle (pw_pool w)) = [0..<length nows]" "po_inUse (pw_pool w) = 0" "\<not> po_closed (pw_pool w)"
    "\<not> po_draining (pw_pool w)" "po_waiters (pw_pool w) = []"
    and w: "pw_held w = []" "pw_opening w = 0" "pw_mail w = []" "pw_replacing w = []" "pw_blocked w = []"
    "pw_discards w = 0" "pw_debts w = []" "pw_cancels w = 0" "pw_ch w = 0" "pw_conn w = length nows"
  moreover have "image_mset e_c (mset (po_idle (pw_pool w))) = mset [0..<length nows]"
    using calculation(1) by (metis mset_map)
  moreover have "tokens (length nows) (mset [0..<length nows])"
    by (simp add: tokens_mset lessThan_atLeast0 del: mset_upt)
  ultimately show "pool_inv w"
    by (simp add: pool_inv_def pool_conns_def pool_chans_def tokens_def del: mset_upt)
qed

interpretation cp: inductive_invariant pool_start pool_step pool_inv
  by unfold_locales (auto intro: pool_start_inv pool_step_inv)

section \<open>The open count\<close>

text \<open>What the open count stands for.\<close>

definition pool_slots :: "pool_world \<Rightarrow> int" where
  "pool_slots w =
     int (length (po_idle (pw_pool w))) + int (length (pw_held w)) + int (pw_opening w) +
     int (length (mail_entries (pw_mail w))) + int (pw_discards w) + int (sum_list (pw_debts w))"

fun is_replaced :: "pool_event \<Rightarrow> bool" where
  "is_replaced (EReplaced ch now) = True"
| "is_replaced e = False"

definition replacements :: "pool_event list \<Rightarrow> nat" where
  "replacements es = length (filter is_replaced es)"

lemma replacements_simps [simp]:
  "replacements [] = 0" "replacements (e # es) = (if is_replaced e then 1 else 0) + replacements es"
  by (simp_all add: replacements_def)

lemma length_mset_eq: "mset xs = add_mset e (mset ys) \<Longrightarrow> length xs = Suc (length ys)"
  by (metis size_add_mset size_mset)

lemma length_mail_remove1:
  "(ch, Some e) \<in> set m \<Longrightarrow> int (length (mail_entries (remove1 (ch, Some e) m))) = int (length (mail_entries m)) - 1"
  by (drule mset_mail_remove1_Some [THEN length_mset_eq]) simp

lemma sum_list_remove1_int: "n \<in> set ns \<Longrightarrow> int (sum_list (remove1 n ns)) = int (sum_list ns) - int n" for n :: nat
  by (induction ns) auto

lemma pool_step_slots:
  "pool_step w e w' \<Longrightarrow> e \<notin> {EClose, ECancelSlot} \<Longrightarrow>
     po_open (pw_pool w') - pool_slots w' = po_open (pw_pool w) - pool_slots w"
proof (induction rule: pool_step.induct)
  case (acq_idle w p e)
  then show ?case
    by (auto dest!: acquire_lock_idle simp: pool_slots_def length_mset_eq)
next
  case (evicted w now)
  show ?case
    by (simp add: pool_slots_def evictIdle_keeps(2))
qed (auto dest!: lock_dests simp: pool_slots_def pool_locks(7-) length_remove1_int length_mail_remove1 sum_list_remove1_int
       simp del: length_remove1)

lemma pool_step_cfg: "pool_step w e w' \<Longrightarrow> po_cfg (pw_pool w') = po_cfg (pw_pool w)"
  by (induction rule: pool_step.induct) (auto dest!: lock_dests simp: pool_locks(7-) evictIdle_keeps)

lemma evictIdle_open: "po_open (evictIdle now p) \<le> po_open p"
  using evictIdle_keeps(1) [THEN size_mset_mono, of now p] by (simp add: evictIdle_keeps(2))

lemma pool_step_open:
  "pool_step w e w' \<Longrightarrow> po_open (pw_pool w) \<le> b \<Longrightarrow> MaxConns (po_cfg (pw_pool w)) \<le> b \<Longrightarrow>
     po_open (pw_pool w') \<le> b + (if is_replaced e then 1 else 0)"
proof (induction rule: pool_step.induct)
  case (evicted w now)
  then show ?case
    using evictIdle_open [of now "pw_pool w"] by simp
qed (auto dest!: lock_dests simp: pool_locks(7-))

lemma pool_run_accounts:
  "cp.run w es w' \<Longrightarrow> EClose \<notin> set es \<Longrightarrow> ECancelSlot \<notin> set es \<Longrightarrow>
     po_open (pw_pool w) = pool_slots w \<Longrightarrow> po_open (pw_pool w) \<le> b \<Longrightarrow> MaxConns (po_cfg (pw_pool w)) \<le> b \<Longrightarrow>
     po_open (pw_pool w') = pool_slots w' \<and> po_open (pw_pool w') \<le> b + int (replacements es)"
proof (induction arbitrary: b rule: cp.run.induct)
  case (run_cons w e w1 es w2)
  let ?b = "b + (if is_replaced e then 1 else 0)"
  have "po_open (pw_pool w1) = pool_slots w1"
    using pool_step_slots [OF run_cons(1)] run_cons.prems by auto
  moreover have "po_open (pw_pool w1) \<le> ?b"
    using pool_step_open [OF run_cons(1)] run_cons.prems by blast
  moreover have "MaxConns (po_cfg (pw_pool w1)) \<le> ?b"
    using pool_step_cfg [OF run_cons(1)] run_cons.prems by auto
  ultimately have "po_open (pw_pool w2) = pool_slots w2 \<and> po_open (pw_pool w2) \<le> ?b + int (replacements es)"
    using run_cons.IH [of ?b] run_cons.prems(1,2) by simp
  then show ?case
    by auto
qed simp

section \<open>Draining\<close>

definition pool_quiet :: "pool_world \<Rightarrow> bool" where
  "pool_quiet w \<longleftrightarrow>
     po_draining (pw_pool w) \<and> po_idle (pw_pool w) = [] \<and> po_waiters (pw_pool w) = [] \<and> pw_held w = [] \<and>
     pw_opening w = 0 \<and> mail_entries (pw_mail w) = [] \<and> pw_replacing w = []"

lemma mail_entry_not_empty: "(ch, Some e) \<in> set m \<Longrightarrow> mail_entries m \<noteq> []"
  by (induction m rule: mail_entries.induct) auto

lemma pool_step_quiet: "pool_step w e w' \<Longrightarrow> pool_quiet w \<Longrightarrow> pool_quiet w'"
  by (induction rule: pool_step.induct)
     (auto dest!: lock_dests mail_entry_not_empty simp: pool_quiet_def pool_locks(7-) evictIdle_keeps evictIdle_empty)

lemma pool_run_quiet: "cp.run w es w' \<Longrightarrow> pool_quiet w \<Longrightarrow> pool_quiet w'"
  by (induction rule: cp.run.induct) (auto intro: pool_step_quiet)

section \<open>A pool of one connection\<close>

definition demo_pool :: pool_world where
  "demo_pool =
     \<lparr>pw_pool =
        \<lparr>po_cfg = \<lparr>MaxConns = 1, MinIdle = 0, IdleTimeout = 100, HealthCheck = 100, PingAfterIdle = 100,
                    MaxConnLifetime = 100, MaxInFlightBuffers = 0\<rparr>,
         po_idle = [], po_open = 0, po_inUse = 0, po_closed = False, po_draining = False, po_waiters = []\<rparr>,
      pw_held = [], pw_opening = 0, pw_mail = [], pw_replacing = [], pw_blocked = [], pw_discards = 0, pw_debts = [],
      pw_cancels = 0, pw_ch = 0, pw_conn = 0\<rparr>"

lemma demo_pool_start: "pool_start demo_pool"
  unfolding pool_start_def
  by (rule exI [of _ "po_cfg (pw_pool demo_pool)"])
     (auto simp: demo_pool_def pool_New_def pool_applyDefaults_def Let_def intro!: exI [of _ "[]"])

text \<open>One caller holds the connection, a second one waits, and the first discards its handle.\<close>

definition demo_contended :: "pool_event list" where
  "demo_contended = [EAcquire, EOpened 5, EAcquire, EDiscard \<lparr>e_c = 0, lastUsed = 5, bornAt = 5\<rparr>, EDiscardLock]"

definition demo_replacing :: pool_world where
  "demo_replacing = demo_pool\<lparr>pw_replacing := [0], pw_blocked := [0], pw_ch := 1, pw_conn := 1\<rparr>"

lemma demo_contended_run: "cp.run demo_pool demo_contended demo_replacing"
  unfolding demo_contended_def
  apply (rule cp.run_cons, rule acq_slot, simp add: demo_pool_def acquire_lock_def)
  apply (rule cp.run_cons, rule opened, simp add: demo_pool_def)
  apply (rule cp.run_cons, rule acq_queue, simp add: demo_pool_def acquire_lock_def)
  apply (rule cp.run_cons, rule discarded, simp add: demo_pool_def)
  apply (rule cp.run_cons, rule discard_waiter, simp, simp add: demo_pool_def discard_lock_def acquire_failed_def)
  apply (simp add: demo_pool_def demo_replacing_def cp.run_nil)
  done

lemma cp_snoc: "cp.run w es w1 \<Longrightarrow> pool_step w1 e w2 \<Longrightarrow> cp.run w (es @ [e]) w2"
  by (rule cp.run_append, assumption, rule cp.run_cons, assumption, rule cp.run_nil)

text \<open>While the replacement is being opened its slot is free, so another caller takes it: two
  connections are open under a limit of one.\<close>

lemma pool_exceeds_limit:
  "\<exists>w. cp.run demo_pool (demo_contended @ [EAcquire, EReplaced 0 6]) w \<and>
       po_open (pw_pool w) = 2 \<and> pool_slots w = 2 \<and> MaxConns (po_cfg (pw_pool w)) = 1"
  apply (rule exI, rule conjI, rule cp.run_append, rule demo_contended_run)
   apply (rule cp.run_cons, rule acq_slot, simp add: demo_replacing_def demo_pool_def acquire_lock_def)
   apply (rule cp.run_cons, rule replaced, simp add: demo_replacing_def, simp add: replace_opened_def, rule cp.run_nil)
  apply (simp add: pool_slots_def demo_replacing_def demo_pool_def)
  done

text \<open>A replacement that cannot be opened is subtracted a second time: nothing is open, and the count
  is below zero.\<close>

lemma pool_counts_twice:
  "\<exists>w. cp.run demo_pool (demo_contended @ [EReplaceFailed 0, ECancelSlot]) w \<and>
       po_open (pw_pool w) = - 1 \<and> pool_slots w = 0"
  apply (rule exI, rule conjI, rule cp.run_append, rule demo_contended_run)
   apply (rule cp.run_cons, rule replace_fail, simp add: demo_replacing_def)
   apply (rule cp.run_cons, rule slot_cancelled, simp, rule cp.run_nil)
  apply (simp add: pool_slots_def demo_replacing_def demo_pool_def replace_failed_def)
  done

text \<open>A replacement carries no birth time, so it looks older than any lifetime and is discarded.\<close>

lemma replacement_is_discarded:
  "0 < MaxConnLifetime cfg \<Longrightarrow> MaxConnLifetime cfg < now \<Longrightarrow>
     \<not> acquire_hands_out cfg now pingOK \<lparr>e_c = c, lastUsed = now, bornAt = 0\<rparr>"
  by (simp add: acquire_hands_out_def)

section \<open>Main results\<close>

text \<open>
  C36: at every moment of every interleaving no connection is in two places: the idle list, the
  handles out and the channels of the waiters together hold each connection once, so two callers
  never share one. Each waiter's channel is queued, being served, or has its single message, so a
  send into a channel of capacity one never blocks, and no blocked caller is forgotten. The in-use
  count is the number of handles out and of opens under way, and a closed or draining pool keeps
  nothing idle and nobody queued.
\<close>

theorem pool_exclusive:
  assumes "cp.reach w"
  shows "distinct (map e_c (po_idle (pw_pool w) @ pw_held w @ mail_entries (pw_mail w))) \<and>
    distinct (po_waiters (pw_pool w) @ pw_replacing w @ map fst (pw_mail w)) \<and>
    set (pw_blocked w) \<subseteq> set (po_waiters (pw_pool w) @ pw_replacing w @ map fst (pw_mail w)) \<and>
    po_inUse (pw_pool w) = int (length (pw_held w)) + int (pw_opening w) \<and>
    (po_closed (pw_pool w) \<or> po_draining (pw_pool w) \<longrightarrow> po_idle (pw_pool w) = [] \<and> po_waiters (pw_pool w) = [])"
proof -
  have inv: "pool_inv w"
    using assms by (rule cp.reach_inv)
  have "pool_conns w = mset (map e_c (po_idle (pw_pool w) @ pw_held w @ mail_entries (pw_mail w)))"
    "pool_chans w = mset (po_waiters (pw_pool w) @ pw_replacing w @ map fst (pw_mail w))"
    by (simp_all add: pool_conns_def pool_chans_def)
  then show ?thesis
    using inv unfolding pool_inv_def by (metis set_mset_mset tokens_mset)
qed

theorem pool_exclusive_witness:
  "cp.reach demo_replacing \<and> distinct (map e_c (po_idle (pw_pool demo_replacing) @ pw_held demo_replacing @
     mail_entries (pw_mail demo_replacing)))"
proof
  show r: "cp.reach demo_replacing"
    using demo_contended_run cp.reach_start [OF demo_pool_start] by (rule cp.run_reach)
  show "distinct (map e_c (po_idle (pw_pool demo_replacing) @ pw_held demo_replacing @ mail_entries (pw_mail demo_replacing)))"
    using pool_exclusive [OF r] by blast
qed

text \<open>
  C37: as long as the pool is not closed and no replacement failed to open, the open count is
  exact: it counts the idle connections, the handles out, the opens under way, the connections on
  their way to a waiter, and those closed whose subtraction is still to come. It never exceeds the
  larger of the limit and the eager minimum, but for one connection per replacement that a discard
  opened. Both exceptions are real: \<open>pool_exceeds_limit\<close> and \<open>pool_counts_twice\<close>.
\<close>

theorem pool_accounts:
  assumes "pool_start w" "cp.run w es w'" "EClose \<notin> set es" "ECancelSlot \<notin> set es"
  shows "po_open (pw_pool w') = pool_slots w' \<and>
    pool_slots w' \<le> max (MaxConns (po_cfg (pw_pool w))) (MinIdle (po_cfg (pw_pool w))) + int (replacements es)"
proof -
  obtain cfg and nows :: "int list" where n: "int (length nows) = max 0 (MinIdle (cfg :: PoolConfig))"
    "MaxConns (po_cfg (pw_pool w)) > 0" "MinIdle (po_cfg (pw_pool w)) = MinIdle cfg"
    "map e_c (po_idle (pw_pool w)) = [0..<length nows]" "po_open (pw_pool w) = int (length nows)"
    "pw_held w = []" "pw_opening w = 0" "pw_mail w = []" "pw_discards w = 0" "pw_debts w = []"
    using pool_start_pool [OF assms(1)] by metis
  have "length (po_idle (pw_pool w)) = length nows"
    using n(4) by (metis length_map length_upt minus_nat.diff_0)
  then have "po_open (pw_pool w) = pool_slots w"
    using n by (simp add: pool_slots_def)
  moreover have "po_open (pw_pool w) \<le> max (MaxConns (po_cfg (pw_pool w))) (MinIdle (po_cfg (pw_pool w)))"
    using n by simp
  ultimately show ?thesis
    using pool_run_accounts [OF assms(2-4), of "max (MaxConns (po_cfg (pw_pool w))) (MinIdle (po_cfg (pw_pool w)))"]
    by simp
qed

theorem pool_accounts_witness:
  "po_open (pw_pool demo_replacing) = pool_slots demo_replacing \<and> pool_slots demo_replacing \<le> 1"
  using pool_accounts [OF demo_pool_start demo_contended_run]
  by (simp add: demo_contended_def demo_pool_def replacements_def)

text \<open>
  C38: a drained pool stays drained. Once \<open>Drain\<close> has seen the in-use count at zero, and no
  connection is on its way to a waiter and no replacement is being opened, then nothing any caller
  or timer does afterwards puts a connection into anybody's hands: no handle, no idle connection, no
  open under way, and every later acquire is told that the pool is closed.
\<close>

theorem drain_is_final:
  assumes "cp.reach w" "po_draining (pw_pool w)" "Drain_done (pw_pool w)"
    and "mail_entries (pw_mail w) = []" "pw_replacing w = []" "cp.run w es w'"
  shows "pw_held w' = [] \<and> pw_opening w' = 0 \<and> po_idle (pw_pool w') = [] \<and>
    snd (acquire_lock (pw_ch w') (pw_pool w')) = GotClosed"
proof -
  have "pool_quiet w"
    using cp.reach_inv [OF assms(1)] assms(2-5)
    by (auto simp: pool_quiet_def pool_inv_def Drain_done_def simp flip: of_nat_add)
  then have "pool_quiet w'"
    using pool_run_quiet [OF assms(6)] by blast
  then show ?thesis
    by (auto simp: pool_quiet_def acquire_lock_def)
qed

definition demo_drained :: pool_world where
  "demo_drained = demo_pool\<lparr>pw_pool := (pw_pool demo_pool)\<lparr>po_draining := True\<rparr>, pw_debts := [0]\<rparr>"

lemma demo_drain_step: "pool_step demo_pool EDrain demo_drained"
  using drained [of demo_pool "(pw_pool demo_pool)\<lparr>po_draining := True\<rparr>" "[]" "[]"]
  by (simp add: demo_drained_def demo_pool_def Drain_lock_def)

theorem drain_is_final_witness:
  "cp.reach demo_drained \<and> Drain_done (pw_pool demo_drained) \<and>
     snd (acquire_lock (pw_ch demo_drained) (pw_pool demo_drained)) = GotClosed"
proof -
  have r: "cp.reach demo_drained"
    using cp.reach_start [OF demo_pool_start] demo_drain_step by (rule cp.reach_step)
  have d: "Drain_done (pw_pool demo_drained)"
    by (simp add: demo_drained_def demo_pool_def Drain_done_def)
  show ?thesis
    using drain_is_final [OF r _ d _ _ cp.run_nil] r d by (simp add: demo_drained_def demo_pool_def)
qed

end
