(* ===== verification/Iter.thy ===== *)
theory Iter
  imports Query_Proofs
begin

text \<open>
  \<open>pg2json/iter.go\<close>: pull iteration over a query in flight. An iterator holds the client it pins, the
  statement (shared with the cache, so a plan that is replaced is written back) and whether the
  context watcher of \<open>ctx.go\<close> is attached to the client and a timeout is to be released. Shown: the
  iterator refines a cursor over the rows of the reply, a query read to its end gives exactly its
  rows and sends what a buffered query sends, and closing early resynchronises the connection.
\<close>

section \<open>State\<close>

record Iterator =
  it_c :: Client
  it_key :: bytes
  it_st :: preparedStmt
  it_plan :: Plan
  it_ctxStop :: bool
  it_watch :: bool
  it_bound :: bool
  it_done :: bool
  it_err :: "client_error option"
  it_pgErr :: "pg_error option"
  it_rowCount :: nat

definition on_it_client :: "(Client \<Rightarrow> Client) \<Rightarrow> Iterator \<Rightarrow> Iterator" where
  "on_it_client f it = it\<lparr>it_c := f (it_c it)\<rparr>"

definition releaseContext :: "Iterator \<Rightarrow> Iterator" where
  "releaseContext it = it\<lparr>it_watch := False, it_ctxStop := False\<rparr>"

text \<open>The assignments \<open>st.plan = newPlan\<close> and \<open>it.plan = newPlan\<close>.\<close>

definition it_set_plan :: "Plan \<Rightarrow> Iterator \<Rightarrow> Iterator" where
  "it_set_plan p it =
     (let st = (it_st it)\<lparr>st_plan := p\<rparr>
      in it\<lparr>it_st := st, it_plan := p, it_c := (it_c it)\<lparr>cl_stmts := sc_set (it_key it) st (cl_stmts (it_c it))\<rparr>\<rparr>)"

section \<open>Operations\<close>

definition drain_step :: "byte \<Rightarrow> bytes \<Rightarrow> Iterator \<Rightarrow> Iterator + Iterator \<times> client_error option" where
  "drain_step t body it =
     (if t = MsgReadyForQuery then
        (let it = releaseContext (it\<lparr>it_done := True\<rparr>) in Inr (it, map_option PgErr (it_pgErr it)))
      else if t = MsgErrorResponse then Inl (it\<lparr>it_pgErr := Some (Parse body)\<rparr>)
      else if t = MsgParameterStatus then Inl (on_it_client (set_param body) it)
      else if t = MsgNoticeResponse then Inl (on_it_client (observe (OnNotice (Parse body))) it)
      else Inl it)"

definition drainUntilReady :: "Iterator \<Rightarrow> Iterator \<times> client_error option" where
  "drainUntilReady it =
     (let (cn, it, err) = msg_loop drain_step
            (\<lambda>e it. (releaseContext (it\<lparr>it_err := Some (WireErr e), it_done := True\<rparr>), Some (WireErr e))) (cl_conn (it_c it)) it
      in (on_it_client (\<lambda>c. c\<lparr>cl_conn := cn\<rparr>) it, err))"

text \<open>The messages up to BindComplete, and how that phase ends.\<close>

datatype bind_end = Bound | BindErr client_error | BindRejected

definition start_step :: "byte \<Rightarrow> bytes \<Rightarrow> Iterator \<Rightarrow> Iterator + Iterator \<times> bind_end" where
  "start_step t body it =
     (if t = MsgBindComplete then Inr (it\<lparr>it_bound := True\<rparr>, Bound)
      else if t = MsgRowDescription then
        (case ParseRowDescriptionForFormats body (st_resultFmts (it_st it)) of
           Inl e \<Rightarrow> Inr (it, BindErr (RowErr e))
         | Inr newPlan \<Rightarrow> Inl (it_set_plan newPlan it))
      else if t = MsgParameterStatus then Inl (on_it_client (set_param body) it)
      else if t = MsgNoticeResponse then Inl (on_it_client (observe (OnNotice (Parse body))) it)
      else if t = MsgErrorResponse then Inr (it\<lparr>it_pgErr := Some (Parse body)\<rparr>, BindRejected)
      else Inr (it, BindErr (UnexpectedMsg t)))"

text \<open>The client and whether its watcher is still attached, and the iterator or the error.\<close>

definition startRawExecute :: "bool \<Rightarrow> bytes \<Rightarrow> preparedStmt \<Rightarrow> go_value list \<Rightarrow> Client \<Rightarrow>
    (Client \<times> bool) \<times> (client_error option + Iterator)" where
  "startRawExecute watch key st args c =
     (case send_bind (st_name st) (st_resultFmts st) args (cl_conn c) of
        (cn, Some err) \<Rightarrow> ((c\<lparr>cl_conn := cn\<rparr>, watch), Inl (Some err))
      | (cn, None) \<Rightarrow>
          let c = c\<lparr>cl_conn := cn\<rparr>;
              it = \<lparr>it_c = c, it_key = key, it_st = st, it_plan = st_plan st, it_ctxStop = False, it_watch = watch,
                    it_bound = False, it_done = False, it_err = None, it_pgErr = None, it_rowCount = 0\<rparr>;
              (cn, it, r) = msg_loop start_step (\<lambda>e it. (it, BindErr (WireErr e))) (cl_conn c) it;
              it = on_it_client (\<lambda>c. c\<lparr>cl_conn := cn\<rparr>) it
          in case r of
               Bound \<Rightarrow> ((it_c it, it_watch it), Inr it)
             | BindErr err \<Rightarrow> ((it_c it, it_watch it), Inl (Some err))
             | BindRejected \<Rightarrow>
                 (case drainUntilReady it of
                    (it, Some err) \<Rightarrow> ((it_c it, it_watch it), Inl (Some err))
                  | (it, None) \<Rightarrow> ((it_c it, it_watch it), Inl (map_option PgErr (it_pgErr it)))))"

text \<open>What the context of the call is like: a deadline of its own, whether it can end at all, and
  whether it has ended before the call.\<close>

record raw_env =
  re_hasDL :: bool
  re_cancellable :: bool
  re_attachErr :: bool
  re_choice :: nat

datatype raw_result = RawIter Iterator | RawErr "client_error option"

fun RawQuery_loop :: "nat \<Rightarrow> bool \<Rightarrow> bool \<Rightarrow> nat \<Rightarrow> bytes \<Rightarrow> go_value list \<Rightarrow> Client \<Rightarrow> Client \<times> raw_result" where
  "RawQuery_loop 0 ctxStop watch choice sql args c = (c, RawErr None)"
| "RawQuery_loop (Suc left) ctxStop watch choice sql args c =
     (case obtain_stmt choice sql c of
        (c, Inl err) \<Rightarrow> (c, RawErr (Some err))
      | (c, Inr (st, fromCache)) \<Rightarrow>
          (case startRawExecute watch sql st args c of
             ((c, watch), Inr it) \<Rightarrow> (c, RawIter (it\<lparr>it_ctxStop := ctxStop\<rparr>))
           | ((c, watch), Inl err) \<Rightarrow>
               if left = 1 \<and> fromCache \<and> (case err of Some err \<Rightarrow> isStaleStmtError err | None \<Rightarrow> False) then
                 RawQuery_loop left ctxStop watch choice sql args (c\<lparr>cl_stmts := sc_invalidate sql (cl_stmts c)\<rparr>)
               else (c, RawErr err)))"

definition RawQuery :: "raw_env \<Rightarrow> bytes \<Rightarrow> go_value list \<Rightarrow> Client \<Rightarrow> Client \<times> raw_result" where
  "RawQuery env sql args c =
     (if rejectNonSelect sql then (c, RawErr (Some NotSelect))
      else
        let ctxStop = (DefaultQueryTimeout (cl_cfg c) > 0 \<and> \<not> re_hasDL env)
        in if re_attachErr env then (c, RawErr (Some CtxErr))
           else RawQuery_loop 2 ctxStop (ctxStop \<or> re_cancellable env) (re_choice env) sql args c)"

datatype next_result = NextRow bytes | NextEOF | NextErr client_error

definition next_step :: "byte \<Rightarrow> bytes \<Rightarrow> Iterator \<Rightarrow> Iterator + Iterator \<times> next_result" where
  "next_step t body it =
     (if t = MsgDataRow then Inr (it\<lparr>it_rowCount := it_rowCount it + 1\<rparr>, NextRow body)
      else if t = MsgCommandComplete \<or> t = MsgEmptyQueryResponse \<or> t = MsgPortalSuspended \<or> t = MsgCloseComplete then Inl it
      else if t = MsgRowDescription then
        (case ParseRowDescriptionForFormats body (st_resultFmts (it_st it)) of
           Inl e \<Rightarrow> Inr (it\<lparr>it_err := Some (RowErr e)\<rparr>, NextErr (RowErr e))
         | Inr newPlan \<Rightarrow> Inl (it_set_plan newPlan it))
      else if t = MsgParameterStatus then Inl (on_it_client (set_param body) it)
      else if t = MsgNoticeResponse then Inl (on_it_client (observe (OnNotice (Parse body))) it)
      else if t = MsgErrorResponse then Inl (it\<lparr>it_pgErr := Some (Parse body)\<rparr>)
      else if t = MsgReadyForQuery then
        (let it = releaseContext (on_it_client (\<lambda>c. c\<lparr>cl_lastRows := it_rowCount it\<rparr>) (it\<lparr>it_done := True\<rparr>))
         in case it_pgErr it of
              Some e \<Rightarrow> Inr (it\<lparr>it_err := Some (PgErr e)\<rparr>, NextErr (PgErr e))
            | None \<Rightarrow> Inr (it, NextEOF))
      else Inr (it\<lparr>it_err := Some (UnexpectedMsg t)\<rparr>, NextErr (UnexpectedMsg t)))"

definition NextRaw :: "Iterator \<Rightarrow> Iterator \<times> next_result" where
  "NextRaw it =
     (if it_done it then (it, case it_err it of Some err \<Rightarrow> NextErr err | None \<Rightarrow> NextEOF)
      else case it_err it of
        Some err \<Rightarrow> (it, NextErr err)
      | None \<Rightarrow>
          let (cn, it, r) = msg_loop next_step (\<lambda>e it. (it\<lparr>it_err := Some (WireErr e)\<rparr>, NextErr (WireErr e))) (cl_conn (it_c it)) it
          in (on_it_client (\<lambda>c. c\<lparr>cl_conn := cn\<rparr>) it, r))"

definition it_Close :: "Iterator \<Rightarrow> Iterator \<times> client_error option" where
  "it_Close it =
     (if it_done it then (it, None)
      else
        let userCanceled = (cl_pid (it_c it) \<noteq> 0);
            it = (if userCanceled then on_it_client (\<lambda>c. fst (SendCancel c)) it else it);
            (it, err) = drainUntilReady it
        in if userCanceled \<and> (case err of Some (PgErr pe) \<Rightarrow> Code pe = bs ''57014'' | _ \<Rightarrow> False) then (it, None)
           else (it, err))"

section \<open>A cursor over rows\<close>

text \<open>
  What an iterator promises: the rows still to come and how the query ends, with the error of the
  server or without one. Asking past the end keeps giving the end.
\<close>

datatype cursor = Cursor "bytes option list list" "pg_error option"

fun cursor_next :: "cursor \<Rightarrow> cursor \<times> next_result" where
  "cursor_next (Cursor (cells # rows) end') = (Cursor rows end', NextRow (data_row cells))"
| "cursor_next (Cursor [] end') = (Cursor [] end', case end' of Some e \<Rightarrow> NextErr (PgErr e) | None \<Rightarrow> NextEOF)"

definition next_quiet :: "byte \<Rightarrow> bool" where
  "next_quiet t \<longleftrightarrow>
     t \<in> {MsgCommandComplete, MsgEmptyQueryResponse, MsgPortalSuspended, MsgCloseComplete, MsgNoticeResponse, MsgParameterStatus}"

definition items_quiet :: "reply_item list \<Rightarrow> bool" where
  "items_quiet is \<longleftrightarrow> (\<forall>t body. Admin t body \<in> set is \<longrightarrow> next_quiet t)"

text \<open>The end of a reply: ReadyForQuery, after an error or not.\<close>

inductive reply_end :: "pg_error option \<Rightarrow> (byte \<times> bytes) list \<Rightarrow> bool" where
  end_ok: "reply_end None [(MsgReadyForQuery, z)]"
| end_error: "rows_of qs = [] \<Longrightarrow> items_quiet qs \<Longrightarrow>
    reply_end (Some (Parse body)) ((MsgErrorResponse, body) # map item_msg qs @ [(MsgReadyForQuery, z)])"

text \<open>The iterator \<open>it\<close> stands for the cursor, and \<open>r\<close> is what the server sends after this reply.\<close>

inductive stands_for :: "bytes \<Rightarrow> Iterator \<Rightarrow> cursor \<Rightarrow> bool" for r where
  under_way: "\<not> it_done it \<Longrightarrow> it_err it = None \<Longrightarrow> it_pgErr it = None \<Longrightarrow>
    rx (cl_conn (it_c it)) = frames (map item_msg is @ tl') @ r \<Longrightarrow> msgs_ok (map item_msg is @ tl') \<Longrightarrow>
    items_quiet is \<Longrightarrow> reply_end end' tl' \<Longrightarrow> stands_for r it (Cursor (rows_of is) end')"
| at_end: "it_done it \<Longrightarrow> it_err it = map_option PgErr end' \<Longrightarrow> rx (cl_conn (it_c it)) = r \<Longrightarrow>
    \<not> it_watch it \<Longrightarrow> \<not> it_ctxStop it \<Longrightarrow> stands_for r it (Cursor [] end')"

lemma items_quiet_simps [simp]:
  "items_quiet []" "items_quiet (Row cells # is) = items_quiet is"
  "items_quiet (Admin t body # is) \<longleftrightarrow> next_quiet t \<and> items_quiet is"
  by (auto simp: items_quiet_def)

lemma next_step_quiet:
  assumes "next_quiet t"
  shows "\<exists>f. next_step t body it = Inl (on_it_client f it) \<and> (\<forall>c. client_kept c (f c))"
proof -
  consider "t \<in> {67, 73, 115, 51}" | "t = 78" | "t = 83"
    using assms by (auto simp: next_quiet_def)
  then show ?thesis
  proof cases
    case 1
    then have "next_step t body it = Inl (on_it_client (\<lambda>c. c) it)"
      by (elim insertE emptyE) (simp_all add: next_step_def on_it_client_def)
    then show ?thesis
      using client_kept_refl by blast
  next
    case 2
    then have "next_step t body it = Inl (on_it_client (observe (OnNotice (Parse body))) it)"
      by (simp add: next_step_def)
    then show ?thesis
      using client_kept_admin(1) by blast
  next
    case 3
    then have "next_step t body it = Inl (on_it_client (set_param body) it)"
      by (simp add: next_step_def)
    then show ?thesis
      using client_kept_admin(2) by blast
  qed
qed

lemma quiet_items_run:
  "rows_of qs = [] \<Longrightarrow> items_quiet qs \<Longrightarrow>
     \<exists>c. run_msgs next_step (map item_msg qs) it = Inl (it\<lparr>it_c := c\<rparr>) \<and> client_kept (it_c it) c"
proof (induction qs arbitrary: it rule: rows_of.induct)
  case 1
  show ?case
    by (rule exI [of _ "it_c it"]) simp
next
  case (3 t body qs)
  then obtain f where f: "next_step t body it = Inl (on_it_client f it)" "\<forall>c. client_kept c (f c)"
    using next_step_quiet [of t body it] by auto
  obtain c where "run_msgs next_step (map item_msg qs) (on_it_client f it) = Inl ((on_it_client f it)\<lparr>it_c := c\<rparr>)"
    "client_kept (it_c (on_it_client f it)) c"
    using "3.IH" [of "on_it_client f it"] "3.prems" by auto
  moreover have "client_kept (it_c it) c"
    using calculation(2) f(2) client_kept_trans by (auto simp: on_it_client_def)
  ultimately show ?case
    using f(1) by (intro exI [of _ c]) (simp add: on_it_client_def)
qed simp

text \<open>The first row of the rest, with the messages before it.\<close>

lemma first_row:
  "rows_of is = cells # rows \<Longrightarrow> \<exists>qs is'. is = qs @ Row cells # is' \<and> rows_of qs = [] \<and> rows_of is' = rows"
proof (induction "is" rule: rows_of.induct)
  case (2 c "is")
  then have "Row c # is = [] @ Row cells # is \<and> rows_of [] = [] \<and> rows_of is = rows"
    by simp
  then show ?case
    by blast
next
  case (3 t body "is")
  then obtain qs is' where "is = qs @ Row cells # is'" "rows_of qs = []" "rows_of is' = rows"
    by auto
  then have "Admin t body # is = (Admin t body # qs) @ Row cells # is' \<and> rows_of (Admin t body # qs) = [] \<and> rows_of is' = rows"
    by simp
  then show ?case
    by blast
qed simp

lemma items_quiet_append [simp]: "items_quiet (is @ is') \<longleftrightarrow> items_quiet is \<and> items_quiet is'"
  by (auto simp: items_quiet_def)

lemma rows_of_append [simp]: "rows_of (is @ is') = rows_of is @ rows_of is'"
  by (induction "is" rule: rows_of.induct) auto

lemma next_row_run:
  assumes "items_quiet is" "rows_of is = cells # rows"
  shows "\<exists>c is'. run_msgs next_step (map item_msg is @ tl') it =
           Inr ((it\<lparr>it_c := c, it_rowCount := it_rowCount it + 1\<rparr>, NextRow (data_row cells)), map item_msg is' @ tl') \<and>
           client_kept (it_c it) c \<and> rows_of is' = rows \<and> items_quiet is' \<and> set is' \<subseteq> set is"
proof -
  obtain qs is' where i: "is = qs @ Row cells # is'" "rows_of qs = []" "rows_of is' = rows"
    using first_row [OF assms(2)] by blast
  obtain c where "run_msgs next_step (map item_msg qs) it = Inl (it\<lparr>it_c := c\<rparr>)" "client_kept (it_c it) c"
    using quiet_items_run [OF i(2)] assms(1) i(1) by auto
  then show ?thesis
    using i assms(1) by (intro exI [of _ c] exI [of _ is']) (auto simp: run_msgs_append next_step_def)
qed

text \<open>The state after ReadyForQuery.\<close>

definition it_ended :: "Client \<Rightarrow> pg_error option \<Rightarrow> Iterator \<Rightarrow> Iterator" where
  "it_ended c end' it =
     it\<lparr>it_c := c\<lparr>cl_lastRows := it_rowCount it\<rparr>, it_done := True, it_watch := False, it_ctxStop := False,
        it_err := (case end' of Some e \<Rightarrow> Some (PgErr e) | None \<Rightarrow> it_err it), it_pgErr := end'\<rparr>"

lemma next_end_run:
  assumes "rows_of is = []" "items_quiet is" "reply_end end' tl'" "it_pgErr it = None"
  shows "\<exists>c. run_msgs next_step (map item_msg is @ tl') it =
           Inr ((it_ended c end' it, case end' of Some e \<Rightarrow> NextErr (PgErr e) | None \<Rightarrow> NextEOF), []) \<and> client_kept (it_c it) c"
proof -
  obtain c where c: "run_msgs next_step (map item_msg is) it = Inl (it\<lparr>it_c := c\<rparr>)" "client_kept (it_c it) c"
    using quiet_items_run [OF assms(1,2)] by blast
  from assms(3) show ?thesis
  proof cases
    case (end_ok z)
    have "next_step MsgReadyForQuery z (it\<lparr>it_c := c\<rparr>) = Inr (it_ended c None it, NextEOF)"
      using assms(4) by (simp add: next_step_def it_ended_def releaseContext_def on_it_client_def Let_def)
    then show ?thesis
      using c end_ok by (intro exI [of _ c]) (simp add: run_msgs_append del: MsgReadyForQuery_def)
  next
    case (end_error qs body z)
    let ?it = "it\<lparr>it_c := c, it_pgErr := Some (Parse body)\<rparr>"
    have e: "next_step MsgErrorResponse body (it\<lparr>it_c := c\<rparr>) = Inl ?it"
      by (simp add: next_step_def)
    obtain c' where c': "run_msgs next_step (map item_msg qs) ?it = Inl (?it\<lparr>it_c := c'\<rparr>)" "client_kept c c'"
      using quiet_items_run [OF end_error(3,4), of ?it] by auto
    have "next_step MsgReadyForQuery z (?it\<lparr>it_c := c'\<rparr>) = Inr (it_ended c' (Some (Parse body)) it, NextErr (PgErr (Parse body)))"
      by (simp add: next_step_def it_ended_def releaseContext_def on_it_client_def Let_def)
    then show ?thesis
      using c c' e end_error client_kept_trans [OF c(2) c'(2)]
      by (intro exI [of _ c']) (simp add: run_msgs_append del: MsgReadyForQuery_def MsgErrorResponse_def)
  qed
qed

text \<open>One step of the iterator is one step of the cursor, and sends nothing.\<close>

lemma msgs_ok_sub: "msgs_ok ms \<Longrightarrow> set ms' \<subseteq> set ms \<Longrightarrow> msgs_ok ms'"
  by (auto simp: msgs_ok_def)

lemma NextRaw_run:
  assumes "\<not> it_done it" "it_err it = None" "rx (cl_conn (it_c it)) = frames ms @ r" "msgs_ok ms"
    and "run_msgs next_step ms it = Inr ((it', res), rest)"
  shows "\<exists>cn. NextRaw it = (on_it_client (\<lambda>c. c\<lparr>cl_conn := cn\<rparr>) it', res) \<and> rx cn = frames rest @ r \<and>
           conn_same (cl_conn (it_c it)) cn"
  using msg_loop_frames [OF assms(3-5), of "\<lambda>e it. (it\<lparr>it_err := Some (WireErr e)\<rparr>, NextErr (WireErr e))"] assms(1,2)
  by (auto simp: NextRaw_def)

lemma NextRaw_simulates:
  assumes "stands_for r it cur" "NextRaw it = (it', res)"
  shows "res = snd (cursor_next cur) \<and> stands_for r it' (fst (cursor_next cur)) \<and>
    conn_same (cl_conn (it_c it)) (cl_conn (it_c it'))"
  using assms(1)
proof cases
  case (at_end end')
  then show ?thesis
    using assms by (auto simp: NextRaw_def conn_same_def split: option.splits)
next
  case (under_way "is" tl' end')
  show ?thesis
  proof (cases "rows_of is")
    case Nil
    obtain c where c: "run_msgs next_step (map item_msg is @ tl') it =
        Inr ((it_ended c end' it, case end' of Some e \<Rightarrow> NextErr (PgErr e) | None \<Rightarrow> NextEOF), [])" "client_kept (it_c it) c"
      using next_end_run [OF Nil under_way(7,8,4)] by blast
    obtain cn where cn: "NextRaw it = (on_it_client (\<lambda>c. c\<lparr>cl_conn := cn\<rparr>) (it_ended c end' it),
        case end' of Some e \<Rightarrow> NextErr (PgErr e) | None \<Rightarrow> NextEOF)" "rx cn = frames [] @ r" "conn_same (cl_conn (it_c it)) cn"
      using NextRaw_run [OF under_way(2,3,5,6) c(1)] by blast
    have "stands_for r it' (Cursor [] end')"
      using cn assms(2) under_way(3)
      by (intro stands_for.at_end) (auto simp: on_it_client_def it_ended_def split: option.splits)
    then show ?thesis
      using cn assms(2) under_way(1) Nil by (auto simp: on_it_client_def)
  next
    case (Cons cells rows)
    obtain c is' where c: "run_msgs next_step (map item_msg is @ tl') it =
        Inr ((it\<lparr>it_c := c, it_rowCount := it_rowCount it + 1\<rparr>, NextRow (data_row cells)), map item_msg is' @ tl')"
      "client_kept (it_c it) c" "rows_of is' = rows" "items_quiet is'" "set is' \<subseteq> set is"
      using next_row_run [OF under_way(7) Cons] by blast
    obtain cn where cn: "NextRaw it = (on_it_client (\<lambda>c. c\<lparr>cl_conn := cn\<rparr>) (it\<lparr>it_c := c, it_rowCount := it_rowCount it + 1\<rparr>),
        NextRow (data_row cells))" "rx cn = frames (map item_msg is' @ tl') @ r" "conn_same (cl_conn (it_c it)) cn"
      using NextRaw_run [OF under_way(2,3,5,6) c(1)] by blast
    have "msgs_ok (map item_msg is' @ tl')"
      by (rule msgs_ok_sub [OF under_way(6)]) (use c(5) in auto)
    then have "stands_for r it' (Cursor (rows_of is') end')"
      using cn assms(2) under_way c by (intro stands_for.under_way) (auto simp: on_it_client_def)
    then show ?thesis
      using cn assms(2) under_way(1) Cons c(3) by (auto simp: on_it_client_def)
  qed
qed

text \<open>Several steps.\<close>

fun pulls :: "nat \<Rightarrow> Iterator \<Rightarrow> Iterator \<times> next_result list" where
  "pulls 0 it = (it, [])"
| "pulls (Suc n) it = (let (it, res) = NextRaw it; (it, rs) = pulls n it in (it, res # rs))"

fun cursor_pulls :: "nat \<Rightarrow> cursor \<Rightarrow> cursor \<times> next_result list" where
  "cursor_pulls 0 cur = (cur, [])"
| "cursor_pulls (Suc n) cur = (let (cur, res) = cursor_next cur; (cur, rs) = cursor_pulls n cur in (cur, res # rs))"

lemma conn_same_refl [simp]: "conn_same cn cn"
  by (simp add: conn_same_def)

lemma pulls_simulate:
  "stands_for r it cur \<Longrightarrow> pulls n it = (it', rs) \<Longrightarrow>
     rs = snd (cursor_pulls n cur) \<and> stands_for r it' (fst (cursor_pulls n cur)) \<and>
     conn_same (cl_conn (it_c it)) (cl_conn (it_c it'))"
proof (induction n arbitrary: it cur rs)
  case (Suc n)
  obtain it1 res where 1: "NextRaw it = (it1, res)"
    by fastforce
  obtain rs1 where 2: "pulls n it1 = (it', rs1)" "rs = res # rs1"
    using Suc.prems(2) 1 by (auto split: prod.splits)
  note s = NextRaw_simulates [OF Suc.prems(1) 1]
  then show ?case
    using Suc.IH [OF _ 2(1), of "fst (cursor_next cur)"] 2(2) conn_same_trans by (auto split: prod.splits)
qed auto

lemma cursor_pulls_all:
  "cursor_pulls (length rows + Suc n) (Cursor rows end') =
     (Cursor [] end', map (\<lambda>cells. NextRow (data_row cells)) rows @
        replicate (Suc n) (case end' of Some e \<Rightarrow> NextErr (PgErr e) | None \<Rightarrow> NextEOF))"
proof (induction rows)
  case Nil
  show ?case
    by (induction n) auto
qed auto

lemma NextRaw_end: "stands_for r it (Cursor [] end') \<Longrightarrow> NextRaw it = (it', res) \<Longrightarrow> it_done it'"
proof (erule stands_for.cases)
  fix it1 "is" tl' end1
  assume "it = it1" "Cursor [] end' = Cursor (rows_of is) end1" and n: "NextRaw it = (it', res)"
    and it: "\<not> it_done it1" "it_err it1 = None" "it_pgErr it1 = None" "rx (cl_conn (it_c it1)) = frames (map item_msg is @ tl') @ r"
      "msgs_ok (map item_msg is @ tl')" "items_quiet is" "reply_end end1 tl'"
  moreover obtain c where c: "run_msgs next_step (map item_msg is @ tl') it1 =
      Inr ((it_ended c end1 it1, case end1 of Some e \<Rightarrow> NextErr (PgErr e) | None \<Rightarrow> NextEOF), [])"
    using next_end_run [OF _ it(6,7,3)] calculation(2) by auto
  ultimately show ?thesis
    using NextRaw_run [OF it(1,2,4,5) c] by (auto simp: on_it_client_def it_ended_def)
qed (auto simp: NextRaw_def)

lemma pulls_at_end: "it_done it \<Longrightarrow> pulls n it = (it', rs) \<Longrightarrow> it_done it'"
  by (induction n arbitrary: it rs) (auto simp: NextRaw_def split: prod.splits)

lemma pulls_done: "stands_for r it (Cursor rows end') \<Longrightarrow> pulls (length rows + Suc n) it = (it', rs) \<Longrightarrow> it_done it'"
proof (induction rows arbitrary: it rs)
  case Nil
  then show ?case
    by (auto split: prod.splits dest: NextRaw_end pulls_at_end)
next
  case (Cons cells rows)
  obtain it1 res where 1: "NextRaw it = (it1, res)"
    by fastforce
  then show ?case
    using Cons.IH [of it1] Cons.prems NextRaw_simulates [OF Cons.prems(1) 1] by (auto split: prod.splits)
qed

section \<open>Starting\<close>

definition start_quiet :: "byte \<Rightarrow> bool" where
  "start_quiet t \<longleftrightarrow> t \<in> {MsgParameterStatus, MsgNoticeResponse}"

lemma start_run:
  "\<forall>(t, body) \<in> set qs. start_quiet t \<Longrightarrow>
     \<exists>c. run_msgs start_step (qs @ (MsgBindComplete, b) # ms) it = Inr ((it\<lparr>it_c := c, it_bound := True\<rparr>, Bound), ms) \<and>
         client_kept (it_c it) c"
proof (induction qs arbitrary: it)
  case Nil
  show ?case
    by (rule exI [of _ "it_c it"]) (simp add: start_step_def)
next
  case (Cons q qs)
  obtain t body where q: "q = (t, body)" "start_quiet t"
    using Cons.prems by (cases q) auto
  then obtain c1 where c1: "start_step t body it = Inl (it\<lparr>it_c := c1\<rparr>)" "client_kept (it_c it) c1"
    by (auto simp: start_quiet_def start_step_def on_it_client_def)
  obtain c where "run_msgs start_step (qs @ (MsgBindComplete, b) # ms) (it\<lparr>it_c := c1\<rparr>) =
      Inr ((it\<lparr>it_c := c, it_bound := True\<rparr>, Bound), ms)" "client_kept c1 c"
    using Cons.IH [of "it\<lparr>it_c := c1\<rparr>"] Cons.prems by auto
  then show ?case
    using c1 client_kept_trans [OF c1(2)] by (intro exI [of _ c]) (simp add: q(1) del: MsgBindComplete_def)
qed

text \<open>A reply to Bind and Execute, and the cursor it is for.\<close>

definition exec_reply :: "(byte \<times> bytes) list \<Rightarrow> bytes \<Rightarrow> reply_item list \<Rightarrow> (byte \<times> bytes) list \<Rightarrow> (byte \<times> bytes) list" where
  "exec_reply qs b is tl' = qs @ (MsgBindComplete, b) # map item_msg is @ tl'"

lemma startRawExecute_stands:
  assumes "supported args" "conn_clear (cl_conn c)" "\<forall>(t, body) \<in> set qs. start_quiet t" "items_quiet is" "reply_end end' tl'"
    and "msgs_ok (exec_reply qs b is tl')" "rx (cl_conn c) = frames (exec_reply qs b is tl') @ r"
  shows "\<exists>c' it. startRawExecute watch key st args c = ((c', watch), Inr it) \<and> it_c it = c' \<and>
           stands_for r (it\<lparr>it_ctxStop := stop\<rparr>) (Cursor (rows_of is) end') \<and> it_plan it = st_plan st \<and>
           tx (cl_conn c') = tx (cl_conn c) @ frames (execute_msgs (st_name st) (st_resultFmts st) args) \<and>
           cl_stmts c' = cl_stmts c"
proof -
  let ?cn = "(cl_conn c)\<lparr>tx := tx (cl_conn c) @ frames (execute_msgs (st_name st) (st_resultFmts st) args)\<rparr>"
  let ?c = "c\<lparr>cl_conn := ?cn\<rparr>"
  let ?it = "\<lparr>it_c = ?c, it_key = key, it_st = st, it_plan = st_plan st, it_ctxStop = False, it_watch = watch,
              it_bound = False, it_done = False, it_err = None, it_pgErr = None, it_rowCount = 0\<rparr>"
  have sb: "send_bind (st_name st) (st_resultFmts st) args (cl_conn c) = (?cn, None)"
    using send_bind_frames [OF assms(1)] Flush_clear [OF assms(2)] by simp
  obtain c1 where c1: "run_msgs start_step (exec_reply qs b is tl') ?it = Inr ((?it\<lparr>it_c := c1, it_bound := True\<rparr>, Bound), map item_msg is @ tl')"
    "client_kept ?c c1"
    using start_run [OF assms(3), of b "map item_msg is @ tl'" ?it] unfolding exec_reply_def by auto
  obtain cn where cn: "msg_loop start_step (\<lambda>e it. (it, BindErr (WireErr e))) ?cn ?it = (cn, ?it\<lparr>it_c := c1, it_bound := True\<rparr>, Bound)"
    "rx cn = frames (map item_msg is @ tl') @ r" "conn_same ?cn cn"
    using msg_loop_frames [OF _ assms(6) c1(1), of ?cn r "\<lambda>e it. (it, BindErr (WireErr e))"] assms(7) by auto
  let ?it' = "?it\<lparr>it_c := c1\<lparr>cl_conn := cn\<rparr>, it_bound := True\<rparr>"
  have "startRawExecute watch key st args c = ((c1\<lparr>cl_conn := cn\<rparr>, watch), Inr ?it')"
    using sb cn(1) by (simp add: startRawExecute_def on_it_client_def)
  moreover have "msgs_ok (map item_msg is @ tl')"
    by (rule msgs_ok_sub [OF assms(6)]) (auto simp: exec_reply_def)
  then have "stands_for r (?it'\<lparr>it_ctxStop := stop\<rparr>) (Cursor (rows_of is) end')"
    using cn(2) assms(4,5) by (intro stands_for.under_way) auto
  ultimately show ?thesis
    using cn(3) c1(2) by (intro exI [of _ "c1\<lparr>cl_conn := cn\<rparr>"] exI [of _ ?it']) (auto simp: conn_same_def client_kept_def)
qed

text \<open>A whole query on a connection that has not prepared the statement.\<close>

lemma RawQuery_fresh:
  assumes "\<not> rejectNonSelect sql" "\<not> re_attachErr env" "sc_get sql (cl_stmts c) = None" "supported args" "conn_clear (cl_conn c)"
    and "descs_ok fs" "\<forall>(t, body) \<in> set (qs @ qs'). prep_quiet t" "msgs_ok (prepare_reply qs fs qs' z)"
    and "st = planned (cl_cfg c) (stmt_name (sc_seq (cl_stmts c) + 1)) fs"
    and "\<forall>(t, body) \<in> set bs'. start_quiet t" "items_quiet is" "reply_end end' tl'" "msgs_ok (exec_reply bs' b is tl')"
    and "rx (cl_conn c) = frames (prepare_reply qs fs qs' z @ exec_reply bs' b is tl') @ r"
  shows "\<exists>c' it. RawQuery env sql args c = (c', RawIter it) \<and> it_c it = c' \<and> stands_for r it (Cursor (rows_of is) end') \<and>
           it_plan it = st_plan st \<and>
           tx (cl_conn c') = tx (cl_conn c) @
             frames (prepare_msgs (sc_closed (cl_stmts c)) (st_name st) sql @ execute_msgs (st_name st) (st_resultFmts st) args)"
proof -
  have rx: "rx (cl_conn c) = frames (prepare_reply qs fs qs' z) @ (frames (exec_reply bs' b is tl') @ r)"
    using assms(14) by simp
  have name: "st_name st = stmt_name (sc_seq (cl_stmts c) + 1)" "st = planned (cl_cfg c) (st_name st) fs"
    unfolding assms(9) by (simp_all add: planned_def Let_def)
  obtain c1 where c1: "prepareAndDescribe sql c = (c1, Inr st)" "rx (cl_conn c1) = frames (exec_reply bs' b is tl') @ r"
    "conn_clear (cl_conn c1)" "tx (cl_conn c1) = tx (cl_conn c) @ frames (prepare_msgs (sc_closed (cl_stmts c)) (st_name st) sql)"
    using prepare_statement [OF assms(7,6,5,8) rx name(1)] name(2) by metis
  let ?c2 = "c1\<lparr>cl_stmts := sc_put (re_choice env) sql st (cl_stmts c1)\<rparr>"
  let ?stop = "DefaultQueryTimeout (cl_cfg c) > 0 \<and> \<not> re_hasDL env"
  have ob: "obtain_stmt (re_choice env) sql c = (?c2, Inr (st, False))"
    using assms(3) c1(1) by (simp add: obtain_stmt_def)
  obtain c3 it where c3: "startRawExecute (?stop \<or> re_cancellable env) sql st args ?c2 = ((c3, ?stop \<or> re_cancellable env), Inr it)"
    "it_c it = c3" "stands_for r (it\<lparr>it_ctxStop := ?stop\<rparr>) (Cursor (rows_of is) end')" "it_plan it = st_plan st"
    "tx (cl_conn c3) = tx (cl_conn ?c2) @ frames (execute_msgs (st_name st) (st_resultFmts st) args)"
    using startRawExecute_stands [OF assms(4) _ assms(10-13), of ?c2 r "?stop \<or> re_cancellable env" sql st ?stop] c1(2,3)
    by (auto simp del: de_Morgan_conj)
  have "RawQuery env sql args c = (c3, RawIter (it\<lparr>it_ctxStop := ?stop\<rparr>))"
    using assms(1,2) ob c3(1) by (simp add: RawQuery_def numeral_2_eq_2)
  then show ?thesis
    using c3 c1(4) by auto
qed

section \<open>Closing\<close>

fun last_error :: "pg_error option \<Rightarrow> (byte \<times> bytes) list \<Rightarrow> pg_error option" where
  "last_error e [] = e"
| "last_error e ((t, body) # ms) = last_error (if t = MsgErrorResponse then Some (Parse body) else e) ms"

lemma drain_step_cases:
  assumes "t \<noteq> MsgReadyForQuery"
  shows "drain_step t body it = Inl (it\<lparr>it_pgErr := Some (Parse body)\<rparr>) \<and> t = MsgErrorResponse \<or>
    (\<exists>f. drain_step t body it = Inl (on_it_client f it) \<and> (\<forall>c. client_kept c (f c)) \<and> t \<noteq> MsgErrorResponse)"
proof -
  consider "t = 69" | "t = 83" | "t = 78" | "t \<notin> {69, 83, 78, 90}"
    using assms by auto
  then show ?thesis
  proof cases
    case 2
    then show ?thesis
      by (intro disjI2 exI [of _ "set_param body"]) (simp add: drain_step_def)
  next
    case 3
    then show ?thesis
      by (intro disjI2 exI [of _ "observe (OnNotice (Parse body))"]) (simp add: drain_step_def)
  next
    case 4
    then show ?thesis
      by (intro disjI2 exI [of _ "\<lambda>c. c"]) (simp add: drain_step_def on_it_client_def)
  qed (simp add: drain_step_def)
qed

lemma drain_run:
  "\<forall>(t, body) \<in> set ms. t \<noteq> MsgReadyForQuery \<Longrightarrow>
     \<exists>c. run_msgs drain_step (ms @ (MsgReadyForQuery, z) # ms') it =
           Inr ((it\<lparr>it_c := c, it_done := True, it_watch := False, it_ctxStop := False, it_pgErr := last_error (it_pgErr it) ms\<rparr>,
                 map_option PgErr (last_error (it_pgErr it) ms)), ms') \<and> client_kept (it_c it) c"
proof (induction ms arbitrary: it)
  case Nil
  show ?case
    by (rule exI [of _ "it_c it"]) (simp add: drain_step_def releaseContext_def)
next
  case (Cons m ms)
  obtain t body where m: "m = (t, body)" "t \<noteq> MsgReadyForQuery"
    using Cons.prems by (cases m) auto
  note drain_step_cases [OF m(2), of body it]
  then show ?case
  proof (elim disjE conjE exE)
    fix f
    assume f: "drain_step t body it = Inl (on_it_client f it)" "\<forall>c. client_kept c (f c)" "t \<noteq> MsgErrorResponse"
    obtain c where "client_kept (f (it_c it)) c" "run_msgs drain_step (ms @ (MsgReadyForQuery, z) # ms') (on_it_client f it) =
       Inr ((it\<lparr>it_c := c, it_done := True, it_watch := False, it_ctxStop := False, it_pgErr := last_error (it_pgErr it) ms\<rparr>,
                 map_option PgErr (last_error (it_pgErr it) ms)), ms')"
      using Cons.IH [of "on_it_client f it"] Cons.prems by (auto simp: on_it_client_def)
    then show ?thesis
      using f client_kept_trans by (intro exI [of _ c]) (auto simp: m(1) simp del: MsgReadyForQuery_def MsgErrorResponse_def)
  next
    assume e: "drain_step t body it = Inl (it\<lparr>it_pgErr := Some (Parse body)\<rparr>)" "t = MsgErrorResponse"
    then show ?thesis
      using Cons.IH [of "it\<lparr>it_pgErr := Some (Parse body)\<rparr>"] Cons.prems
      by (auto simp: m(1) simp del: MsgReadyForQuery_def MsgErrorResponse_def)
  qed
qed

lemma drainUntilReady_run:
  assumes "\<forall>(t, body) \<in> set ms. t \<noteq> MsgReadyForQuery" "msgs_ok (ms @ (MsgReadyForQuery, z) # ms')"
    and "rx (cl_conn (it_c it)) = frames (ms @ (MsgReadyForQuery, z) # ms') @ r"
  shows "\<exists>c. drainUntilReady it =
      (it\<lparr>it_c := c, it_done := True, it_watch := False, it_ctxStop := False, it_pgErr := last_error (it_pgErr it) ms\<rparr>,
       map_option PgErr (last_error (it_pgErr it) ms)) \<and>
     rx (cl_conn c) = frames ms' @ r \<and> conn_same (cl_conn (it_c it)) (cl_conn c) \<and> cl_cancels c = cl_cancels (it_c it)"
proof -
  obtain c where c: "run_msgs drain_step (ms @ (MsgReadyForQuery, z) # ms') it =
      Inr ((it\<lparr>it_c := c, it_done := True, it_watch := False, it_ctxStop := False, it_pgErr := last_error (it_pgErr it) ms\<rparr>,
            map_option PgErr (last_error (it_pgErr it) ms)), ms')" "client_kept (it_c it) c"
    using drain_run [OF assms(1)] by blast
  obtain cn where cn: "rx cn = frames ms' @ r" "conn_same (cl_conn (it_c it)) cn"
    "msg_loop drain_step (\<lambda>e it. (releaseContext (it\<lparr>it_err := Some (WireErr e), it_done := True\<rparr>), Some (WireErr e)))
       (cl_conn (it_c it)) it =
     (cn, it\<lparr>it_c := c, it_done := True, it_watch := False, it_ctxStop := False, it_pgErr := last_error (it_pgErr it) ms\<rparr>,
        map_option PgErr (last_error (it_pgErr it) ms))"
    using msg_loop_frames [OF assms(3,2) c(1)] by blast
  show ?thesis
    using cn c(2) by (intro exI [of _ "c\<lparr>cl_conn := cn\<rparr>"]) (simp add: drainUntilReady_def on_it_client_def client_kept_def)
qed

text \<open>
  A statement that is stale on the server is prepared again and executed, but draining its error
  has detached the context, so the second execution runs without a watcher: cancelling the context
  no longer reaches the server.
\<close>

lemma drain_step_released: "drain_step t body it = Inr (it', err) \<Longrightarrow> \<not> it_watch it' \<and> \<not> it_ctxStop it' \<and> it_done it'"
  by (auto simp: drain_step_def releaseContext_def split: if_splits)

lemma drainUntilReady_released:
  assumes "drainUntilReady it = (it', err)"
  shows "\<not> it_watch it' \<and> \<not> it_ctxStop it' \<and> it_done it'"
proof -
  let ?fail = "\<lambda>e it. (releaseContext (it\<lparr>it_err := Some (WireErr e), it_done := True\<rparr>), Some (WireErr e))"
  let ?Q = "\<lambda>x. \<not> it_watch (fst x) \<and> \<not> it_ctxStop (fst x) \<and> it_done (fst x)"
  obtain cn it1 err1 where l: "msg_loop drain_step ?fail (cl_conn (it_c it)) it = (cn, it1, err1)"
    by (rule prod_cases3)
  have "?Q (it1, err1)"
  proof (rule msg_loop_inv [where I = "\<lambda>_. True" and Q = ?Q, OF _ _ _ _ l])
    show "?Q x" if "drain_step t body s = Inr x" for t body s x
      using that drain_step_released [of t body s "fst x" "snd x"] by simp
    show "?Q (?fail e s)" for e s
      by (simp add: releaseContext_def)
  qed (rule TrueI)+
  moreover have "it' = on_it_client (\<lambda>c. c\<lparr>cl_conn := cn\<rparr>) it1"
    using assms l by (simp add: drainUntilReady_def)
  ultimately show ?thesis
    by (simp add: on_it_client_def)
qed

lemma start_step_end: "start_step t body it = Inr x \<Longrightarrow> snd x \<noteq> BindErr (PgErr e)"
  by (auto simp: start_step_def split: if_splits sum.splits)

lemma retry_unwatched:
  assumes "startRawExecute watch key st args c = ((c', watch'), Inl (Some (PgErr e)))"
  shows "\<not> watch'"
proof -
  obtain cn err where sb: "send_bind (st_name st) (st_resultFmts st) args (cl_conn c) = (cn, err)"
    by fastforce
  have err: "err = None"
    using assms send_bind_error [of "st_name st" "st_resultFmts st" args "cl_conn c" cn] sb
    by (cases err) (auto simp: startRawExecute_def)
  let ?fail = "\<lambda>e it. (it, BindErr (WireErr e))"
  let ?it = "\<lparr>it_c = c\<lparr>cl_conn := cn\<rparr>, it_key = key, it_st = st, it_plan = st_plan st, it_ctxStop = False, it_watch = watch,
              it_bound = False, it_done = False, it_err = None, it_pgErr = None, it_rowCount = 0\<rparr>"
  obtain cn' it r where l: "msg_loop start_step ?fail cn ?it = (cn', it, r)"
    by (rule prod_cases3)
  have "snd (it, r) \<noteq> BindErr (PgErr e)"
    by (rule msg_loop_inv [where I = "\<lambda>_. True" and Q = "\<lambda>x. snd x \<noteq> BindErr (PgErr e)", OF _ _ _ _ l])
       (simp_all add: start_step_end)
  then have r: "r = BindRejected"
    using assms sb err l by (cases r) (auto simp: startRawExecute_def on_it_client_def)
  obtain it1 err1 where d: "drainUntilReady (on_it_client (\<lambda>c. c\<lparr>cl_conn := cn'\<rparr>) it) = (it1, err1)"
    by fastforce
  show ?thesis
    using assms sb err l r d drainUntilReady_released [OF d]
    by (cases err1) (auto simp: startRawExecute_def)
qed

section \<open>Any reply\<close>

text \<open>A row costs at least the five bytes of a frame; a call that gives no row fixes what every later one gives.\<close>

definition given_up :: "next_result \<Rightarrow> Iterator \<Rightarrow> bool" where
  "given_up res it \<longleftrightarrow>
     (case res of NextRow _ \<Rightarrow> False | NextEOF \<Rightarrow> it_done it \<and> it_err it = None | NextErr e \<Rightarrow> it_err it = Some e)"

lemma given_up_error [simp]: "given_up (NextErr e) it \<longleftrightarrow> it_err it = Some e"
  by (simp add: given_up_def)

lemma ReadMessage_five: "ReadMessage cn = (cn', Inr m) \<Longrightarrow> length (rx cn') + 5 \<le> length (rx cn)"
  using ReadMessage_ok(1) [of cn cn' "fst m" "snd m"] by (auto simp: length_frame)

lemma msg_loop_shorter:
  "(\<And>e s. \<not> P (fail e s)) \<Longrightarrow> msg_loop step fail cn s = (cn', x) \<Longrightarrow> P x \<Longrightarrow> length (rx cn') + 5 \<le> length (rx cn)"
proof (induction cn arbitrary: s rule: measure_induct_rule [where f = "\<lambda>cn. length (rx cn)"])
  case (less cn)
  obtain cn1 r where m: "ReadMessage cn = (cn1, r)"
    by fastforce
  show ?case
  proof (cases r)
    case (Inl e)
    then show ?thesis
      using less.prems m by (auto simp: msg_loop.simps [of step fail cn])
  next
    case (Inr tb)
    obtain t body where tb: "tb = (t, body)"
      by fastforce
    note five = ReadMessage_five [OF m [unfolded Inr]]
    show ?thesis
    proof (cases "step t body s")
      case Inl': (Inl s1)
      then have "msg_loop step fail cn1 s1 = (cn', x)"
        using less.prems(2) m Inr tb by (simp add: msg_loop.simps [of step fail cn])
      then show ?thesis
        using less.IH [of cn1 s1] less.prems(1,3) five by simp
    next
      case Inr': (Inr y)
      then show ?thesis
        using less.prems(2) m Inr tb five by (simp add: msg_loop.simps [of step fail cn])
    qed
  qed
qed

lemma next_step_err:
  "next_step t body it = Inl it' \<Longrightarrow> it_err it' = it_err it"
  "next_step t body it = Inr (it', res) \<Longrightarrow> it_err it = None \<Longrightarrow> (\<forall>b. res \<noteq> NextRow b) \<Longrightarrow> given_up res it'"
  by (auto simp: next_step_def on_it_client_def it_set_plan_def releaseContext_def given_up_def Let_def
      split: if_splits sum.splits option.splits)

lemma NextRaw_any:
  assumes "NextRaw it = (it', res)"
  shows "\<forall>b. res \<noteq> NextRow b \<Longrightarrow> given_up res it'"
    and "res = NextRow b \<Longrightarrow> length (rx (cl_conn (it_c it'))) + 5 \<le> length (rx (cl_conn (it_c it)))"
proof -
  let ?fail = "\<lambda>e it. (it\<lparr>it_err := Some (WireErr e)\<rparr>, NextErr (WireErr e))"
  obtain cn x where l: "msg_loop next_step ?fail (cl_conn (it_c it)) it = (cn, x)"
    by (rule prod.exhaust)
  have "(\<forall>b. snd x \<noteq> NextRow b) \<longrightarrow> given_up (snd x) (fst x)" if "it_err it = None"
    by (rule msg_loop_inv [where I = "\<lambda>it. it_err it = None" and Q = "\<lambda>x. (\<forall>b. snd x \<noteq> NextRow b) \<longrightarrow> given_up (snd x) (fst x)",
          OF _ _ _ that l]) (auto dest: next_step_err)
  moreover have "length (rx cn) + 5 \<le> length (rx (cl_conn (it_c it)))" if "snd x = NextRow b"
    by (rule msg_loop_shorter [where P = "\<lambda>x. snd x = NextRow b", OF _ l]) (use that in auto)
  ultimately show "\<forall>b. res \<noteq> NextRow b \<Longrightarrow> given_up res it'"
    "res = NextRow b \<Longrightarrow> length (rx (cl_conn (it_c it'))) + 5 \<le> length (rx (cl_conn (it_c it)))"
    using assms l by (auto simp: NextRaw_def given_up_def on_it_client_def split: if_splits option.splits next_result.splits prod.splits)
qed

lemma NextRaw_given_up: "given_up res it \<Longrightarrow> NextRaw it = (it, res)"
  by (auto simp: NextRaw_def given_up_def split: next_result.splits)

lemma pulls_given_up: "given_up res it \<Longrightarrow> pulls n it = (it, replicate n res)"
  by (induction n) (auto simp: NextRaw_given_up)

lemma pulls_any:
  "\<exists>bodies res. length bodies \<le> length (rx (cl_conn (it_c it))) div 5 \<and> (\<forall>b. res \<noteq> NextRow b) \<and>
     (\<forall>n. snd (pulls (length bodies + n) it) = map NextRow bodies @ replicate n res)"
proof (induction it rule: measure_induct_rule [where f = "\<lambda>it. length (rx (cl_conn (it_c it)))"])
  case (less it)
  obtain it1 res where 1: "NextRaw it = (it1, res)"
    by fastforce
  show ?case
  proof (cases "\<exists>b. res = NextRow b")
    case True
    then obtain b where b: "res = NextRow b"
      by blast
    have s: "length (rx (cl_conn (it_c it1))) + 5 \<le> length (rx (cl_conn (it_c it)))"
      using NextRaw_any(2) [OF 1 b] .
    then obtain bodies end' where e: "length bodies \<le> length (rx (cl_conn (it_c it1))) div 5" "\<forall>b. end' \<noteq> NextRow b"
        "\<forall>n. snd (pulls (length bodies + n) it1) = map NextRow bodies @ replicate n end'"
      using less [of it1] by auto
    have "snd (pulls (length (b # bodies) + n) it) = map NextRow (b # bodies) @ replicate n end'" for n
      using e(3) 1 b by (simp add: split_def)
    moreover have "length (b # bodies) \<le> length (rx (cl_conn (it_c it))) div 5"
      using e(1) s by simp
    ultimately show ?thesis
      using e(2) by blast
  next
    case False
    then have "given_up res it1"
      using NextRaw_any(1) [OF 1] by blast
    then have "snd (pulls n it) = replicate n res" for n
      using 1 by (cases n) (simp_all add: pulls_given_up)
    then show ?thesis
      using False by (intro exI [of _ "[]"] exI [of _ res]) auto
  qed
qed

section \<open>Properties\<close>

text \<open>
  C2. The iterator refines the cursor: when it stands for the rows still to come and the way the
  query ends, any number of calls of \<open>NextRaw\<close> gives exactly what the cursor gives, row by row and
  then the end again and again, whatever administrative messages the server mixes in; it still
  stands for the cursor that is left, and nothing is sent to the server.
\<close>

theorem iterator_refines_cursor:
  assumes "stands_for r it cur" "pulls n it = (it', rs)"
  shows "rs = snd (cursor_pulls n cur) \<and> stands_for r it' (fst (cursor_pulls n cur)) \<and>
    conn_same (cl_conn (it_c it)) (cl_conn (it_c it'))"
  by (rule pulls_simulate [OF assms])

definition raw_items :: "reply_item list" where
  "raw_items = [Row [Some [0, 0, 0, 7]], Admin 78 [0], Row [None], Admin 67 (bs ''SELECT 2'' @ [0])]"

definition raw_client :: Client where
  "raw_client =
     new_client zero_Config
       (frames (prepare_reply [(49, []), (116, [0, 0])] [id_desc] [] [73] @ exec_reply [] [] raw_items [(MsgReadyForQuery, [73])]) @ [])"

definition demo_raw_env :: raw_env where
  "demo_raw_env = \<lparr>re_hasDL = False, re_cancellable = True, re_attachErr = False, re_choice = 0\<rparr>"

lemma raw_parts:
  "cl_cfg raw_client = zero_Config" "cl_stmts raw_client = newStmtCache 0" "cl_pid raw_client = 0"
  "rx (cl_conn raw_client) = frames (prepare_reply [(49, []), (116, [0, 0])] [id_desc] [] [73] @
     exec_reply [] [] raw_items [(MsgReadyForQuery, [73])]) @ []"
  "conn_clear (cl_conn raw_client)" "tx (cl_conn raw_client) = []"
  by (simp_all add: raw_client_def new_client_def zero_Config_def new_conn_def conn_clear_def)

lemma raw_reply_ok:
  "items_quiet raw_items" "reply_end None [(MsgReadyForQuery, [73])]" "msgs_ok (exec_reply [] [] raw_items [(MsgReadyForQuery, [73])])"
  "supported []" "sc_get (bs ''select id'') (cl_stmts raw_client) = None" "\<not> re_attachErr demo_raw_env"
  "demo_st = planned (cl_cfg raw_client) (stmt_name (sc_seq (cl_stmts raw_client) + 1)) [id_desc]"
  "rows_of raw_items = [[Some [0, 0, 0, 7]], [None]]"
  by (simp_all add: raw_items_def next_quiet_def reply_end.simps exec_reply_def msgs_ok_def maxMsg_def data_row_def elem_wire_def
      supported_def raw_parts newStmtCache_def sc_get_def demo_raw_env_def demo_st_def)

lemma raw_quiet: "\<forall>(t, body) \<in> set ([(49, []), (116, [0, 0])] @ []). prep_quiet t" "\<forall>(t, body) \<in> set []. start_quiet t"
  by (simp_all add: prep_quiet_def)

lemmas raw_demo = raw_reply_ok raw_quiet raw_parts demo_select demo_described(1,2)

lemma raw_started:
  "\<exists>c it. RawQuery demo_raw_env (bs ''select id'') [] raw_client = (c, RawIter it) \<and> it_c it = c \<and>
     stands_for [] it (Cursor [[Some [0, 0, 0, 7]], [None]] None)"
  using RawQuery_fresh [OF demo_select raw_demo(6,5,4) raw_parts(5) demo_described(1) raw_quiet(1) demo_described(2) raw_demo(7)
      raw_quiet(2) raw_demo(1-3) raw_parts(4)]
  by (auto simp: raw_demo(8))

theorem iterator_refines_cursor_witness:
  "\<exists>c it. RawQuery demo_raw_env (bs ''select id'') [] raw_client = (c, RawIter it) \<and>
     snd (pulls 4 it) = [NextRow (data_row [Some [0, 0, 0, 7]]), NextRow (data_row [None]), NextEOF, NextEOF]"
proof -
  obtain c it where it: "RawQuery demo_raw_env (bs ''select id'') [] raw_client = (c, RawIter it)"
    "stands_for [] it (Cursor [[Some [0, 0, 0, 7]], [None]] None)"
    using raw_started by blast
  have "snd (pulls 4 it) = snd (cursor_pulls 4 (Cursor [[Some [0, 0, 0, 7]], [None]] None))"
    using iterator_refines_cursor [OF it(2), of 4] by (cases "pulls 4 it") auto
  then show ?thesis
    using it(1) by (simp add: numeral_eq_Suc)
qed

text \<open>
  A query read through an iterator, end to end, on a connection that has not prepared it yet:
  the same two pipelined requests go out as for a buffered query, the plan is the one a buffered
  query decodes with, the calls of \<open>NextRaw\<close> give every row in order and then the end or the
  server's error, the reply is consumed to its end and no further, and the context watcher and the
  timeout are released.
\<close>

lemma iterate_query:
  assumes "\<not> rejectNonSelect sql" "\<not> re_attachErr env" "sc_get sql (cl_stmts c) = None" "supported args" "conn_clear (cl_conn c)"
    and "descs_ok fs" "\<forall>(t, body) \<in> set (qs @ qs'). prep_quiet t" "msgs_ok (prepare_reply qs fs qs' z)"
    and "st = planned (cl_cfg c) (stmt_name (sc_seq (cl_stmts c) + 1)) fs"
    and "\<forall>(t, body) \<in> set bs'. start_quiet t" "items_quiet is" "reply_end end' tl'" "msgs_ok (exec_reply bs' b is tl')"
    and "rx (cl_conn c) = frames (prepare_reply qs fs qs' z @ exec_reply bs' b is tl') @ r"
  shows "\<exists>c' it it'. RawQuery env sql args c = (c', RawIter it) \<and> it_plan it = st_plan st \<and>
           pulls (length (rows_of is) + Suc n) it =
             (it', map (\<lambda>cells. NextRow (data_row cells)) (rows_of is) @
                   replicate (Suc n) (case end' of Some e \<Rightarrow> NextErr (PgErr e) | None \<Rightarrow> NextEOF)) \<and>
           rx (cl_conn (it_c it')) = r \<and> \<not> it_watch it' \<and> \<not> it_ctxStop it' \<and>
           tx (cl_conn (it_c it')) = tx (cl_conn c) @
             frames (prepare_msgs (sc_closed (cl_stmts c)) (st_name st) sql @ execute_msgs (st_name st) (st_resultFmts st) args)"
proof -
  obtain c' it where it: "RawQuery env sql args c = (c', RawIter it)" "it_c it = c'" "stands_for r it (Cursor (rows_of is) end')"
    "it_plan it = st_plan st" "tx (cl_conn c') = tx (cl_conn c) @
       frames (prepare_msgs (sc_closed (cl_stmts c)) (st_name st) sql @ execute_msgs (st_name st) (st_resultFmts st) args)"
    using RawQuery_fresh [OF assms] by blast
  obtain it' rs where p: "pulls (length (rows_of is) + Suc n) it = (it', rs)"
    by fastforce
  note s = pulls_simulate [OF it(3) p, unfolded cursor_pulls_all]
  then have "rx (cl_conn (it_c it')) = r \<and> \<not> it_watch it' \<and> \<not> it_ctxStop it' \<or> \<not> it_done it'"
    by (auto elim: stands_for.cases)
  moreover have "it_done it'"
    using it(3) p by (rule pulls_done)
  ultimately show ?thesis
    using it p s by (auto simp: conn_same_def)
qed

text \<open>
  C39. Iteration ends, whatever the server sends: from any iterator, the calls of \<open>NextRaw\<close> give at
  most one row for every five bytes still to come, and then one and the same end - end of data or an
  error - for ever. A loop that stops at the first call that is not a row therefore stops.
\<close>

theorem iteration_terminates:
  "\<exists>bodies res. length bodies \<le> length (rx (cl_conn (it_c it))) div 5 \<and> (\<forall>b. res \<noteq> NextRow b) \<and>
     (\<forall>n. snd (pulls (length bodies + n) it) = map NextRow bodies @ replicate n res)"
  by (rule pulls_any)

text \<open>
  C23. Closing an iterator at any point resynchronises the connection: whatever the server still
  sends for the query, \<open>Close\<close> sends one CancelRequest when the connection has a cancellation key,
  reads through the next ReadyForQuery and not a byte further, releases the context and leaves the
  iterator at its end; it reports the last error of the server, except the one its own cancellation
  caused; closing again does nothing.
\<close>

theorem close_resynchronises:
  assumes "\<not> it_done it" "\<forall>(t, body) \<in> set ms. t \<noteq> MsgReadyForQuery" "msgs_ok (ms @ (MsgReadyForQuery, z) # ms')"
    and "rx (cl_conn (it_c it)) = frames (ms @ (MsgReadyForQuery, z) # ms') @ r"
    and "e = last_error (it_pgErr it) ms" "cl_side (it_c it)"
  shows "\<exists>it'. it_Close it =
           (it', if cl_pid (it_c it) \<noteq> 0 \<and> map_option Code e = Some (bs ''57014'') then None else map_option PgErr e) \<and>
         it_done it' \<and> \<not> it_watch it' \<and> \<not> it_ctxStop it' \<and> rx (cl_conn (it_c it')) = frames ms' @ r \<and>
         conn_same (cl_conn (it_c it)) (cl_conn (it_c it')) \<and>
         cl_cancels (it_c it') = cl_cancels (it_c it) @
           (if cl_pid (it_c it) = 0 then []
            else [putU32 16 @ putU32 80877102 @ putU32 (word_of_int (cl_pid (it_c it))) @ putU32 (word_of_int (cl_skey (it_c it)))]) \<and>
         it_Close it' = (it', None)"
proof -
  let ?it = "if cl_pid (it_c it) \<noteq> 0 then on_it_client (\<lambda>c. fst (SendCancel c)) it else it"
  have k: "it_pgErr ?it = it_pgErr it" "cl_conn (it_c ?it) = cl_conn (it_c it)"
    "cl_cancels (it_c ?it) = cl_cancels (it_c it) @
       (if cl_pid (it_c it) = 0 then []
        else [putU32 16 @ putU32 80877102 @ putU32 (word_of_int (cl_pid (it_c it))) @ putU32 (word_of_int (cl_skey (it_c it)))])"
    using assms(6) by (simp_all add: on_it_client_def SendCancel_def cancelRequestCode_def)
  obtain c where c: "drainUntilReady ?it =
      (?it\<lparr>it_c := c, it_done := True, it_watch := False, it_ctxStop := False, it_pgErr := last_error (it_pgErr ?it) ms\<rparr>,
       map_option PgErr (last_error (it_pgErr ?it) ms))"
    "rx (cl_conn c) = frames ms' @ r" "conn_same (cl_conn (it_c ?it)) (cl_conn c)" "cl_cancels c = cl_cancels (it_c ?it)"
    using drainUntilReady_run [OF assms(2,3), of ?it r] assms(4) k(2) by metis
  let ?it' = "?it\<lparr>it_c := c, it_done := True, it_watch := False, it_ctxStop := False, it_pgErr := e\<rparr>"
  have d: "drainUntilReady ?it = (?it', map_option PgErr e)"
    using c(1) assms(5) k(1) by simp
  have "it_Close it = (?it', if cl_pid (it_c it) \<noteq> 0 \<and> map_option Code e = Some (bs ''57014'') then None else map_option PgErr e)"
    using d assms(1) by (cases e; cases "cl_pid (it_c it) = 0") (simp_all add: it_Close_def)
  moreover have "it_Close ?it' = (?it', None)"
    by (simp add: it_Close_def)
  ultimately show ?thesis
    using c k by (intro exI [of _ ?it']) simp
qed

definition raw_open :: Iterator where
  "raw_open =
     \<lparr>it_c = (new_client zero_Config (frames (map item_msg raw_items @ (MsgReadyForQuery, [73]) # []) @ [9]))\<lparr>cl_pid := 5\<rparr>,
      it_key = [], it_st = demo_st, it_plan = st_plan demo_st, it_ctxStop = True, it_watch = True, it_bound = True, it_done = False,
      it_err = None, it_pgErr = None, it_rowCount = 0\<rparr>"

theorem close_resynchronises_witness:
  "\<exists>it'. it_Close raw_open = (it', None) \<and> rx (cl_conn (it_c it')) = frames [] @ [9] \<and> \<not> it_watch it' \<and> it_Close it' = (it', None)"
proof -
  have ok: "\<not> it_done raw_open" "\<forall>(t, body) \<in> set (map item_msg raw_items). t \<noteq> MsgReadyForQuery"
    "msgs_ok (map item_msg raw_items @ (MsgReadyForQuery, [73]) # [])"
    "rx (cl_conn (it_c raw_open)) = frames (map item_msg raw_items @ (MsgReadyForQuery, [73]) # []) @ [9]"
    "None = last_error (it_pgErr raw_open) (map item_msg raw_items)" "cl_side (it_c raw_open)"
    by (simp_all add: raw_open_def raw_items_def msgs_ok_def maxMsg_def data_row_def elem_wire_def new_client_def new_conn_def)
  show ?thesis
    using close_resynchronises [OF ok] by auto
qed

end
