(* ===== verification/Scan_Types.thy ===== *)
theory Scan_Types
  imports Rows Float_Format Types_Time
begin

text \<open>
  The data of \<open>pg2json/scan.go\<close>: Go types as \<open>reflect\<close> shows them, the values a struct field can
  hold, and the canonical values of \<open>database/sql\<close>. A named type is a name and its underlying type,
  and two types are the same when the terms are, so the wrappers \<open>sql.NullString\<close> and the like and
  \<open>RangeBytes\<close> are named structs; \<open>time.Time\<close> is opaque. The platform is 64-bit: \<open>int\<close> and \<open>uint\<close>
  have 64 bits. Integers are kept in the range of their kind, floats are their bit patterns. Also
  here: the conversion of \<open>float32\<close> to \<open>float64\<close>, and of PostgreSQL instants to \<open>time.Time\<close>.
\<close>

section \<open>Types\<close>

datatype int_kind = KInt | KInt8 | KInt16 | KInt32 | KInt64 | KUint | KUint8 | KUint16 | KUint32 | KUint64

primrec kind_bits :: "int_kind \<Rightarrow> nat" where
  "kind_bits KInt = 64"
| "kind_bits KInt8 = 8"
| "kind_bits KInt16 = 16"
| "kind_bits KInt32 = 32"
| "kind_bits KInt64 = 64"
| "kind_bits KUint = 64"
| "kind_bits KUint8 = 8"
| "kind_bits KUint16 = 16"
| "kind_bits KUint32 = 32"
| "kind_bits KUint64 = 64"

definition kind_signed :: "int_kind \<Rightarrow> bool" where
  "kind_signed k \<longleftrightarrow> k \<in> {KInt, KInt8, KInt16, KInt32, KInt64}"

definition in_kind :: "int_kind \<Rightarrow> int \<Rightarrow> bool" where
  "in_kind k v \<longleftrightarrow>
     (if kind_signed k then - (2 ^ (kind_bits k - 1)) \<le> v \<and> v < 2 ^ (kind_bits k - 1) else 0 \<le> v \<and> v < 2 ^ kind_bits k)"

text \<open>Go's conversion of an integer to a kind.\<close>

definition to_kind :: "int_kind \<Rightarrow> int \<Rightarrow> int" where
  "to_kind k v = (if kind_signed k then signed_take_bit (kind_bits k - 1) v else take_bit (kind_bits k) v)"

record field_info =
  f_name :: bytes
  f_tag :: "bytes option"
  f_anon :: bool
  f_exported :: bool

datatype go_type =
    TBool
  | TInt int_kind
  | TFloat32
  | TFloat64
  | TString
  | TTime
  | TPtr go_type
  | TSlice go_type
  | TArr nat go_type
  | TStruct "go_field list"
  | TNamed bytes go_type
  | TOther
and go_field = Field (f_info: field_info) (f_type: go_type)

text \<open>The underlying type: what \<open>Kind\<close> and \<open>Elem\<close> look at.\<close>

primrec underlying :: "go_type \<Rightarrow> go_type" where
  "underlying TBool = TBool"
| "underlying (TInt k) = TInt k"
| "underlying TFloat32 = TFloat32"
| "underlying TFloat64 = TFloat64"
| "underlying TString = TString"
| "underlying TTime = TTime"
| "underlying (TPtr t) = TPtr t"
| "underlying (TSlice t) = TSlice t"
| "underlying (TArr n t) = TArr n t"
| "underlying (TStruct fs) = TStruct fs"
| "underlying (TNamed n t) = underlying t"
| "underlying TOther = TOther"

lemma size_underlying: "size (underlying t) \<le> size t"
  by (induction t) auto

lemma underlying_idem [simp]: "underlying (underlying t) = underlying t"
  by (induction t) auto

definition is_struct :: "go_type \<Rightarrow> bool" where
  "is_struct t = (case underlying t of TStruct fs \<Rightarrow> True | TTime \<Rightarrow> True | _ \<Rightarrow> False)"

definition fields_of :: "go_type \<Rightarrow> go_field list" where
  "fields_of t = (case underlying t of TStruct fs \<Rightarrow> fs | _ \<Rightarrow> [])"

text \<open>A slice of bytes, by kind.\<close>

definition is_bytes :: "go_type \<Rightarrow> bool" where
  "is_bytes t = (case underlying t of TSlice e \<Rightarrow> underlying e = TInt KUint8 | _ \<Rightarrow> False)"

definition exported :: "string \<Rightarrow> field_info" where
  "exported n = \<lparr>f_name = bs n, f_tag = None, f_anon = False, f_exported = True\<rparr>"

text \<open>The wrappers of \<open>database/sql\<close>, each with the type inside.\<close>

definition null_type :: "string \<Rightarrow> string \<Rightarrow> go_type \<Rightarrow> go_type" where
  "null_type n f t = TNamed (bs n) (TStruct [Field (exported f) t, Field (exported ''Valid'') TBool])"

definition null_types :: "(go_type \<times> go_type) list" where
  "null_types =
     [(null_type ''sql.NullString'' ''String'' TString, TString),
      (null_type ''sql.NullInt16'' ''Int16'' (TInt KInt16), TInt KInt16),
      (null_type ''sql.NullInt32'' ''Int32'' (TInt KInt32), TInt KInt32),
      (null_type ''sql.NullInt64'' ''Int64'' (TInt KInt64), TInt KInt64),
      (null_type ''sql.NullFloat64'' ''Float64'' TFloat64, TFloat64),
      (null_type ''sql.NullBool'' ''Bool'' TBool, TBool),
      (null_type ''sql.NullTime'' ''Time'' TTime, TTime),
      (null_type ''sql.NullByte'' ''Byte'' (TInt KUint8), TInt KUint8)]"

definition rangeBytesType :: go_type where
  "rangeBytesType =
     TNamed (bs ''pg2json.RangeBytes'')
       (TStruct [Field (exported ''Flags'') (TInt KUint8), Field (exported ''Lower'') (TSlice (TInt KUint8)),
                 Field (exported ''Upper'') (TSlice (TInt KUint8)), Field (exported ''Empty'') TBool,
                 Field (exported ''LowerInclusive'') TBool, Field (exported ''UpperInclusive'') TBool,
                 Field (exported ''LowerInfinite'') TBool, Field (exported ''UpperInfinite'') TBool])"

section \<open>Values\<close>

text \<open>A time is seconds since 1970 and nanoseconds; slices and pointers may be nil.\<close>

datatype go_val =
    VBool bool
  | VInt int
  | VFloat nat
  | VString bytes
  | VTime int int
  | VPtr "go_val option"
  | VSlice "go_val list option"
  | VArr "go_val list"
  | VStruct "go_val list"
  | VOther nat

definition VBytes :: "bytes \<Rightarrow> go_val" where
  "VBytes b = VSlice (Some (map (\<lambda>x. VInt (uint x)) b))"

text \<open>The zero value; \<open>time.Time{}\<close> is the first instant of year 1.\<close>

primrec zero_val :: "go_type \<Rightarrow> go_val" and zero_field :: "go_field \<Rightarrow> go_val" where
  "zero_val TBool = VBool False"
| "zero_val (TInt k) = VInt 0"
| "zero_val TFloat32 = VFloat 0"
| "zero_val TFloat64 = VFloat 0"
| "zero_val TString = VString []"
| "zero_val TTime = VTime (- 62135596800) 0"
| "zero_val (TPtr t) = VPtr None"
| "zero_val (TSlice t) = VSlice None"
| "zero_val (TArr n t) = VArr (replicate n (zero_val t))"
| "zero_val (TStruct fs) = VStruct (map zero_field fs)"
| "zero_val (TNamed n t) = zero_val t"
| "zero_val TOther = VOther 0"
| "zero_field (Field i t) = zero_val t"

text \<open>The values of a type.\<close>

inductive typed :: "go_type \<Rightarrow> go_val \<Rightarrow> bool" where
  typed_bool: "typed TBool (VBool b)"
| typed_int: "in_kind k v \<Longrightarrow> typed (TInt k) (VInt v)"
| typed_float32: "b < 2 ^ 32 \<Longrightarrow> typed TFloat32 (VFloat b)"
| typed_float64: "b < 2 ^ 64 \<Longrightarrow> typed TFloat64 (VFloat b)"
| typed_string: "typed TString (VString s)"
| typed_time: "0 \<le> ns \<Longrightarrow> ns < 1000000000 \<Longrightarrow> typed TTime (VTime s ns)"
| typed_ptr_nil: "typed (TPtr t) (VPtr None)"
| typed_ptr: "typed t v \<Longrightarrow> typed (TPtr t) (VPtr (Some v))"
| typed_slice_nil: "typed (TSlice t) (VSlice None)"
| typed_slice: "list_all (typed t) vs \<Longrightarrow> typed (TSlice t) (VSlice (Some vs))"
| typed_arr: "list_all (typed t) vs \<Longrightarrow> length vs = n \<Longrightarrow> typed (TArr n t) (VArr vs)"
| typed_struct: "list_all2 (\<lambda>f v. typed (f_type f) v) fs vs \<Longrightarrow> typed (TStruct fs) (VStruct vs)"
| typed_named: "typed t v \<Longrightarrow> typed (TNamed n t) v"
| typed_other: "typed TOther (VOther n)"

inductive_simps typed_simps [simp]:
  "typed TBool v" "typed (TInt k) v" "typed TFloat32 v" "typed TFloat64 v" "typed TString v" "typed TTime v" "typed (TPtr t) v"
  "typed (TSlice t) v" "typed (TArr n t) v" "typed (TStruct fs) v" "typed (TNamed n t) v" "typed TOther v"

lemma typed_underlying: "typed (underlying t) v \<longleftrightarrow> typed t v"
  by (induction t) auto

lemma in_kind_0 [simp]: "in_kind k 0"
  by (simp add: in_kind_def)

lemma in_kind_to_kind [simp]: "in_kind k (to_kind k v)"
  using signed_take_bit_int_greater_eq_minus_exp [of "kind_bits k - 1" v] signed_take_bit_int_less_exp [of "kind_bits k - 1" v]
    take_bit_nonnegative [of "kind_bits k" v] take_bit_int_less_exp [of "kind_bits k" v]
  by (simp add: in_kind_def to_kind_def)

lemma to_kind_id [simp]: "in_kind k v \<Longrightarrow> to_kind k v = v"
  by (auto simp: in_kind_def to_kind_def signed_take_bit_int_eq_self_iff take_bit_int_eq_self_iff kind_signed_def split: if_splits)

lemma typed_zero: "typed t (zero_val t)" and typed_zero_field: "typed (f_type f) (zero_field f)"
  by (induction t and f) (auto simp: list_all_iff list_all2_conv_all_nth)

lemma typed_VBytes [simp]: "underlying e = TInt KUint8 \<Longrightarrow> list_all (typed e) (map (\<lambda>x. VInt (uint x)) (b :: bytes))"
proof -
  assume "underlying e = TInt KUint8"
  moreover have "in_kind KUint8 (uint x)" for x :: byte
    using uint_bounded [of x] by (simp add: in_kind_def kind_signed_def)
  ultimately show ?thesis
    using typed_underlying [of e] by (auto simp: list_all_iff)
qed

section \<open>Canonical values\<close>

datatype driver_value = DInt int | DFloat nat | DBool bool | DBytes bytes | DString bytes | DTime int int

text \<open>The position of the leading bit.\<close>

fun log2 :: "nat \<Rightarrow> nat" where
  "log2 n = (if n < 2 then 0 else Suc (log2 (n div 2)))"

declare log2.simps [simp del]

text \<open>\<open>float64\<close> of a \<open>float32\<close>: exact; a NaN keeps its payload and becomes quiet.\<close>

definition float64_of_32 :: "nat \<Rightarrow> nat" where
  "float64_of_32 b =
     (let s = b div 2 ^ 31; e = b div 2 ^ 23 mod 2 ^ 8; m = b mod 2 ^ 23 in
      s * 2 ^ 63 +
      (if e = 255 then 2047 * 2 ^ 52 + (if m = 0 then 0 else (if m < 2 ^ 22 then m + 2 ^ 22 else m) * 2 ^ 29)
       else if e = 0 then
         (if m = 0 then 0
          else let k = log2 m in (874 + k) * 2 ^ 52 + (m - 2 ^ k) * 2 ^ (52 - k))
       else (e + 896) * 2 ^ 52 + m * 2 ^ 29))"

section \<open>Instants\<close>

definition pgEpochUnixSec :: int where "pgEpochUnixSec = 946684800"

text \<open>\<open>/\<close> and \<open>%\<close> truncate toward zero.\<close>

definition pgUsecToTime :: "int \<Rightarrow> int \<times> int" where
  "pgUsecToTime usec =
     (let sec = pgEpochUnixSec + usec sdiv 1000000;
          nsec = usec smod 1000000 * 1000;
          (sec, nsec) = (if nsec < 0 then (sec - 1, nsec + 1000000000) else (sec, nsec))
      in (sec, nsec))"

lemma pgUsecToTime_exact: "pgUsecToTime usec = (pgEpochUnixSec + usec div 1000000, usec mod 1000000 * 1000)"
proof (cases "0 \<le> usec")
  case True
  then show ?thesis
    by (simp add: pgUsecToTime_def Let_def smod_nonneg sdiv_nonneg)
next
  case False
  have m: "usec smod 1000000 = usec - usec sdiv 1000000 * 1000000"
    by (rule minus_sdiv_mult_eq_smod [symmetric])
  have d: "usec sdiv 1000000 = - (- usec div 1000000)"
    using False by (simp add: sdiv_neg)
  define q r where "q = - usec div 1000000" and "r = - usec mod 1000000"
  have e: "usec = - (q * 1000000 + r)" "0 \<le> r" "r < 1000000"
    by (simp_all add: q_def r_def)
  have "usec div 1000000 = (if r = 0 then - q else - q - 1)" "usec mod 1000000 = (if r = 0 then 0 else 1000000 - r)"
    using zdiv_zminus1_eq_if [of 1000000 "- usec"] zmod_zminus1_eq_if [of "- usec" 1000000] by (simp_all add: q_def r_def)
  then show ?thesis
    using e unfolding pgUsecToTime_def Let_def m d q_def [symmetric] by auto
qed

end
