(* ===== verification/Scan.thy ===== *)
theory Scan
  imports Scan_Types
begin

text \<open>
  \<open>pg2json/scan.go\<close>, the cells: which setter a column type, a format and a field type give, what the
  setter stores, and how a DataRow fills a struct. A setter takes the value of the field and returns
  the value it leaves there, with an error when it fails halfway. The setters that \<open>reflect\<close> builds
  as closures keep one thing between calls: a composite setter remembers, for each field, the type
  OID of the first row; that memory is a map from the path of a field to its OID. Types with a
  \<open>Scan\<close> method of their own, and what the method does, are arguments, as is the lower-casing of
  names outside ASCII. Reading outside a byte slice panics, which is one of the errors here.
\<close>

section \<open>Setters\<close>

datatype scan_error =
    NoBinarySetter OID go_type
  | NoTextSetter OID go_type
  | BadWidth nat nat
  | BadUUIDLen nat
  | CompositeTruncated
  | NegativeNcols int
  | FieldTruncated nat
  | BadFieldLen int nat
  | FieldPick nat OID scan_error
  | FieldErr nat scan_error
  | RangeEmptyBody
  | RangeLowerTruncated
  | BadRangeLower int
  | RangeUpperTruncated
  | BadRangeUpper int
  | ArrayNeedsBinary OID
  | ArrayNotSlice
  | ArrayTooDeep
  | ArrayElemPick scan_error
  | ArrayTruncated
  | ArrayDims int
  | ArrayDimTruncated
  | NegativeDim int
  | ElemTruncated nat
  | BadElemLen int nat
  | ElemErr nat scan_error
  | ShortDataRow
  | ColumnCountMismatch int nat
  | ShortColumnHeader
  | BadColumnLen int
  | ColumnPick bytes OID bytes scan_error
  | ScannerErr nat
  | ScanPanic

text \<open>A wrapped error; a panic is not wrapped.\<close>

definition wrap :: "(scan_error \<Rightarrow> scan_error) \<Rightarrow> scan_error \<Rightarrow> scan_error" where
  "wrap f e = (if e = ScanPanic then ScanPanic else f e)"

record scan_env =
  se_scans :: "go_type \<Rightarrow> bool"
  se_scan :: "go_type \<Rightarrow> driver_value option \<Rightarrow> go_val \<Rightarrow> go_val \<times> nat option"
  se_lower :: "bytes \<Rightarrow> bytes"

type_synonym oid_cache = "nat list \<Rightarrow> OID option"
type_synonym cell_setter = "bytes option \<Rightarrow> go_val \<Rightarrow> go_val \<times> scan_error option"
type_synonym setter = "oid_cache \<Rightarrow> bytes option \<Rightarrow> go_val \<Rightarrow> oid_cache \<times> go_val \<times> scan_error option"

definition plain_setter :: "cell_setter \<Rightarrow> setter" where
  "plain_setter s cache raw v = (cache, s raw v)"

definition be_int :: "nat \<Rightarrow> bytes \<Rightarrow> int" where
  "be_int width raw = (if width = 2 then beI16 raw else if width = 4 then beI32 raw else beI64 raw)"

definition intSetter :: "go_type \<Rightarrow> nat \<Rightarrow> cell_setter option" where
  "intSetter t width =
     (case underlying t of
        TInt k \<Rightarrow>
          Some (\<lambda>raw v. case raw of
            None \<Rightarrow> (v, None)
          | Some r \<Rightarrow>
              if length r \<noteq> width then (v, Some (BadWidth width (length r)))
              else (VInt (to_kind k (be_int width r)), None))
      | _ \<Rightarrow> None)"

definition stringSetter :: cell_setter where
  "stringSetter raw v = (case raw of None \<Rightarrow> (VString [], None) | Some r \<Rightarrow> (VString r, None))"

definition strip_version :: "bytes \<Rightarrow> bytes" where
  "strip_version r = (if length r > 0 \<and> r ! 0 = 1 then drop 1 r else r)"

definition byteSliceSetter :: "bool \<Rightarrow> cell_setter" where
  "byteSliceSetter stripVersion raw v =
     (case raw of
        None \<Rightarrow> (VSlice None, None)
      | Some r \<Rightarrow> (VBytes (if stripVersion then strip_version r else r), None))"

definition jsonbStringSetter :: cell_setter where
  "jsonbStringSetter raw v = (case raw of None \<Rightarrow> (VString [], None) | Some r \<Rightarrow> (VString (strip_version r), None))"

definition uuid_text :: "bytes \<Rightarrow> bytes" where
  "uuid_text r =
     (let emit = (\<lambda>i j. concat (map (\<lambda>c. [hexLower ! unat (drop_bit 4 c), hexLower ! unat (c AND 15)]) (sub_slice r i j)))
      in emit 0 4 @ [45] @ emit 4 6 @ [45] @ emit 6 8 @ [45] @ emit 8 10 @ [45] @ emit 10 16)"

definition uuidStringSetter :: cell_setter where
  "uuidStringSetter raw v =
     (case raw of
        None \<Rightarrow> (VString [], None)
      | Some r \<Rightarrow> if length r \<noteq> 16 then (v, Some (BadUUIDLen (length r))) else (VString (uuid_text r), None))"

text \<open>The setters that leave the field alone on NULL and on a cell of another length.\<close>

definition exact_setter :: "nat \<Rightarrow> (bytes \<Rightarrow> go_val option) \<Rightarrow> cell_setter" where
  "exact_setter n f raw v =
     (case raw of
        None \<Rightarrow> (v, None)
      | Some r \<Rightarrow> if length r \<noteq> n then (v, None) else (case f r of Some w \<Rightarrow> (w, None) | None \<Rightarrow> (v, None)))"

definition boolSetter :: cell_setter where
  "boolSetter raw v =
     (case raw of None \<Rightarrow> (VBool False, None) | Some r \<Rightarrow> (VBool (length r = 1 \<and> r ! 0 \<noteq> 0), None))"

definition float4_val :: "go_type \<Rightarrow> bytes \<Rightarrow> go_val" where
  "float4_val t r = VFloat (if underlying t = TFloat32 then unat (beU32 r) else float64_of_32 (unat (beU32 r)))"

definition usec_time :: "int \<Rightarrow> go_val" where
  "usec_time usec = (let (sec, nsec) = pgUsecToTime usec in VTime sec nsec)"

definition dateSetter :: cell_setter where
  "dateSetter =
     exact_setter 4 (\<lambda>r. let days = beI32 r in
       if days = MaxInt32 \<or> days = MinInt32 then None else Some (usec_time (s64 (days * (86400 * 1000000)))))"

definition timestampSetter :: cell_setter where
  "timestampSetter =
     exact_setter 8 (\<lambda>r. let usec = beI64 r in
       if usec = MaxInt64 \<or> usec = MinInt64 then None else Some (usec_time usec))"

definition is_uuid_array :: "go_type \<Rightarrow> bool" where
  "is_uuid_array t = (case underlying t of TArr n e \<Rightarrow> underlying e = TInt KUint8 \<and> n = 16 | _ \<Rightarrow> False)"

definition pickBinarySetter :: "OID \<Rightarrow> go_type \<Rightarrow> scan_error + cell_setter" where
  "pickBinarySetter oid t =
     (let none = Inl (NoBinarySetter oid t);
          int_setter = (\<lambda>w. case intSetter t w of Some s \<Rightarrow> Inr s | None \<Rightarrow> none)
      in
      if oid = OIDBool then (if underlying t = TBool then Inr boolSetter else none)
      else if oid = OIDInt2 then int_setter 2
      else if oid = OIDInt4 \<or> oid = OIDOID then int_setter 4
      else if oid = OIDInt8 then int_setter 8
      else if oid = OIDFloat4 then
        (if underlying t = TFloat32 \<or> underlying t = TFloat64 then Inr (exact_setter 4 (\<lambda>r. Some (float4_val t r))) else none)
      else if oid = OIDFloat8 then
        (if underlying t = TFloat64 then Inr (exact_setter 8 (\<lambda>r. Some (VFloat (unat (beU64 r))))) else none)
      else if oid = OIDText \<or> oid = OIDVarchar \<or> oid = OIDBPChar \<or> oid = OIDName then
        (if underlying t = TString then Inr stringSetter else if is_bytes t then Inr (byteSliceSetter False) else none)
      else if oid = OIDUUID then
        (if underlying t = TString then Inr uuidStringSetter
         else if is_uuid_array t then Inr (exact_setter 16 (\<lambda>r. Some (VArr (map (\<lambda>x. VInt (uint x)) r))))
         else none)
      else if oid = OIDBytea then (if is_bytes t then Inr (byteSliceSetter False) else none)
      else if oid = OIDJSON then
        (if is_bytes t then Inr (byteSliceSetter False) else if underlying t = TString then Inr stringSetter else none)
      else if oid = OIDJSONB then
        (if is_bytes t then Inr (byteSliceSetter True) else if underlying t = TString then Inr jsonbStringSetter else none)
      else if oid = OIDDate then (if t = TTime then Inr dateSetter else none)
      else if oid = OIDTimestamp \<or> oid = OIDTimestampTZ then (if t = TTime then Inr timestampSetter else none)
      else none)"

definition pickTextSetter :: "OID \<Rightarrow> go_type \<Rightarrow> scan_error + cell_setter" where
  "pickTextSetter oid t =
     (if underlying t = TString then Inr stringSetter
      else if is_bytes t then Inr (byteSliceSetter False)
      else Inl (NoTextSetter oid t))"

text \<open>What a \<open>Scan\<close> method is given; no value is a panic.\<close>

definition scannerDecoderFor :: "OID \<Rightarrow> int \<Rightarrow> bytes \<Rightarrow> driver_value option" where
  "scannerDecoderFor oid fmt raw =
     (if fmt = 1 then
        (if oid = OIDBool then Some (DBool (length raw = 1 \<and> raw ! 0 \<noteq> 0))
         else if oid = OIDInt2 then (if length raw < 2 then None else Some (DInt (beI16 raw)))
         else if oid = OIDInt4 \<or> oid = OIDOID then (if length raw < 4 then None else Some (DInt (beI32 raw)))
         else if oid = OIDInt8 then (if length raw < 8 then None else Some (DInt (beI64 raw)))
         else if oid = OIDFloat4 then (if length raw < 4 then None else Some (DFloat (float64_of_32 (unat (beU32 raw)))))
         else if oid = OIDFloat8 then (if length raw < 8 then None else Some (DFloat (unat (beU64 raw))))
         else if oid = OIDText \<or> oid = OIDVarchar \<or> oid = OIDBPChar \<or> oid = OIDName then Some (DString raw)
         else if oid = OIDTimestamp \<or> oid = OIDTimestampTZ then
           (if length raw \<noteq> 8 then Some (DBytes raw) else (let (s, n) = pgUsecToTime (beI64 raw) in Some (DTime s n)))
         else if oid = OIDDate then
           (if length raw \<noteq> 4 then Some (DBytes raw)
            else (let (s, n) = pgUsecToTime (s64 (beI32 raw * (86400 * 1000000))) in Some (DTime s n)))
         else if oid = OIDJSONB then Some (DBytes (strip_version raw))
         else Some (DBytes raw))
      else Some (DBytes raw))"

definition scan_method :: "scan_env \<Rightarrow> go_type \<Rightarrow> driver_value option \<Rightarrow> go_val \<Rightarrow> go_val \<times> scan_error option" where
  "scan_method env t d v = (let (v, e) = se_scan env t d v in (v, map_option ScannerErr e))"

definition scannerSetter :: "scan_env \<Rightarrow> OID \<Rightarrow> int \<Rightarrow> go_type \<Rightarrow> cell_setter" where
  "scannerSetter env oid fmt t raw v =
     (case raw of
        None \<Rightarrow> scan_method env t None v
      | Some r \<Rightarrow> (case scannerDecoderFor oid fmt r of None \<Rightarrow> (v, Some ScanPanic) | Some d \<Rightarrow> scan_method env t (Some d) v))"

section \<open>Ranges\<close>

record RangeBytes =
  rb_Flags :: byte
  rb_Lower :: "bytes option"
  rb_Upper :: "bytes option"
  rb_Empty :: bool
  rb_LowerInclusive :: bool
  rb_UpperInclusive :: bool
  rb_LowerInfinite :: bool
  rb_UpperInfinite :: bool

definition range_val :: "RangeBytes \<Rightarrow> go_val" where
  "range_val rb =
     (let bound = (\<lambda>b. case b of None \<Rightarrow> VSlice None | Some x \<Rightarrow> VBytes x) in
      VStruct [VInt (uint (rb_Flags rb)), bound (rb_Lower rb), bound (rb_Upper rb), VBool (rb_Empty rb),
               VBool (rb_LowerInclusive rb), VBool (rb_UpperInclusive rb), VBool (rb_LowerInfinite rb), VBool (rb_UpperInfinite rb)])"

text \<open>\<open>append([]byte(nil), b...)\<close> is nil when \<open>b\<close> is empty.\<close>

definition append_nil :: "bytes \<Rightarrow> bytes option" where
  "append_nil b = (if b = [] then None else Some b)"

text \<open>A bound: its length and bytes. The arguments are the errors for a short header and a bad length.\<close>

definition read_bound :: "scan_error \<Rightarrow> (int \<Rightarrow> scan_error) \<Rightarrow> bytes \<Rightarrow> scan_error + bytes \<times> bytes" where
  "read_bound short bad body =
     (if length body < 4 then Inl short
      else
        let l = beI32 body; body = drop 4 body in
        if l < 0 \<or> l > int (length body) then Inl (bad l)
        else Inr (take (nat l) body, drop (nat l) body))"

definition rangeSetter :: cell_setter where
  "rangeSetter raw v =
     (case raw of
        None \<Rightarrow> (range_val \<lparr>rb_Flags = 0, rb_Lower = None, rb_Upper = None, rb_Empty = False, rb_LowerInclusive = False,
                             rb_UpperInclusive = False, rb_LowerInfinite = False, rb_UpperInfinite = False\<rparr>, None)
      | Some [] \<Rightarrow> (v, Some RangeEmptyBody)
      | Some (flags # body) \<Rightarrow>
          let rb = \<lparr>rb_Flags = flags, rb_Lower = None, rb_Upper = None, rb_Empty = (flags AND 1 \<noteq> 0),
                    rb_LowerInclusive = (flags AND 2 \<noteq> 0), rb_UpperInclusive = (flags AND 4 \<noteq> 0),
                    rb_LowerInfinite = (flags AND 8 \<noteq> 0), rb_UpperInfinite = (flags AND 16 \<noteq> 0)\<rparr>
          in if rb_Empty rb then (range_val rb, None)
             else
               case (if rb_LowerInfinite rb then Inr (None, body)
                     else case read_bound RangeLowerTruncated BadRangeLower body of
                            Inl e \<Rightarrow> Inl e | Inr (b, body) \<Rightarrow> Inr (append_nil b, body)) of
                 Inl e \<Rightarrow> (range_val rb, Some e)
               | Inr (lo, body) \<Rightarrow>
                   let rb = rb\<lparr>rb_Lower := lo\<rparr>
                   in if rb_UpperInfinite rb then (range_val rb, None)
                      else case read_bound RangeUpperTruncated BadRangeUpper body of
                             Inl e \<Rightarrow> (range_val rb, Some e)
                           | Inr (b, body) \<Rightarrow> (range_val (rb\<lparr>rb_Upper := append_nil b\<rparr>), None))"

section \<open>Arrays\<close>

definition readArrayElem :: "bytes \<Rightarrow> nat \<Rightarrow> scan_error + bytes option \<times> bytes" where
  "readArrayElem raw idx =
     (if length raw < 4 then Inl (ElemTruncated idx)
      else
        let el = beI32 raw; raw = drop 4 raw in
        if el = - 1 then Inr (None, raw)
        else if el < 0 \<or> el > int (length raw) then Inl (BadElemLen el idx)
        else Inr (Some (take (nat el) raw), drop (nat el) raw))"

text \<open>The element loop over the slots of a slice: the slots, and the bytes left or the error.\<close>

fun elem_loop :: "setter \<Rightarrow> nat \<Rightarrow> oid_cache \<Rightarrow> bytes \<Rightarrow> go_val list \<Rightarrow> oid_cache \<times> go_val list \<times> (scan_error + bytes)" where
  "elem_loop setr i cache raw [] = (cache, [], Inr raw)"
| "elem_loop setr i cache raw (v # vs) =
     (case readArrayElem raw i of
        Inl e \<Rightarrow> (cache, v # vs, Inl e)
      | Inr (elemRaw, raw) \<Rightarrow>
          (case setr cache elemRaw v of
             (cache, v, Some e) \<Rightarrow> (cache, v # vs, Inl (wrap (ElemErr i) e))
           | (cache, v, None) \<Rightarrow> (let (cache, vs, r) = elem_loop setr (i + 1) cache raw vs in (cache, v # vs, r))))"

text \<open>The outer loop of two dimensions.\<close>

fun outer_loop :: "setter \<Rightarrow> go_val list \<Rightarrow> nat \<Rightarrow> oid_cache \<Rightarrow> bytes \<Rightarrow> go_val list \<Rightarrow> oid_cache \<times> go_val list \<times> scan_error option" where
  "outer_loop setr zeros i cache raw [] = (cache, [], None)"
| "outer_loop setr zeros i cache raw (v # vs) =
     (case elem_loop setr (i * length zeros) cache raw zeros of
        (cache, xs, Inl e) \<Rightarrow> (cache, VSlice (Some xs) # vs, Some e)
      | (cache, xs, Inr raw) \<Rightarrow>
          (let (cache, vs, r) = outer_loop setr zeros (i + 1) cache raw vs in (cache, VSlice (Some xs) # vs, r)))"

definition arraySetter1 :: "setter \<Rightarrow> go_type \<Rightarrow> setter" where
  "arraySetter1 setr scalar cache raw v =
     (case raw of
        None \<Rightarrow> (cache, VSlice None, None)
      | Some raw \<Rightarrow>
          if length raw < 12 then (cache, v, Some ArrayTruncated)
          else
            let ndim = beI32 raw; raw = drop 12 raw in
            if ndim = 0 then (cache, VSlice (Some []), None)
            else if ndim \<noteq> 1 then (cache, v, Some (ArrayDims ndim))
            else if length raw < 8 then (cache, v, Some ArrayDimTruncated)
            else
              let dimLen = beI32 raw; raw = drop 8 raw in
              if dimLen < 0 then (cache, v, Some (NegativeDim dimLen))
              else
                let (cache, vs, r) = elem_loop setr 0 cache raw (replicate (nat dimLen) (zero_val scalar))
                in (cache, VSlice (Some vs), case r of Inl e \<Rightarrow> Some e | Inr _ \<Rightarrow> None))"

definition arraySetter2 :: "setter \<Rightarrow> go_type \<Rightarrow> setter" where
  "arraySetter2 setr scalar cache raw v =
     (case raw of
        None \<Rightarrow> (cache, VSlice None, None)
      | Some raw \<Rightarrow>
          if length raw < 12 then (cache, v, Some ArrayTruncated)
          else
            let ndim = beI32 raw; raw = drop 12 raw in
            if ndim = 0 then (cache, VSlice (Some []), None)
            else if ndim \<noteq> 2 then (cache, v, Some (ArrayDims ndim))
            else if length raw < 16 then (cache, v, Some ArrayDimTruncated)
            else
              let outerLen = beI32 raw; innerLen = beI32 (drop 8 raw); raw = drop 16 raw in
              if outerLen < 0 then (cache, v, Some (NegativeDim outerLen))
              else if innerLen < 0 then (cache, v, Some (NegativeDim innerLen))
              else
                let (cache, vs, r) =
                      outer_loop setr (replicate (nat innerLen) (zero_val scalar)) 0 cache raw (replicate (nat outerLen) (VSlice None))
                in (cache, VSlice (Some vs), r))"

text \<open>The loop that counts the levels of slices above the last one.\<close>

function array_leaf :: "go_type \<Rightarrow> nat \<times> go_type" where
  "array_leaf t =
     (case underlying t of
        TSlice e \<Rightarrow>
          (case underlying e of
             TSlice e' \<Rightarrow> if underlying e' \<noteq> TInt KUint8 then (let (d, l) = array_leaf e in (d + 1, l)) else (0, t)
           | _ \<Rightarrow> (0, t))
      | _ \<Rightarrow> (0, t))"
  by pat_completeness auto

lemma underlying_smaller: "underlying t = TSlice e \<Longrightarrow> size e < size t" "underlying t = TPtr e \<Longrightarrow> size e < size t"
  using size_underlying [of t] by auto

termination array_leaf
  by (relation "measure size") (auto dest: underlying_smaller)

declare array_leaf.simps [simp del]

lemma array_leaf_size: "array_leaf t = (d, l) \<Longrightarrow> size l \<le> size t"
proof (induction t arbitrary: d l rule: array_leaf.induct)
  case (1 t)
  then show ?case
    by (subst (asm) (2) array_leaf.simps)
       (fastforce split: go_type.splits if_splits prod.splits dest: underlying_smaller)
qed

lemma array_scalar_smaller: "(d, l) = array_leaf t \<Longrightarrow> underlying l = TSlice s \<Longrightarrow> size s < size t"
  using array_leaf_size [of t d l] underlying_smaller(1) [of l s] by simp

section \<open>Composites\<close>

text \<open>The fields a composite fills: exported ones that are not tagged away, by position.\<close>

definition composite_fields :: "go_type \<Rightarrow> (nat \<times> go_type) list" where
  "composite_fields t =
     [(i, f_type f). (i, f) \<leftarrow> enumerate 0 (fields_of t), f_exported (f_info f), f_tag (f_info f) \<noteq> Some [45]]"

text \<open>The header and the bytes of a column.\<close>

definition read_field :: "bytes \<Rightarrow> nat \<Rightarrow> scan_error + OID \<times> bytes option \<times> bytes" where
  "read_field raw i =
     (if length raw < 8 then Inl (FieldTruncated i)
      else
        let oid = beU32 raw; l = beI32 (drop 4 raw); raw = drop 8 raw in
        if l = - 1 then Inr (oid, None, raw)
        else if l < 0 \<or> l > int (length raw) then Inl (BadFieldLen l i)
        else Inr (oid, Some (take (nat l) raw), drop (nat l) raw))"

text \<open>
  One column into its field; \<open>pick j\<close> gives the setter of field \<open>j\<close> for an OID, and \<open>p\<close> is the path
  of the composite. Columns past the last field are skipped.
\<close>

definition comp_field :: "nat list \<Rightarrow> (nat \<times> (OID \<Rightarrow> scan_error + setter)) list \<Rightarrow> nat \<Rightarrow> oid_cache \<Rightarrow> OID \<Rightarrow> bytes option \<Rightarrow>
    go_val list \<Rightarrow> oid_cache \<times> go_val list \<times> scan_error option" where
  "comp_field p picks i cache oid fieldRaw vs =
     (if i \<ge> length picks then (cache, vs, None)
      else
        let (j, pick) = picks ! i; oid = (case cache (p @ [i]) of Some o' \<Rightarrow> o' | None \<Rightarrow> oid) in
        case pick oid of
          Inl e \<Rightarrow> (cache, vs, Some (wrap (FieldPick i oid) e))
        | Inr setr \<Rightarrow>
            let (cache, v, e) = setr (cache(p @ [i] \<mapsto> oid)) fieldRaw (vs ! j)
            in (cache, vs[j := v], map_option (wrap (FieldErr i)) e))"

text \<open>The column loop, \<open>n\<close> columns left and \<open>i\<close> done.\<close>

primrec comp_loop :: "nat list \<Rightarrow> (nat \<times> (OID \<Rightarrow> scan_error + setter)) list \<Rightarrow> nat \<Rightarrow> nat \<Rightarrow> oid_cache \<Rightarrow> bytes \<Rightarrow> go_val list \<Rightarrow>
    oid_cache \<times> go_val list \<times> scan_error option" where
  "comp_loop p picks 0 i cache raw vs = (cache, vs, None)"
| "comp_loop p picks (Suc n) i cache raw vs =
     (case read_field raw i of
        Inl e \<Rightarrow> (cache, vs, Some e)
      | Inr (oid, fieldRaw, raw) \<Rightarrow>
          (case comp_field p picks i cache oid fieldRaw vs of
             (cache, vs, Some e) \<Rightarrow> (cache, vs, Some e)
           | (cache, vs, None) \<Rightarrow> comp_loop p picks n (i + 1) cache raw vs))"

definition compositeSetter :: "nat list \<Rightarrow> (nat \<times> (OID \<Rightarrow> scan_error + setter)) list \<Rightarrow> go_type \<Rightarrow> setter" where
  "compositeSetter p picks t cache raw v =
     (case raw of
        None \<Rightarrow> (cache, zero_val t, None)
      | Some raw \<Rightarrow>
          if length raw < 4 then (cache, v, Some CompositeTruncated)
          else
            let ncols = beI32 raw; raw = drop 4 raw in
            if ncols < 0 then (cache, v, Some (NegativeNcols ncols))
            else
              case v of
                VStruct vs \<Rightarrow> (let (cache, vs, e) = comp_loop p picks (nat ncols) 0 cache raw vs in (cache, VStruct vs, e))
              | _ \<Rightarrow> (cache, v, Some ScanPanic))"

text \<open>The wrappers: \<open>{X, Valid}\<close>, and a pointer.\<close>

definition nullSetterWrap :: "setter \<Rightarrow> setter" where
  "nullSetterWrap inner cache raw v =
     (case v of
        VStruct [x, valid] \<Rightarrow>
          (case raw of
             None \<Rightarrow> (cache, VStruct [x, VBool False], None)
           | Some r \<Rightarrow>
               (case inner cache (Some r) x of
                  (cache, x, Some e) \<Rightarrow> (cache, VStruct [x, valid], Some e)
                | (cache, x, None) \<Rightarrow> (cache, VStruct [x, VBool True], None)))
      | _ \<Rightarrow> (cache, v, Some ScanPanic))"

definition pointerSetter :: "setter \<Rightarrow> go_type \<Rightarrow> setter" where
  "pointerSetter inner elemType cache raw v =
     (case raw of
        None \<Rightarrow> (cache, VPtr None, None)
      | Some r \<Rightarrow>
          (case inner cache (Some r) (zero_val elemType) of
             (cache, x, Some e) \<Rightarrow> (cache, v, Some e)
           | (cache, x, None) \<Rightarrow> (cache, VPtr (Some x), None)))"

section \<open>The dispatch\<close>

definition is_null_type :: "go_type \<Rightarrow> bool" where
  "is_null_type t \<longleftrightarrow> map_of null_types t \<noteq> None"

definition is_plain_slice :: "go_type \<Rightarrow> bool" where
  "is_plain_slice t = (case underlying t of TSlice e \<Rightarrow> underlying e \<noteq> TInt KUint8 | _ \<Rightarrow> False)"

function pickSetter :: "scan_env \<Rightarrow> nat list \<Rightarrow> OID \<Rightarrow> int \<Rightarrow> go_type \<Rightarrow> scan_error + setter" where
  "pickSetter env p oid fmt t =
     (case (case map_of null_types t of
              Some inner \<Rightarrow> (case pickSetter env p oid fmt inner of Inr s \<Rightarrow> Some (nullSetterWrap s) | Inl e \<Rightarrow> None)
            | None \<Rightarrow> None) of
        Some s \<Rightarrow> Inr s
      | None \<Rightarrow>
          if se_scans env t \<and> \<not> is_null_type t then Inr (plain_setter (scannerSetter env oid fmt t))
          else if fmt = 1 \<and> IsRange oid \<and> t = rangeBytesType then Inr (plain_setter rangeSetter)
          else if fmt = 1 \<and> is_struct t \<and> t \<noteq> TTime \<and> t \<noteq> rangeBytesType \<and> \<not> is_null_type t \<and> composite_fields t \<noteq> [] then
            Inr (compositeSetter p
                   (map (\<lambda>(k, j, ft). (j, \<lambda>o'. pickSetter env (p @ [k]) o' 1 ft)) (enumerate 0 (composite_fields t))) t)
          else if ArrayElem oid \<noteq> 0 \<and> is_plain_slice t then
            (if fmt \<noteq> 1 then Inl (ArrayNeedsBinary (ArrayElem oid))
             else
               let (d, leaf) = array_leaf t in
               case underlying leaf of
                 TSlice scalar \<Rightarrow>
                   if d + 1 > 2 then Inl ArrayTooDeep
                   else (case pickSetter env p (ArrayElem oid) 1 scalar of
                           Inl e \<Rightarrow> Inl (ArrayElemPick e)
                         | Inr s \<Rightarrow> if d + 1 = 1 then Inr (arraySetter1 s scalar) else Inr (arraySetter2 s scalar))
               | _ \<Rightarrow> Inl ArrayNotSlice)
          else
            case underlying t of
              TPtr elemType \<Rightarrow>
                (case pickSetter env p oid fmt elemType of Inl e \<Rightarrow> Inl e | Inr inner \<Rightarrow> Inr (pointerSetter inner elemType))
            | _ \<Rightarrow> map_sum id plain_setter (if fmt = 1 then pickBinarySetter oid t else pickTextSetter oid t))"
  by pat_completeness auto

lemma null_type_smaller: "map_of null_types t = Some inner \<Longrightarrow> size inner < size t"
  by (drule map_of_SomeD) (auto simp: null_types_def null_type_def)

lemma field_smaller: "f \<in> set (fields_of t) \<Longrightarrow> size (f_type f) < size t"
proof -
  assume f: "f \<in> set (fields_of t)"
  then obtain fs where u: "underlying t = TStruct fs" "f \<in> set fs"
    by (cases "underlying t") (auto simp: fields_of_def)
  have "size (f_type f) < size f"
    by (cases f) simp
  moreover have "size f < size (TStruct fs)"
    using u(2) size_list_estimation' [of f fs "size f" size] by auto
  ultimately show ?thesis
    using size_underlying [of t] u(1) by simp
qed

lemma composite_fields_smaller: "(j, ft) \<in> set (composite_fields t) \<Longrightarrow> size ft < size t"
  by (auto simp: composite_fields_def in_set_enumerate_eq dest!: nth_mem field_smaller)

lemma enumerate_member: "(k, x) \<in> set (enumerate n xs) \<Longrightarrow> x \<in> set xs"
  by (induction xs arbitrary: n) auto

lemma composite_enumerate: "(k, j, ft) \<in> set (enumerate 0 (composite_fields t)) \<Longrightarrow> (j, ft) \<in> set (composite_fields t)"
  by (rule enumerate_member)

termination pickSetter
proof (relation "measure (\<lambda>(env, p, oid, fmt, t). size t)", goal_cases)
  case (4 env p oid fmt t)
  then show ?case
    by simp (erule (1) array_scalar_smaller)
qed (auto dest: null_type_smaller composite_enumerate composite_fields_smaller underlying_smaller)

declare pickSetter.simps [simp del]

section \<open>Struct plans\<close>

definition lower_ascii :: "byte \<Rightarrow> byte" where
  "lower_ascii c = (if 65 \<le> c \<and> c \<le> 90 then c + 32 else c)"

definition ToLower :: "scan_env \<Rightarrow> bytes \<Rightarrow> bytes" where
  "ToLower env s = (if list_all (\<lambda>c. c < 128) s then map lower_ascii s else se_lower env s)"

definition isEmbeddedFlatten :: "go_field \<Rightarrow> bool" where
  "isEmbeddedFlatten f \<longleftrightarrow>
     f_tag (f_info f) = None \<and> f_anon (f_info f) \<and> is_struct (f_type f) \<and> f_type f \<noteq> TTime"

definition field_key :: "field_info \<Rightarrow> bytes" where
  "field_key i = (case f_tag i of Some tag \<Rightarrow> if tag \<noteq> [] then tag else f_name i | None \<Rightarrow> f_name i)"

text \<open>Where a column goes: the path of field positions from the row's struct, and the field.\<close>

type_synonym name_idx = "bytes \<Rightarrow> (nat list \<times> go_field) option"

definition own_fields :: "scan_env \<Rightarrow> go_type \<Rightarrow> nat list \<Rightarrow> name_idx" where
  "own_fields env t base =
     foldl (\<lambda>out (i, f).
              if f_tag (f_info f) = Some [45] \<or> isEmbeddedFlatten f \<or> \<not> f_exported (f_info f) then out
              else out(ToLower env (field_key (f_info f)) \<mapsto> (base @ [i], f)))
           (\<lambda>_. None) (enumerate 0 (fields_of t))"

function walkStructFields :: "scan_env \<Rightarrow> go_type \<Rightarrow> nat list \<Rightarrow> name_idx" where
  "walkStructFields env t base =
     foldl (\<lambda>out (i, f).
              if f_tag (f_info f) = Some [45] \<or> \<not> isEmbeddedFlatten f then out
              else walkStructFields env (f_type f) (base @ [i]) ++ out)
           (own_fields env t base) (enumerate 0 (fields_of t))"
  by pat_completeness auto

termination walkStructFields
  by (relation "measure (\<lambda>(env, t, base). size t)") (auto dest!: enumerate_member field_smaller)

declare walkStructFields.simps [simp del]

text \<open>The opcodes of the inline path.\<close>

datatype inline_op =
    OpFallback
  | OpInt2BinInt16
  | OpInt2BinInt32
  | OpInt2BinInt64
  | OpInt4BinInt32
  | OpInt4BinInt64
  | OpInt8BinInt64
  | OpFloat4BinF32
  | OpFloat4BinF64
  | OpFloat8BinF64
  | OpBoolBin
  | OpStringPass
  | OpByteCopyRaw

definition inlineOpFor :: "OID \<Rightarrow> int \<Rightarrow> go_type \<Rightarrow> inline_op" where
  "inlineOpFor oid fmt t =
     (let u = underlying t in
      if fmt \<noteq> 1 then OpFallback
      else if (case u of TPtr _ \<Rightarrow> True | TSlice _ \<Rightarrow> \<not> is_bytes t | TOther \<Rightarrow> True | _ \<Rightarrow> False) then OpFallback
      else if is_struct t then OpFallback
      else if oid = OIDBool then (if u = TBool then OpBoolBin else OpFallback)
      else if oid = OIDInt2 then
        (if u = TInt KInt16 then OpInt2BinInt16
         else if u = TInt KInt32 then OpInt2BinInt32
         else if u = TInt KInt64 \<or> u = TInt KInt then OpInt2BinInt64
         else OpFallback)
      else if oid = OIDInt4 \<or> oid = OIDOID then
        (if u = TInt KInt32 then OpInt4BinInt32
         else if u = TInt KInt64 \<or> u = TInt KInt then OpInt4BinInt64
         else OpFallback)
      else if oid = OIDInt8 then (if u = TInt KInt64 \<or> u = TInt KInt then OpInt8BinInt64 else OpFallback)
      else if oid = OIDFloat4 then
        (if u = TFloat32 then OpFloat4BinF32 else if u = TFloat64 then OpFloat4BinF64 else OpFallback)
      else if oid = OIDFloat8 then (if u = TFloat64 then OpFloat8BinF64 else OpFallback)
      else if oid = OIDText \<or> oid = OIDVarchar \<or> oid = OIDBPChar \<or> oid = OIDName then
        (if u = TString then OpStringPass else if is_bytes t then OpByteCopyRaw else OpFallback)
      else if oid = OIDBytea \<or> oid = OIDJSON then (if is_bytes t then OpByteCopyRaw else OpFallback)
      else OpFallback)"

record fieldSetter =
  fs_skip :: bool
  fs_path :: "nat list"
  fs_set :: setter
  fs_op :: inline_op

definition skip_setter :: fieldSetter where
  "skip_setter = \<lparr>fs_skip = True, fs_path = [], fs_set = plain_setter (\<lambda>raw v. (v, None)), fs_op = OpFallback\<rparr>"

fun plan_setters :: "scan_env \<Rightarrow> name_idx \<Rightarrow> nat \<Rightarrow> Column list \<Rightarrow> scan_error + fieldSetter list" where
  "plan_setters env idx ci [] = Inr []"
| "plan_setters env idx ci (col # cols) =
     (case idx (ToLower env (Name col)) of
        None \<Rightarrow> map_sum id ((#) skip_setter) (plan_setters env idx (ci + 1) cols)
      | Some (path, f) \<Rightarrow>
          (case pickSetter env [ci] (TypeOID col) (Format col) (f_type f) of
             Inl e \<Rightarrow> Inl (ColumnPick (Name col) (TypeOID col) (f_name (f_info f)) e)
           | Inr setr \<Rightarrow>
               map_sum id ((#) \<lparr>fs_skip = False, fs_path = path, fs_set = setr,
                                fs_op = inlineOpFor (TypeOID col) (Format col) (f_type f)\<rparr>)
                 (plan_setters env idx (ci + 1) cols)))"

definition buildStructPlan :: "scan_env \<Rightarrow> go_type \<Rightarrow> Plan \<Rightarrow> scan_error + fieldSetter list" where
  "buildStructPlan env t plan = plan_setters env (walkStructFields env t []) 0 (Columns plan)"

section \<open>Filling a row\<close>

fun get_at :: "nat list \<Rightarrow> go_val \<Rightarrow> go_val" where
  "get_at (i # p) (VStruct vs) = get_at p (vs ! i)"
| "get_at p v = v"

fun set_at :: "nat list \<Rightarrow> go_val \<Rightarrow> go_val \<Rightarrow> go_val" where
  "set_at (i # p) x (VStruct vs) = VStruct (vs[i := set_at p x (vs ! i)])"
| "set_at [] x v = x"
| "set_at p x v = v"

text \<open>The inline switch: the value stored, or none when the setter is to be called.\<close>

definition inline_store :: "inline_op \<Rightarrow> bytes \<Rightarrow> go_val option" where
  "inline_store op raw =
     (case op of
        OpInt4BinInt32 \<Rightarrow> if length raw = 4 then Some (VInt (beI32 raw)) else None
      | OpInt4BinInt64 \<Rightarrow> if length raw = 4 then Some (VInt (beI32 raw)) else None
      | OpInt8BinInt64 \<Rightarrow> if length raw = 8 then Some (VInt (beI64 raw)) else None
      | OpInt2BinInt16 \<Rightarrow> if length raw = 2 then Some (VInt (beI16 raw)) else None
      | OpInt2BinInt32 \<Rightarrow> if length raw = 2 then Some (VInt (beI16 raw)) else None
      | OpInt2BinInt64 \<Rightarrow> if length raw = 2 then Some (VInt (beI16 raw)) else None
      | OpFloat8BinF64 \<Rightarrow> if length raw = 8 then Some (VFloat (unat (beU64 raw))) else None
      | OpFloat4BinF32 \<Rightarrow> if length raw = 4 then Some (VFloat (unat (beU32 raw))) else None
      | OpFloat4BinF64 \<Rightarrow> if length raw = 4 then Some (VFloat (float64_of_32 (unat (beU32 raw)))) else None
      | OpBoolBin \<Rightarrow> if length raw = 1 then Some (VBool (raw ! 0 \<noteq> 0)) else None
      | OpStringPass \<Rightarrow> Some (VString raw)
      | OpByteCopyRaw \<Rightarrow> Some (VBytes raw)
      | OpFallback \<Rightarrow> None)"

definition fill_cell :: "fieldSetter \<Rightarrow> oid_cache \<Rightarrow> bytes option \<Rightarrow> go_val \<Rightarrow> oid_cache \<times> go_val \<times> scan_error option" where
  "fill_cell s cache raw row =
     (if fs_skip s then (cache, row, None)
      else
        case (case raw of None \<Rightarrow> None | Some r \<Rightarrow> inline_store (fs_op s) r) of
          Some x \<Rightarrow> (cache, set_at (fs_path s) x row, None)
        | None \<Rightarrow> (let (cache, x, e) = fs_set s cache raw (get_at (fs_path s) row) in (cache, set_at (fs_path s) x row, e)))"

fun fill_loop :: "fieldSetter list \<Rightarrow> oid_cache \<Rightarrow> bytes \<Rightarrow> go_val \<Rightarrow> oid_cache \<times> go_val \<times> scan_error option" where
  "fill_loop [] cache body row = (cache, row, None)"
| "fill_loop (s # ss) cache body row =
     (if length body < 4 then (cache, row, Some ShortColumnHeader)
      else
        let l = beI32 body; body = drop 4 body in
        if l \<noteq> - 1 \<and> (l < 0 \<or> l > int (length body)) then (cache, row, Some (BadColumnLen l))
        else
          let (raw, body) = (if l = - 1 then (None, body) else (Some (take (nat l) body), drop (nat l) body)) in
          (case fill_cell s cache raw row of
             (cache, row, Some e) \<Rightarrow> (cache, row, Some e)
           | (cache, row, None) \<Rightarrow> fill_loop ss cache body row))"

definition fillStructRow :: "fieldSetter list \<Rightarrow> oid_cache \<Rightarrow> bytes \<Rightarrow> go_val \<Rightarrow> oid_cache \<times> go_val \<times> scan_error option" where
  "fillStructRow setters cache body row =
     (if length body < 2 then (cache, row, Some ShortDataRow)
      else
        let n = beI16 body in
        if n \<noteq> int (length setters) then (cache, row, Some (ColumnCountMismatch n (length setters)))
        else fill_loop setters cache (drop 2 body) row)"

end
