(* ===== verification/Scan_Proofs.thy ===== *)
theory Scan_Proofs
  imports Scan
begin

text \<open>
  What the setters of \<open>Scan\<close> guarantee: every store is a value of the field's type, whatever bytes
  the server sends; the inline path stores what the setter would; and a cell that is the binary
  form of a value is stored as that value, through arrays, composites, ranges, pointers and the
  nullable wrappers.
\<close>

section \<open>Stores keep types\<close>

text \<open>A \<open>Scan\<close> method can only assign a value of its type: Go's type system.\<close>

definition env_ok :: "scan_env \<Rightarrow> bool" where
  "env_ok env \<longleftrightarrow> (\<forall>t d v. typed t v \<longrightarrow> typed t (fst (se_scan env t d v)))"

definition no_scanners :: "scan_env \<Rightarrow> bool" where
  "no_scanners env \<longleftrightarrow> (\<forall>t. \<not> se_scans env t)"

text \<open>A setter keeps the type of the field; without user code (\<open>calm\<close>) it does not panic.\<close>

definition setter_safe :: "bool \<Rightarrow> go_type \<Rightarrow> setter \<Rightarrow> bool" where
  "setter_safe calm t s \<longleftrightarrow>
     (\<forall>cache raw v cache' v' e. typed t v \<longrightarrow> s cache raw v = (cache', v', e) \<longrightarrow>
        typed t v' \<and> (calm \<longrightarrow> e \<noteq> Some ScanPanic))"

lemma setter_safeD:
  "setter_safe calm t s \<Longrightarrow> typed t v \<Longrightarrow> s cache raw v = (cache', v', e) \<Longrightarrow> typed t v' \<and> (calm \<longrightarrow> e \<noteq> Some ScanPanic)"
  unfolding setter_safe_def by blast

lemma wrap_panic [simp]: "wrap (\<lambda>e. f e) e = ScanPanic \<longleftrightarrow> e = ScanPanic \<or> f e = ScanPanic"
  by (simp add: wrap_def)

definition cell_safe :: "go_type \<Rightarrow> cell_setter \<Rightarrow> bool" where
  "cell_safe t s \<longleftrightarrow> (\<forall>raw v v' e. typed t v \<longrightarrow> s raw v = (v', e) \<longrightarrow> typed t v' \<and> e \<noteq> Some ScanPanic)"

lemma plain_safe: "cell_safe t s \<Longrightarrow> setter_safe calm t (plain_setter s)"
  unfolding cell_safe_def setter_safe_def plain_setter_def by blast

text \<open>Membership in a type, by its underlying type.\<close>

lemma typed_by_kind:
  "underlying t = TBool \<Longrightarrow> typed t (VBool b)" "underlying t = TInt k \<Longrightarrow> in_kind k i \<Longrightarrow> typed t (VInt i)"
  "underlying t = TFloat32 \<Longrightarrow> n < 2 ^ 32 \<Longrightarrow> typed t (VFloat n)" "underlying t = TFloat64 \<Longrightarrow> n < 2 ^ 64 \<Longrightarrow> typed t (VFloat n)"
  "underlying t = TString \<Longrightarrow> typed t (VString s)"
  by (subst typed_underlying [symmetric], simp)+

lemma typed_bytes: "is_bytes t \<Longrightarrow> typed t (VBytes x)" "is_bytes t \<Longrightarrow> typed t (VSlice None)"
  by (subst typed_underlying [symmetric]; cases "underlying t"; simp add: is_bytes_def VBytes_def)+

lemma log2_less: "n < 2 ^ k \<Longrightarrow> 0 < k \<Longrightarrow> log2 n < k"
proof (induction n arbitrary: k rule: log2.induct)
  case (1 n)
  show ?case
  proof (cases "n < 2")
    case False
    then have "1 < k"
      using "1.prems" by (cases "k = 1") auto
    moreover have "n div 2 < 2 ^ (k - 1)"
      using "1.prems" by (cases k) auto
    ultimately have "log2 (n div 2) < k - 1"
      using "1.IH" [OF False] by simp
    then show ?thesis
      using False by (subst log2.simps) simp
  qed (use "1.prems" in \<open>simp add: log2.simps\<close>)
qed

lemma log2_bounds: "0 < n \<Longrightarrow> 2 ^ log2 n \<le> n \<and> n < 2 ^ (log2 n + 1)"
proof (induction n rule: log2.induct)
  case (1 n)
  show ?case
  proof (cases "n < 2")
    case True
    then show ?thesis
      using "1.prems" by (simp add: log2.simps)
  next
    case False
    then have "2 ^ log2 (n div 2) \<le> n div 2 \<and> n div 2 < 2 ^ (log2 (n div 2) + 1)"
      using "1.IH" by simp
    then show ?thesis
      using False by (subst (1 2) log2.simps) auto
  qed
qed

lemma float64_of_32_bound: "b < 2 ^ 32 \<Longrightarrow> float64_of_32 b < 2 ^ 64"
proof -
  assume b: "b < 2 ^ 32"
  define s e m where "s = b div 2 ^ 31" and "e = b div 2 ^ 23 mod 2 ^ 8" and "m = b mod 2 ^ 23"
  have s: "s \<le> 1"
    using b by (simp add: s_def div_le_mono [of b "2 ^ 32 - 1" "2 ^ 31", simplified] less_Suc_eq_le)
  have e: "e < 256" and m: "m < 2 ^ 23"
    by (simp_all add: e_def m_def)
  have sub: "(874 + log2 m) * 2 ^ 52 + (m - 2 ^ log2 m) * 2 ^ (52 - log2 m) < 2 ^ 63" if "m \<noteq> 0"
  proof -
    have k: "log2 m < 23" "2 ^ log2 m \<le> m" "m < 2 ^ (log2 m + 1)"
      using log2_less [OF m] log2_bounds [of m] that by auto
    have "(m - 2 ^ log2 m) * 2 ^ (52 - log2 m) < 2 ^ log2 m * 2 ^ (52 - log2 m)"
      using k by simp
    also have "\<dots> = 2 ^ 52"
      using k(1) by (simp flip: power_add)
    finally show ?thesis
      using k(1) by simp
  qed
  show ?thesis
    using s e m sub unfolding float64_of_32_def Let_def s_def [symmetric] e_def [symmetric] m_def [symmetric]
    by (auto split: if_splits)
qed

text \<open>The scalar setters.\<close>

lemma cell_safeI:
  "(\<And>raw v v' e. typed t v \<Longrightarrow> s raw v = (v', e) \<Longrightarrow> typed t v' \<and> e \<noteq> Some ScanPanic) \<Longrightarrow> cell_safe t s"
  unfolding cell_safe_def by blast

lemma exact_setter_safe: "(\<And>r x. length r = n \<Longrightarrow> f r = Some x \<Longrightarrow> typed t x) \<Longrightarrow> cell_safe t (exact_setter n f)"
  by (rule cell_safeI) (auto simp: exact_setter_def split: option.splits if_splits)

lemma intSetter_safe: "intSetter t w = Some s \<Longrightarrow> cell_safe t s"
  by (rule cell_safeI) (auto simp: intSetter_def intro!: typed_by_kind(2) in_kind_to_kind split: go_type.splits option.splits if_splits)

lemma string_setters_safe:
  "underlying t = TString \<Longrightarrow> cell_safe t stringSetter" "underlying t = TString \<Longrightarrow> cell_safe t jsonbStringSetter"
  "underlying t = TString \<Longrightarrow> cell_safe t uuidStringSetter" "is_bytes t \<Longrightarrow> cell_safe t (byteSliceSetter b)"
  "underlying t = TBool \<Longrightarrow> cell_safe t boolSetter"
  by (rule cell_safeI; auto simp: stringSetter_def jsonbStringSetter_def uuidStringSetter_def byteSliceSetter_def boolSetter_def
      intro: typed_by_kind typed_bytes split: option.splits if_splits)+

lemma usec_time_typed: "typed TTime (usec_time u)"
  using pos_mod_bound [of 1000000 u] by (simp add: usec_time_def pgUsecToTime_exact)

lemma time_setters_safe: "cell_safe TTime dateSetter" "cell_safe TTime timestampSetter"
  unfolding dateSetter_def timestampSetter_def Let_def
  by (rule exact_setter_safe; simp only: if_distrib split: if_splits; use usec_time_typed in auto)+

lemma unat_beU32: "unat (beU32 r) < 2 ^ 32" and unat_beU64: "unat (beU64 r) < 2 ^ 64"
  using unsigned_less [of "beU32 r"] unsigned_less [of "beU64 r"] by simp_all

lemma float_setters_safe:
  "underlying t = TFloat32 \<or> underlying t = TFloat64 \<Longrightarrow> cell_safe t (exact_setter 4 (\<lambda>r. Some (float4_val t r)))"
  "underlying t = TFloat64 \<Longrightarrow> cell_safe t (exact_setter 8 (\<lambda>r. Some (VFloat (unat (beU64 r)))))"
  by (rule exact_setter_safe; use unat_beU32 unat_beU64 float64_of_32_bound in \<open>force simp: float4_val_def intro: typed_by_kind\<close>)+

lemma uuid_array_safe: "is_uuid_array t \<Longrightarrow> cell_safe t (exact_setter 16 (\<lambda>r. Some (VArr (map (\<lambda>x. VInt (uint x)) r))))"
  by (rule exact_setter_safe, subst typed_underlying [symmetric]) (auto simp: is_uuid_array_def split: go_type.splits)

lemma pickBinarySetter_safe: "pickBinarySetter oid t = Inr s \<Longrightarrow> cell_safe t s"
  unfolding pickBinarySetter_def Let_def
  by (simp only: split: if_splits option.splits;
      auto intro: intSetter_safe string_setters_safe time_setters_safe float_setters_safe uuid_array_safe)

lemma pickTextSetter_safe: "pickTextSetter oid t = Inr s \<Longrightarrow> cell_safe t s"
  by (auto simp: pickTextSetter_def intro: string_setters_safe split: if_splits)

text \<open>Ranges.\<close>

lemma typed_range: "typed rangeBytesType (range_val rb)"
  using typed_bytes [of "TSlice (TInt KUint8)"] uint_bounded [of "rb_Flags rb"]
  by (auto simp: rangeBytesType_def range_val_def Let_def in_kind_def kind_signed_def is_bytes_def split: option.splits)

lemma rangeSetter_result: "rangeSetter raw v = (v', e) \<Longrightarrow> (v' = v \<or> (\<exists>rb. v' = range_val rb)) \<and> e \<noteq> Some ScanPanic"
  by (auto simp: rangeSetter_def read_bound_def Let_def split: option.splits list.splits if_splits sum.splits prod.splits)

lemma rangeSetter_safe: "cell_safe rangeBytesType rangeSetter"
  by (rule cell_safeI, drule rangeSetter_result) (auto intro: typed_range)

text \<open>User code.\<close>

lemma scannerSetter_safe: "env_ok env \<Longrightarrow> \<not> calm \<Longrightarrow> setter_safe calm t (plain_setter (scannerSetter env oid fmt t))"
  by (auto simp: setter_safe_def plain_setter_def scannerSetter_def scan_method_def env_ok_def Let_def
      split: option.splits prod.splits) (metis fst_conv)+

text \<open>The wrappers.\<close>

lemma null_type_shape:
  "map_of null_types t = Some inner \<Longrightarrow> typed t v \<longleftrightarrow> (\<exists>x b. v = VStruct [x, VBool b] \<and> typed inner x)"
  by (drule map_of_SomeD) (auto simp: null_types_def null_type_def list_all2_Cons1)

lemma nullSetterWrap_safe:
  assumes "map_of null_types t = Some inner" "setter_safe calm inner s"
  shows "setter_safe calm t (nullSetterWrap s)"
proof -
  have "typed t v' \<and> (calm \<longrightarrow> e \<noteq> Some ScanPanic)"
    if v: "typed t v" and w: "nullSetterWrap s cache raw v = (cache', v', e)" for cache raw v cache' v' e
  proof -
    obtain x b where x: "v = VStruct [x, VBool b]" "typed inner x"
      using v null_type_shape [OF assms(1)] by blast
    have t: "typed t (VStruct [y, VBool c]) \<longleftrightarrow> typed inner y" for y c
      using null_type_shape [OF assms(1)] by simp
    show ?thesis
    proof (cases raw)
      case None
      then show ?thesis
        using w x t by (auto simp: nullSetterWrap_def)
    next
      case (Some r)
      obtain c1 x1 e1 where s: "s cache (Some r) x = (c1, x1, e1)"
        by (rule prod_cases3)
      then show ?thesis
        using w x t Some setter_safeD [OF assms(2) x(2) s] by (cases e1) (auto simp: nullSetterWrap_def)
    qed
  qed
  then show ?thesis
    unfolding setter_safe_def by blast
qed

lemma pointerSetter_safe:
  assumes "underlying t = TPtr e" "setter_safe calm e s"
  shows "setter_safe calm t (pointerSetter s e)"
  unfolding setter_safe_def typed_underlying [symmetric, of t] assms(1)
  by (auto simp: pointerSetter_def split: option.splits prod.splits dest: setter_safeD [OF assms(2) typed_zero])

text \<open>Arrays.\<close>

lemma elem_loop_safe:
  assumes "setter_safe calm t s"
  shows "list_all (typed t) vs \<Longrightarrow> elem_loop s i cache raw vs = (cache', vs', r) \<Longrightarrow>
    list_all (typed t) vs' \<and> length vs' = length vs \<and> (calm \<longrightarrow> r \<noteq> Inl ScanPanic)"
proof (induction vs arbitrary: i cache raw cache' vs' r)
  case (Cons v vs)
  have v: "typed t v" "list_all (typed t) vs"
    using Cons.prems(1) by simp_all
  show ?case
  proof (cases "readArrayElem raw i")
    case (Inl e)
    then show ?thesis
      using Cons.prems by (auto simp: readArrayElem_def Let_def split: if_splits)
  next
    case (Inr x)
    obtain c1 v1 e1 where s: "s cache (fst x) v = (c1, v1, e1)"
      by (metis prod_cases3)
    note safe = setter_safeD [OF assms v(1) s]
    show ?thesis
    proof (cases e1)
      case None
      obtain c2 vs2 r2 where l: "elem_loop s (i + 1) c1 (snd x) vs = (c2, vs2, r2)"
        by (rule prod_cases3)
      then show ?thesis
        using Cons.IH [OF v(2) l] Cons.prems(2) Inr s None safe by (cases x) auto
    next
      case (Some e)
      then show ?thesis
        using Cons.prems Inr s safe v(2) by (cases x) (auto simp: wrap_def split: if_splits)
    qed
  qed
qed simp

lemma list_all_replicate: "P x \<Longrightarrow> list_all P (replicate n x)"
  by (simp add: list_all_iff)

lemma arraySetter1_safe:
  assumes "underlying t = TSlice e" "setter_safe calm e s"
  shows "setter_safe calm t (arraySetter1 s e)"
proof -
  have zeros: "list_all (typed e) (replicate n (zero_val e))" for n
    by (simp add: list_all_replicate typed_zero)
  show ?thesis
    unfolding setter_safe_def typed_underlying [symmetric, of t] assms(1)
    by (auto simp: arraySetter1_def Let_def split: option.splits if_splits prod.splits sum.splits
        dest: elem_loop_safe [OF assms(2) zeros])
qed

lemma outer_loop_safe:
  assumes "setter_safe calm e s" "underlying l = TSlice e" "list_all (typed e) zeros"
  shows "list_all (typed l) vs \<Longrightarrow> outer_loop s zeros i cache raw vs = (cache', vs', r) \<Longrightarrow>
    list_all (typed l) vs' \<and> (calm \<longrightarrow> r \<noteq> Some ScanPanic)"
proof (induction vs arbitrary: i cache raw cache' vs' r)
  case (Cons v vs)
  obtain c1 xs r1 where l: "elem_loop s (i * length zeros) cache raw zeros = (c1, xs, r1)"
    by (rule prod_cases3)
  note safe = elem_loop_safe [OF assms(1,3) l]
  then have row: "typed l (VSlice (Some xs))"
    by (subst typed_underlying [symmetric]) (simp add: assms(2))
  show ?case
  proof (cases r1)
    case (Inl e)
    then show ?thesis
      using Cons.prems l safe row by auto
  next
    case (Inr raw1)
    obtain c2 vs2 r2 where o: "outer_loop s zeros (i + 1) c1 raw1 vs = (c2, vs2, r2)"
      by (rule prod_cases3)
    then show ?thesis
      using Cons.IH [OF _ o] Cons.prems l Inr row by auto
  qed
qed simp

lemma arraySetter2_safe:
  assumes "underlying t = TSlice l" "underlying l = TSlice e" "setter_safe calm e s"
  shows "setter_safe calm t (arraySetter2 s e)"
proof -
  have zeros: "list_all (typed e) (replicate n (zero_val e))" for n
    by (simp add: list_all_replicate typed_zero)
  have rows: "list_all (typed l) (replicate n (VSlice None))" for n
    using typed_underlying [of l "VSlice None"] by (simp add: list_all_replicate assms(2))
  show ?thesis
    unfolding setter_safe_def typed_underlying [symmetric, of t] assms(1)
    by (auto simp: arraySetter2_def Let_def split: option.splits if_splits prod.splits
        dest: outer_loop_safe [OF assms(3,2) zeros rows])
qed

text \<open>Composites: each setter is for the type of the field it fills.\<close>

definition picks_safe :: "bool \<Rightarrow> go_field list \<Rightarrow> (nat \<times> (OID \<Rightarrow> scan_error + setter)) list \<Rightarrow> bool" where
  "picks_safe calm fs picks \<longleftrightarrow>
     (\<forall>(j, pick) \<in> set picks. j < length fs \<and>
        (\<forall>oid. (\<forall>s. pick oid = Inr s \<longrightarrow> setter_safe calm (f_type (fs ! j)) s) \<and> pick oid \<noteq> Inl ScanPanic))"

lemma wrap_not_panic: "e \<noteq> ScanPanic \<Longrightarrow> f e \<noteq> ScanPanic \<Longrightarrow> wrap f e \<noteq> ScanPanic"
  by (simp add: wrap_def)

lemma read_field_error: "read_field raw i = Inl e \<Longrightarrow> e \<noteq> ScanPanic"
  by (auto simp: read_field_def Let_def split: if_splits)

lemma comp_field_safe:
  assumes "picks_safe calm fs picks" "list_all2 (\<lambda>f v. typed (f_type f) v) fs vs"
    and "comp_field p picks i cache oid fieldRaw vs = (cache', vs', e)"
  shows "list_all2 (\<lambda>f v. typed (f_type f) v) fs vs' \<and> (calm \<longrightarrow> e \<noteq> Some ScanPanic)"
proof (cases "i < length picks")
  case True
  obtain j pick where jp: "picks ! i = (j, pick)"
    by fastforce
  define oid' where "oid' = (case cache (p @ [i]) of Some o' \<Rightarrow> o' | None \<Rightarrow> oid)"
  have "(j, pick) \<in> set picks"
    using True jp nth_mem by metis
  then have j: "j < length fs" and safe: "\<And>s. pick oid' = Inr s \<Longrightarrow> setter_safe calm (f_type (fs ! j)) s" "pick oid' \<noteq> Inl ScanPanic"
    using assms(1) unfolding picks_safe_def by auto
  show ?thesis
  proof (cases "pick oid'")
    case (Inl e1)
    then show ?thesis
      using assms(2,3) True jp safe(2) wrap_not_panic by (auto simp: comp_field_def Let_def simp flip: oid'_def)
  next
    case (Inr setr)
    obtain c1 v1 e1 where s: "setr (cache(p @ [i] \<mapsto> oid')) fieldRaw (vs ! j) = (c1, v1, e1)"
      by (rule prod_cases3)
    have "typed (f_type (fs ! j)) (vs ! j)"
      using assms(2) j by (simp add: list_all2_conv_all_nth)
    note sv = setter_safeD [OF safe(1) [OF Inr] this s]
    have "list_all2 (\<lambda>f v. typed (f_type f) v) fs (vs[j := v1])"
      using assms(2) sv j by (auto simp: list_all2_conv_all_nth nth_list_update)
    then show ?thesis
      using assms(3) True jp Inr s sv wrap_not_panic by (auto simp: comp_field_def Let_def simp flip: oid'_def)
  qed
qed (use assms in \<open>auto simp: comp_field_def\<close>)

lemma comp_loop_safe:
  assumes "picks_safe calm fs picks"
  shows "list_all2 (\<lambda>f v. typed (f_type f) v) fs vs \<Longrightarrow> comp_loop p picks n i cache raw vs = (cache', vs', e) \<Longrightarrow>
    list_all2 (\<lambda>f v. typed (f_type f) v) fs vs' \<and> (calm \<longrightarrow> e \<noteq> Some ScanPanic)"
proof (induction n arbitrary: i cache raw vs cache' vs' e)
  case (Suc n)
  show ?case
  proof (cases "read_field raw i")
    case (Inl e1)
    then show ?thesis
      using Suc.prems read_field_error by auto
  next
    case (Inr x)
    obtain oid fr rest where x: "x = (oid, fr, rest)"
      by (rule prod_cases3)
    obtain c1 ws e1 where c: "comp_field p picks i cache oid fr vs = (c1, ws, e1)"
      by (rule prod_cases3)
    show ?thesis
      using comp_field_safe [OF assms Suc.prems(1) c] Suc.prems(2) Inr x c Suc.IH by (cases e1) auto
  qed
qed simp

lemma compositeSetter_safe:
  assumes "underlying t = TStruct fs" "picks_safe calm fs picks"
  shows "setter_safe calm t (compositeSetter p picks t)"
proof -
  have "typed t v' \<and> (calm \<longrightarrow> e \<noteq> Some ScanPanic)"
    if v: "typed t v" and w: "compositeSetter p picks t cache raw v = (cache', v', e)" for cache raw v cache' v' e
  proof -
    obtain vs where vs: "v = VStruct vs" "list_all2 (\<lambda>f v. typed (f_type f) v) fs vs"
      using v typed_underlying [of t v] assms(1) by auto
    have t: "typed t (VStruct ws) \<longleftrightarrow> list_all2 (\<lambda>f v. typed (f_type f) v) fs ws" for ws
      using typed_underlying [of t "VStruct ws"] assms(1) by simp
    show ?thesis
    proof (cases raw)
      case None
      then show ?thesis
        using w typed_zero by (auto simp: compositeSetter_def)
    next
      case (Some r)
      obtain c1 ws e1 where l: "comp_loop p picks (nat (beI32 r)) 0 cache (drop 4 r) vs = (c1, ws, e1)"
        by (rule prod_cases3)
      then show ?thesis
        using w v t vs Some comp_loop_safe [OF assms(2) vs(2) l] by (auto simp: compositeSetter_def Let_def split: if_splits)
    qed
  qed
  then show ?thesis
    unfolding setter_safe_def by blast
qed

text \<open>Every setter that the dispatch gives.\<close>

lemma array_leaf_0: "array_leaf t = (0, l) \<Longrightarrow> l = t"
  by (subst (asm) array_leaf.simps) (simp split: go_type.splits if_splits prod.splits)

lemma array_leaf_Suc: "array_leaf t = (Suc d, l) \<Longrightarrow> \<exists>e. underlying t = TSlice e \<and> array_leaf e = (d, l)"
  by (subst (asm) array_leaf.simps) (simp split: go_type.splits if_splits prod.splits)

lemma array_leaf_shape:
  "array_leaf t = (d, l) \<Longrightarrow> underlying l = TSlice e \<Longrightarrow>
     (d = 0 \<longrightarrow> underlying t = TSlice e) \<and> (d = 1 \<longrightarrow> underlying t = TSlice l)"
  using array_leaf_0 array_leaf_Suc by (metis One_nat_def)

lemma composite_fields_at:
  "(j, ft) \<in> set (composite_fields t) \<Longrightarrow> underlying t = TStruct fs \<Longrightarrow> j < length fs \<and> ft = f_type (fs ! j)"
  by (auto simp: composite_fields_def fields_of_def in_set_enumerate_eq)

lemma pickBinarySetter_error: "pickBinarySetter oid t = Inl e \<Longrightarrow> e \<noteq> ScanPanic"
  unfolding pickBinarySetter_def Let_def by (simp only: split: if_splits option.splits; auto)

lemma pickTextSetter_error: "pickTextSetter oid t = Inl e \<Longrightarrow> e \<noteq> ScanPanic"
  by (auto simp: pickTextSetter_def split: if_splits)

definition pick_ok :: "bool \<Rightarrow> go_type \<Rightarrow> scan_error + setter \<Rightarrow> bool" where
  "pick_ok calm t r = (case r of Inl e \<Rightarrow> e \<noteq> ScanPanic | Inr s \<Rightarrow> setter_safe calm t s)"

lemma pick_plain_ok: "pick_ok calm t (map_sum id plain_setter (if fmt = 1 then pickBinarySetter oid t else pickTextSetter oid t))"
proof (cases "if fmt = 1 then pickBinarySetter oid t else pickTextSetter oid t")
  case (Inl e)
  then have "e \<noteq> ScanPanic"
    by (simp split: if_splits add: pickBinarySetter_error pickTextSetter_error)
  then show ?thesis
    unfolding Inl by (simp add: pick_ok_def)
next
  case (Inr s)
  then have "cell_safe t s"
    by (simp split: if_splits add: pickBinarySetter_safe pickTextSetter_safe)
  then show ?thesis
    unfolding Inr by (simp add: pick_ok_def plain_safe)
qed

text \<open>The dispatch, case by case.\<close>

lemma pickSetter_cases:
  obtains (wrapped) u s where "map_of null_types t = Some u" "pickSetter env p oid fmt u = Inr s"
      "pickSetter env p oid fmt t = Inr (nullSetterWrap s)"
  | (scan) "se_scans env t" "pickSetter env p oid fmt t = Inr (plain_setter (scannerSetter env oid fmt t))"
  | (range) "t = rangeBytesType" "pickSetter env p oid fmt t = Inr (plain_setter rangeSetter)"
  | (comp) fs where "underlying t = TStruct fs"
      "pickSetter env p oid fmt t =
         Inr (compositeSetter p (map (\<lambda>(k, j, ft). (j, \<lambda>o'. pickSetter env (p @ [k]) o' 1 ft)) (enumerate 0 (composite_fields t))) t)"
  | (array_bad) e where "pickSetter env p oid fmt t = Inl e" "e \<noteq> ScanPanic"
  | (array1) e s where "underlying t = TSlice e" "pickSetter env p (ArrayElem oid) 1 e = Inr s" "pickSetter env p oid fmt t = Inr (arraySetter1 s e)"
  | (array2) l e s where "underlying t = TSlice l" "underlying l = TSlice e" "pickSetter env p (ArrayElem oid) 1 e = Inr s"
      "pickSetter env p oid fmt t = Inr (arraySetter2 s e)"
  | (ptr) e where "underlying t = TPtr e"
      "pickSetter env p oid fmt t = (case pickSetter env p oid fmt e of Inl x \<Rightarrow> Inl x | Inr s \<Rightarrow> Inr (pointerSetter s e))"
  | (plain) "pickSetter env p oid fmt t = map_sum id plain_setter (if fmt = 1 then pickBinarySetter oid t else pickTextSetter oid t)"
proof -
  let ?null = "case map_of null_types t of
      Some inner \<Rightarrow> (case pickSetter env p oid fmt inner of Inr s \<Rightarrow> Some (nullSetterWrap s) | Inl e \<Rightarrow> None)
    | None \<Rightarrow> None"
  show thesis
  proof (cases ?null)
    case (Some s)
    then obtain inner s' where i: "map_of null_types t = Some inner" "pickSetter env p oid fmt inner = Inr s'" "s = nullSetterWrap s'"
      by (auto split: option.splits sum.splits)
    have "pickSetter env p oid fmt t = Inr s"
      using Some by (subst pickSetter.simps) simp
    then show ?thesis
      using wrapped i by blast
  next
    case None
    note eq = pickSetter.simps [of env p oid fmt t, unfolded None option.case]
    consider (scan') "se_scans env t \<and> \<not> is_null_type t"
      | (range') "\<not> (se_scans env t \<and> \<not> is_null_type t)" "fmt = 1 \<and> IsRange oid \<and> t = rangeBytesType"
      | (comp') "\<not> (se_scans env t \<and> \<not> is_null_type t)" "\<not> (fmt = 1 \<and> IsRange oid \<and> t = rangeBytesType)"
          "fmt = 1 \<and> is_struct t \<and> t \<noteq> TTime \<and> t \<noteq> rangeBytesType \<and> \<not> is_null_type t \<and> composite_fields t \<noteq> []"
      | (arr) "\<not> (se_scans env t \<and> \<not> is_null_type t)" "\<not> (fmt = 1 \<and> IsRange oid \<and> t = rangeBytesType)"
          "\<not> (fmt = 1 \<and> is_struct t \<and> t \<noteq> TTime \<and> t \<noteq> rangeBytesType \<and> \<not> is_null_type t \<and> composite_fields t \<noteq> [])"
          "ArrayElem oid \<noteq> 0 \<and> is_plain_slice t"
      | (rest) "\<not> (se_scans env t \<and> \<not> is_null_type t)" "\<not> (fmt = 1 \<and> IsRange oid \<and> t = rangeBytesType)"
          "\<not> (fmt = 1 \<and> is_struct t \<and> t \<noteq> TTime \<and> t \<noteq> rangeBytesType \<and> \<not> is_null_type t \<and> composite_fields t \<noteq> [])"
          "\<not> (ArrayElem oid \<noteq> 0 \<and> is_plain_slice t)"
      by blast
    then show ?thesis
    proof cases
      case scan'
      have "pickSetter env p oid fmt t = Inr (plain_setter (scannerSetter env oid fmt t))"
        unfolding eq if_P [OF scan'] ..
      then show ?thesis
        using scan scan' by blast
    next
      case range'
      have "pickSetter env p oid fmt t = Inr (plain_setter rangeSetter)"
        unfolding eq if_not_P [OF range'(1)] if_P [OF range'(2)] ..
      then show ?thesis
        using range range' by blast
    next
      case comp'
      have "pickSetter env p oid fmt t =
          Inr (compositeSetter p (map (\<lambda>(k, j, ft). (j, \<lambda>o'. pickSetter env (p @ [k]) o' 1 ft)) (enumerate 0 (composite_fields t))) t)"
        unfolding eq if_not_P [OF comp'(1)] if_not_P [OF comp'(2)] if_P [OF comp'(3)] ..
      moreover obtain fs where "underlying t = TStruct fs"
        using comp'(3) by (cases "underlying t") (auto simp: composite_fields_def fields_of_def is_struct_def)
      ultimately show ?thesis
        using comp by blast
    next
      case arr
      obtain d leaf where l: "array_leaf t = (d, leaf)"
        by fastforce
      note eq' = eq [unfolded if_not_P [OF arr(1)] if_not_P [OF arr(2)] if_not_P [OF arr(3)] if_P [OF arr(4)] l Let_def prod.case]
      show ?thesis
      proof (cases "fmt = 1 \<and> (\<exists>e. underlying leaf = TSlice e) \<and> d < 2")
        case False
        then have "\<exists>e. pickSetter env p oid fmt t = Inl e \<and> e \<noteq> ScanPanic"
          using eq' by (auto split: if_splits go_type.splits)
        then show ?thesis
          using array_bad by blast
      next
        case True
        then obtain e where e: "underlying leaf = TSlice e" "d = 0 \<or> d = 1"
          by fastforce
        note shape = array_leaf_shape [OF l e(1)]
        show ?thesis
        proof (cases "pickSetter env p (ArrayElem oid) 1 e")
          case (Inl x)
          then show ?thesis
            using eq' e True by (intro array_bad [of "ArrayElemPick x"]) auto
        next
          case (Inr s)
          then show ?thesis
            using eq' e True shape array1 array2 by auto
        qed
      qed
    next
      case rest
      note eq' = eq [unfolded if_not_P [OF rest(1)] if_not_P [OF rest(2)] if_not_P [OF rest(3)] if_not_P [OF rest(4)]]
      show ?thesis
      proof (cases "\<exists>e. underlying t = TPtr e")
        case True
        then show ?thesis
          using eq' ptr by auto
      next
        case False
        then show ?thesis
          using eq' by (intro plain) (simp split: go_type.splits)
      qed
    qed
  qed
qed

lemma pickSetter_ok:
  assumes "env_ok env" "calm \<longrightarrow> no_scanners env"
  shows "pick_ok calm t (pickSetter env p oid fmt t)"
proof (induction t arbitrary: p oid fmt rule: measure_induct_rule [where f = size])
  case (less t)
  have IH: "setter_safe calm u s" if "size u < size t" "pickSetter env q o' f u = Inr s" for u s q o' f
    using less [OF that(1), of q o' f] that(2) by (simp add: pick_ok_def)
  have IH': "e \<noteq> ScanPanic" if "size u < size t" "pickSetter env q o' f u = Inl e" for u e q o' f
    using less [OF that(1), of q o' f] that(2) by (simp add: pick_ok_def)
  show ?case
  proof (cases rule: pickSetter_cases [of t env p oid fmt])
    case (wrapped u s)
    then show ?thesis
      using nullSetterWrap_safe [OF wrapped(1)] IH [OF null_type_smaller [OF wrapped(1)]] by (simp add: pick_ok_def)
  next
    case scan
    then have "\<not> calm"
      using assms(2) by (auto simp: no_scanners_def)
    then show ?thesis
      using scan scannerSetter_safe [OF assms(1)] by (simp add: pick_ok_def)
  next
    case range
    then show ?thesis
      using plain_safe [OF rangeSetter_safe] by (simp add: pick_ok_def)
  next
    case (comp fs)
    have "pick_ok calm (f_type (fs ! j)) (pickSetter env (p @ [k]) o' 1 ft) \<and> j < length fs"
      if "(k, j, ft) \<in> set (enumerate 0 (composite_fields t))" for k j ft o'
      using less composite_fields_smaller composite_fields_at [OF _ comp(1)] composite_enumerate [OF that] by metis
    then have "picks_safe calm fs
        (map (\<lambda>(k, j, ft). (j, \<lambda>o'. pickSetter env (p @ [k]) o' 1 ft)) (enumerate 0 (composite_fields t)))"
      unfolding picks_safe_def by (fastforce simp: pick_ok_def split: sum.splits)
    then show ?thesis
      using comp(2) compositeSetter_safe [OF comp(1)] by (simp add: pick_ok_def)
  next
    case (array1 e s)
    then show ?thesis
      using arraySetter1_safe [OF array1(1)] IH [OF underlying_smaller(1) [OF array1(1)]] by (simp add: pick_ok_def)
  next
    case (array2 l e s)
    have "size e < size t"
      using underlying_smaller(1) array2(1,2) less_trans by blast
    then show ?thesis
      using array2 arraySetter2_safe [OF array2(1,2)] IH by (simp add: pick_ok_def)
  next
    case (ptr e)
    then show ?thesis
      using pointerSetter_safe [OF ptr(1)] IH [OF underlying_smaller(2) [OF ptr(1)], of p oid fmt]
        IH' [OF underlying_smaller(2) [OF ptr(1)], of p oid fmt]
      by (auto simp: pick_ok_def split: sum.splits)
  next
    case plain
    then show ?thesis
      by (simp only: pick_plain_ok)
  qed (simp add: pick_ok_def)
qed

text \<open>Every setter leaves the zero value on NULL.\<close>

lemma zero_underlying: "zero_val (underlying t) = zero_val t"
  by (induction t) auto

lemma zero_by_kind:
  "underlying t = TBool \<Longrightarrow> zero_val t = VBool False" "underlying t = TString \<Longrightarrow> zero_val t = VString []"
  "underlying t = TPtr u \<Longrightarrow> zero_val t = VPtr None" "underlying t = TSlice u \<Longrightarrow> zero_val t = VSlice None"
  "underlying t = TStruct fs \<Longrightarrow> zero_val t = VStruct (map zero_field fs)"
  by (simp_all add: zero_underlying [of t, symmetric])

lemma zero_bytes: "is_bytes t \<Longrightarrow> zero_val t = VSlice None"
  by (cases "underlying t") (auto simp: is_bytes_def zero_by_kind)

lemma pickBinarySetter_null: "pickBinarySetter oid t = Inr c \<Longrightarrow> c None (zero_val t) = (zero_val t, None)"
  unfolding pickBinarySetter_def Let_def
  by (simp only: split: if_splits option.splits;
      auto simp: intSetter_def boolSetter_def exact_setter_def stringSetter_def byteSliceSetter_def uuidStringSetter_def
        jsonbStringSetter_def dateSetter_def timestampSetter_def zero_by_kind zero_bytes split: go_type.splits)

lemma pickTextSetter_null: "pickTextSetter oid t = Inr c \<Longrightarrow> c None (zero_val t) = (zero_val t, None)"
  by (auto simp: pickTextSetter_def stringSetter_def byteSliceSetter_def zero_by_kind zero_bytes split: if_splits)

definition null_kept :: "go_type \<Rightarrow> setter \<Rightarrow> bool" where
  "null_kept t s \<longleftrightarrow> (\<forall>cache. s cache None (zero_val t) = (cache, zero_val t, None))"

lemma null_type_zero: "map_of null_types t = Some u \<Longrightarrow> zero_val t = VStruct [zero_val u, VBool False]"
  by (drule map_of_SomeD) (auto simp: null_types_def null_type_def)

lemma pickSetter_null:
  assumes "no_scanners env" "pickSetter env p oid fmt t = Inr s"
  shows "null_kept t s"
  using assms(2)
proof (cases rule: pickSetter_cases [of t env p oid fmt])
  case (wrapped u s')
  then show ?thesis
    using assms(2) by (simp add: null_kept_def nullSetterWrap_def null_type_zero)
next
  case scan
  then show ?thesis
    using assms(1) by (simp add: no_scanners_def)
next
  case range
  then show ?thesis
    using assms(2) by (auto simp: null_kept_def plain_setter_def rangeSetter_def range_val_def rangeBytesType_def)
next
  case (comp fs)
  then show ?thesis
    using assms(2) by (auto simp: null_kept_def compositeSetter_def)
next
  case (array1 e s')
  then show ?thesis
    using assms(2) by (auto simp: null_kept_def arraySetter1_def zero_by_kind)
next
  case (array2 l e s')
  then show ?thesis
    using assms(2) by (auto simp: null_kept_def arraySetter2_def zero_by_kind)
next
  case (ptr e)
  then show ?thesis
    using assms(2) by (auto simp: null_kept_def pointerSetter_def zero_by_kind split: sum.splits)
next
  case plain
  then obtain c where "s = plain_setter c" "pickBinarySetter oid t = Inr c \<or> pickTextSetter oid t = Inr c"
    using assms(2) by (cases "fmt = 1"; cases "pickBinarySetter oid t"; cases "pickTextSetter oid t") auto
  then show ?thesis
    using pickBinarySetter_null pickTextSetter_null by (auto simp: null_kept_def plain_setter_def)
qed simp

section \<open>Rows keep types\<close>

lemma beI_kinds:
  "k \<in> {KInt16, KInt32, KInt64, KInt} \<Longrightarrow> in_kind k (beI16 r)" "k \<in> {KInt32, KInt64, KInt} \<Longrightarrow> in_kind k (beI32 r)"
  "k \<in> {KInt64, KInt} \<Longrightarrow> in_kind k (beI64 r)"
  using beI16_bounds [of r] beI32_bounds [of r] beI64_bounds [of r] by (auto simp: in_kind_def kind_signed_def)

lemma inline_store_typed: "inline_store (inlineOpFor oid fmt t) raw = Some x \<Longrightarrow> typed t x"
  unfolding inlineOpFor_def Let_def
  by (simp only: split: if_splits;
      auto simp: inline_store_def split: if_splits
        intro: typed_by_kind typed_bytes beI_kinds unat_beU32 unat_beU64 float64_of_32_bound)

text \<open>The type at a path of field positions, through embedded structs.\<close>

fun at_path :: "nat list \<Rightarrow> go_type \<Rightarrow> go_type \<Rightarrow> bool" where
  "at_path [] t ft \<longleftrightarrow> ft = t"
| "at_path (i # p) t ft \<longleftrightarrow> i < length (fields_of t) \<and> at_path p (f_type (fields_of t ! i)) ft"

lemma at_path_snoc:
  "at_path p t u \<Longrightarrow> i < length (fields_of u) \<Longrightarrow> at_path (p @ [i]) t (f_type (fields_of u ! i))"
  by (induction p t u rule: at_path.induct) auto

lemma typed_fields:
  "typed t v \<Longrightarrow> i < length (fields_of t) \<Longrightarrow>
     \<exists>vs. v = VStruct vs \<and> length vs = length (fields_of t) \<and> (\<forall>j < length vs. typed (f_type (fields_of t ! j)) (vs ! j))"
  by (subst (asm) typed_underlying [symmetric], cases "underlying t") (auto simp: fields_of_def list_all2_conv_all_nth)

lemma typed_fieldsI:
  "i < length (fields_of t) \<Longrightarrow> length vs = length (fields_of t) \<Longrightarrow> (\<And>j. j < length vs \<Longrightarrow> typed (f_type (fields_of t ! j)) (vs ! j)) \<Longrightarrow>
     typed t (VStruct vs)"
  by (subst typed_underlying [symmetric], cases "underlying t") (auto simp: fields_of_def list_all2_conv_all_nth)

lemma path_typed:
  "at_path p t ft \<Longrightarrow> typed t v \<Longrightarrow> typed ft (get_at p v) \<and> (typed ft x \<longrightarrow> typed t (set_at p x v))"
proof (induction p t ft arbitrary: v rule: at_path.induct)
  case (2 i p t ft)
  then obtain vs where vs: "v = VStruct vs" "length vs = length (fields_of t)"
      "\<And>j. j < length vs \<Longrightarrow> typed (f_type (fields_of t ! j)) (vs ! j)"
    using typed_fields [of t v i] by auto
  have i: "i < length (fields_of t)"
    using "2.prems" by simp
  note IH = "2.IH" [OF _ vs(3) [of i]]
  have "typed t (set_at (i # p) x v)" if "typed ft x"
    unfolding vs(1) set_at.simps
    by (rule typed_fieldsI [OF i]) (use vs(2,3) i IH "2.prems" that in \<open>auto simp: nth_list_update\<close>)
  then show ?case
    using IH "2.prems" vs(1,2) i by simp
qed simp

lemma foldl_keeps: "P a \<Longrightarrow> (\<And>a x. x \<in> set xs \<Longrightarrow> P a \<Longrightarrow> P (f a x)) \<Longrightarrow> P (foldl f a xs)"
  by (induction xs arbitrary: a) auto

text \<open>The path of a leaf field: through embedded structs, to a field that is not one.\<close>

fun leaf_path :: "nat list \<Rightarrow> go_type \<Rightarrow> go_field \<Rightarrow> bool" where
  "leaf_path [] t f \<longleftrightarrow> False"
| "leaf_path [i] t f \<longleftrightarrow> i < length (fields_of t) \<and> f = fields_of t ! i \<and> \<not> isEmbeddedFlatten f"
| "leaf_path (i # j # p) t f \<longleftrightarrow>
     i < length (fields_of t) \<and> isEmbeddedFlatten (fields_of t ! i) \<and> leaf_path (j # p) (f_type (fields_of t ! i)) f"

lemma leaf_at: "leaf_path p t f \<Longrightarrow> at_path p t (f_type f)"
  by (induction p t f rule: leaf_path.induct) auto

lemma leaf_Cons:
  "i < length (fields_of t) \<Longrightarrow> isEmbeddedFlatten (fields_of t ! i) \<Longrightarrow> leaf_path p (f_type (fields_of t ! i)) f \<Longrightarrow> leaf_path (i # p) t f"
  by (cases p) auto

definition idx_ok :: "go_type \<Rightarrow> nat list \<Rightarrow> name_idx \<Rightarrow> bool" where
  "idx_ok t base idx \<longleftrightarrow> (\<forall>k path f. idx k = Some (path, f) \<longrightarrow> (\<exists>p. path = base @ p \<and> leaf_path p t f))"

lemma own_fields_ok: "idx_ok t base (own_fields env t base)"
  unfolding own_fields_def
  by (rule foldl_keeps [where P = "idx_ok t base"]) (auto simp: idx_ok_def in_set_enumerate_eq split: if_splits)

lemma walkStructFields_ok: "idx_ok t base (walkStructFields env t base)"
proof (induction env t base rule: walkStructFields.induct)
  case (1 env t base)
  have "idx_ok t base (walkStructFields env (f_type f) (base @ [i]) ++ out)"
    if m: "(i, f) \<in> set (enumerate 0 (fields_of t))" and c: "\<not> (f_tag (f_info f) = Some [45] \<or> \<not> isEmbeddedFlatten f)"
      and o: "idx_ok t base out" for i f out
  proof -
    have i: "i < length (fields_of t)" "f = fields_of t ! i"
      using m by (auto simp: in_set_enumerate_eq)
    have "idx_ok (f_type f) (base @ [i]) (walkStructFields env (f_type f) (base @ [i]))"
      using "1.IH" [OF m refl c] by simp
    then show ?thesis
      using o i c leaf_Cons unfolding idx_ok_def map_add_Some_iff by (metis append.assoc append_Cons append_Nil)
  qed
  then show ?case
    unfolding walkStructFields.simps [of env t base] by (intro foldl_keeps [where P = "idx_ok t base"] own_fields_ok) (auto split: prod.splits)
qed

text \<open>A built setter list: each entry fills a path of its type.\<close>

definition fs_ok :: "bool \<Rightarrow> go_type \<Rightarrow> fieldSetter \<Rightarrow> bool" where
  "fs_ok calm t s \<longleftrightarrow>
     fs_skip s \<or>
     (\<exists>ft. at_path (fs_path s) t ft \<and> setter_safe calm ft (fs_set s) \<and> (\<forall>raw x. inline_store (fs_op s) raw = Some x \<longrightarrow> typed ft x))"

lemma plan_setters_ok:
  assumes "env_ok env" "calm \<longrightarrow> no_scanners env" "idx_ok t [] idx"
  shows "plan_setters env idx ci cols = Inr ss \<Longrightarrow> list_all (fs_ok calm t) ss"
proof (induction cols arbitrary: ci ss)
  case (Cons col cols)
  have skip: "fs_ok calm t skip_setter"
    by (simp add: fs_ok_def skip_setter_def)
  show ?case
  proof (cases "idx (ToLower env (Name col))")
    case None
    then show ?thesis
      using Cons skip by (cases "plan_setters env idx (ci + 1) cols") auto
  next
    case (Some pf)
    obtain path f where pf: "pf = (path, f)"
      by fastforce
    obtain s where s: "pickSetter env [ci] (TypeOID col) (Format col) (f_type f) = Inr s"
      using Cons.prems Some pf by (auto split: sum.splits)
    have "at_path path t (f_type f)" "setter_safe calm (f_type f) s"
      using pickSetter_ok [OF assms(1,2), of "f_type f" "[ci]" "TypeOID col" "Format col"] assms(3) Some s pf
      by (auto simp: idx_ok_def pick_ok_def intro: leaf_at)
    then have "fs_ok calm t \<lparr>fs_skip = False, fs_path = path, fs_set = s, fs_op = inlineOpFor (TypeOID col) (Format col) (f_type f)\<rparr>"
      unfolding fs_ok_def using inline_store_typed by auto
    then show ?thesis
      using Cons s Some pf by (cases "plan_setters env idx (ci + 1) cols") auto
  qed
qed simp

lemma fill_cell_safe:
  assumes "fs_ok calm t s" "typed t row" "fill_cell s cache raw row = (cache', row', e)"
  shows "typed t row' \<and> (calm \<longrightarrow> e \<noteq> Some ScanPanic)"
proof (cases "fs_skip s")
  case False
  then obtain ft where ft: "at_path (fs_path s) t ft" "setter_safe calm ft (fs_set s)"
      "\<And>raw x. inline_store (fs_op s) raw = Some x \<Longrightarrow> typed ft x"
    using assms(1) by (auto simp: fs_ok_def)
  obtain c1 x1 e1 where s: "fs_set s cache raw (get_at (fs_path s) row) = (c1, x1, e1)"
    by (rule prod_cases3)
  have "typed ft x1 \<and> (calm \<longrightarrow> e1 \<noteq> Some ScanPanic)"
    using setter_safeD [OF ft(2) _ s] path_typed [OF ft(1) assms(2)] by blast
  then show ?thesis
    using assms(3) s False path_typed [OF ft(1) assms(2)] ft(3)
    by (auto simp: fill_cell_def split: option.splits)
qed (use assms in \<open>auto simp: fill_cell_def\<close>)

lemma fill_loop_safe:
  "list_all (fs_ok calm t) ss \<Longrightarrow> typed t row \<Longrightarrow> fill_loop ss cache body row = (cache', row', e) \<Longrightarrow>
     typed t row' \<and> (calm \<longrightarrow> e \<noteq> Some ScanPanic)"
proof (induction ss arbitrary: cache body row)
  case (Cons s ss)
  have s: "fs_ok calm t s" "list_all (fs_ok calm t) ss"
    using Cons.prems(1) by simp_all
  have "typed t row' \<and> (calm \<longrightarrow> e \<noteq> Some ScanPanic)"
    if "(case fill_cell s cache raw row of
           (cache, row, Some e) \<Rightarrow> (cache, row, Some e) | (cache, row, None) \<Rightarrow> fill_loop ss cache rest row) = (cache', row', e)" for raw rest
  proof -
    obtain c1 r1 e1 where c: "fill_cell s cache raw row = (c1, r1, e1)"
      by (rule prod_cases3)
    show ?thesis
      using fill_cell_safe [OF s(1) Cons.prems(2) c] Cons.IH [OF s(2)] that c by (cases e1) auto
  qed
  then show ?case
    using Cons.prems(2,3) by (auto simp: Let_def split: if_splits)
qed simp


section \<open>The inline path\<close>

definition no_inline :: "fieldSetter \<Rightarrow> fieldSetter" where
  "no_inline s = s\<lparr>fs_op := OpFallback\<rparr>"

lemma inline_oids:
  "inlineOpFor oid fmt t \<noteq> OpFallback \<Longrightarrow>
     oid \<in> {OIDBool, OIDInt2, OIDInt4, OIDOID, OIDInt8, OIDFloat4, OIDFloat8, OIDText, OIDVarchar, OIDBPChar, OIDName, OIDBytea, OIDJSON}"
  unfolding inlineOpFor_def Let_def by (simp only: split: if_splits; auto)

lemma inline_scalar:
  assumes "inlineOpFor oid fmt t \<noteq> OpFallback"
  shows "fmt = 1" "\<not> is_struct t" "ArrayElem oid = 0" "underlying t \<noteq> TPtr u"
proof -
  show "fmt = 1" "\<not> is_struct t"
    using assms unfolding inlineOpFor_def Let_def by argo+
  have "inlineOpFor oid fmt t = OpFallback" if "underlying t = TPtr u"
    unfolding inlineOpFor_def Let_def that go_type.case by (simp only: if_True if_cancel)
  then show "underlying t \<noteq> TPtr u"
    using assms by blast
  show "ArrayElem oid = 0"
    using inline_oids [OF assms] by (auto simp: ArrayElem_def)
qed

lemma null_type_is_struct: "map_of null_types t = Some u \<Longrightarrow> is_struct t"
  by (drule map_of_SomeD) (auto simp: null_types_def null_type_def is_struct_def)

lemma pickSetter_scalar:
  assumes "inlineOpFor oid fmt t \<noteq> OpFallback" "\<not> se_scans env t"
  shows "pickSetter env p oid fmt t = map_sum id plain_setter (pickBinarySetter oid t)"
proof -
  note i = inline_scalar [OF assms(1)]
  have n: "map_of null_types t = None"
    using null_type_is_struct i(2) by (metis option.exhaust)
  have r: "t \<noteq> rangeBytesType"
    using i(2) by (auto simp: is_struct_def rangeBytesType_def)
  show ?thesis
    using assms(2) i(1-3) r i(4) by (subst pickSetter.simps) (simp add: n split: go_type.splits)
qed

lemma beI_to_kind:
  "to_kind KInt16 (beI16 r) = beI16 r" "to_kind KInt32 (beI16 r) = beI16 r" "to_kind KInt64 (beI16 r) = beI16 r"
  "to_kind KInt (beI16 r) = beI16 r" "to_kind KInt32 (beI32 r) = beI32 r" "to_kind KInt64 (beI32 r) = beI32 r"
  "to_kind KInt (beI32 r) = beI32 r" "to_kind KInt64 (beI64 r) = beI64 r" "to_kind KInt (beI64 r) = beI64 r"
  by (rule to_kind_id, rule beI_kinds, simp)+

lemma inline_is_setter:
  assumes "pickSetter env p oid fmt t = Inr s" "inline_store (inlineOpFor oid fmt t) r = Some x" "\<not> se_scans env t"
  shows "s cache (Some r) v = (cache, x, None)"
proof -
  have n: "inlineOpFor oid fmt t \<noteq> OpFallback"
    using assms(2) by (auto simp: inline_store_def)
  obtain c where c: "pickBinarySetter oid t = Inr c" "s = plain_setter c"
    using assms(1) unfolding pickSetter_scalar [OF n assms(3)] by (cases "pickBinarySetter oid t") auto
  have "c (Some r) v = (x, None)"
    using c(1) assms(2) unfolding inlineOpFor_def pickBinarySetter_def Let_def
    by (simp only: split: if_splits;
        auto simp: inline_store_def intSetter_def be_int_def exact_setter_def float4_val_def boolSetter_def stringSetter_def
          byteSliceSetter_def beI_to_kind is_bytes_def split: if_splits)
  then show ?thesis
    by (simp add: c(2) plain_setter_def)
qed

lemma inline_fallback [simp]: "inline_store OpFallback r = None"
  by (simp add: inline_store_def)

lemma inline_store_op: "inline_store op r = Some x \<Longrightarrow> op \<noteq> OpFallback"
  by auto

text \<open>An entry whose inline store agrees with its setter.\<close>

definition inline_agrees :: "fieldSetter \<Rightarrow> bool" where
  "inline_agrees s \<longleftrightarrow> (\<forall>r x cache v. inline_store (fs_op s) r = Some x \<longrightarrow> fs_set s cache (Some r) v = (cache, x, None))"

lemma fill_cell_no_inline: "inline_agrees s \<Longrightarrow> fill_cell (no_inline s) cache raw row = fill_cell s cache raw row"
  by (auto simp: inline_agrees_def fill_cell_def no_inline_def split: option.splits)

lemma fill_loop_no_inline:
  "list_all inline_agrees ss \<Longrightarrow> fill_loop (map no_inline ss) cache body row = fill_loop ss cache body row"
proof (induction ss arbitrary: cache body row)
  case (Cons s ss)
  then show ?case
    by (simp add: fill_cell_no_inline Let_def split: prod.splits option.splits)
qed simp

lemma plan_setters_agree:
  assumes "\<forall>u. se_scans env u \<longrightarrow> is_struct u"
  shows "plan_setters env idx ci cols = Inr ss \<Longrightarrow> list_all inline_agrees ss"
proof (induction cols arbitrary: ci ss)
  case (Cons col cols)
  have skip: "inline_agrees skip_setter"
    by (simp add: inline_agrees_def skip_setter_def)
  show ?case
  proof (cases "idx (ToLower env (Name col))")
    case None
    then show ?thesis
      using Cons skip by (cases "plan_setters env idx (ci + 1) cols") auto
  next
    case (Some pf)
    obtain path f where pf: "pf = (path, f)"
      by fastforce
    obtain s where s: "pickSetter env [ci] (TypeOID col) (Format col) (f_type f) = Inr s"
      using Cons.prems Some pf by (auto split: sum.splits)
    have "inline_agrees \<lparr>fs_skip = False, fs_path = path, fs_set = s, fs_op = inlineOpFor (TypeOID col) (Format col) (f_type f)\<rparr>"
      unfolding inline_agrees_def
    proof (intro allI impI; unfold fieldSetter.simps)
      fix r x cache v
      assume x: "inline_store (inlineOpFor (TypeOID col) (Format col) (f_type f)) r = Some x"
      then have "\<not> is_struct (f_type f)"
        by (rule inline_scalar(2) [OF inline_store_op])
      with inline_is_setter [OF s x] show "s cache (Some r) v = (cache, x, None)"
        using assms by blast
    qed
    then show ?thesis
      using Cons s Some pf by (cases "plan_setters env idx (ci + 1) cols") auto
  qed
qed simp


text \<open>A row of one \<open>int4\<close> column, for a struct with an embedded one; no type has a \<open>Scan\<close> method.\<close>

definition plain_env :: scan_env where
  "plain_env = \<lparr>se_scans = (\<lambda>_. False), se_scan = (\<lambda>t d v. (v, None)), se_lower = id\<rparr>"

definition inner_type :: go_type where
  "inner_type = TStruct [Field (exported ''A'') (TInt KInt64)]"

definition outer_type :: go_type where
  "outer_type =
     TStruct [Field (exported ''B'') TString, Field \<lparr>f_name = bs ''Inner'', f_tag = None, f_anon = True, f_exported = True\<rparr> inner_type]"

definition int4_col :: Column where
  "int4_col = \<lparr>Name = [97], TableOID = 0, AttrNum = 0, TypeOID = OIDInt4, TypeMod = 0, TypeLen = 4, Format = 1,
     Encoder = format_encoder 1 OIDInt4, KeyPrefix = [], KeyPrefixComma = []\<rparr>"

definition int4_plan :: Plan where
  "int4_plan = \<lparr>Columns = [int4_col], ColumnsArrayHeader = [], TOONHeader = []\<rparr>"

lemma plain_env_ok: "env_ok plain_env" "no_scanners plain_env"
  by (simp_all add: env_ok_def no_scanners_def plain_env_def)

lemma outer_row: "typed outer_type (zero_val outer_type)"
  by (rule typed_zero)

lemma inner_index: "walkStructFields plain_env inner_type base [97] = Some (base @ [0], Field (exported ''A'') (TInt KInt64))"
  by (subst walkStructFields.simps)
     (simp add: own_fields_def inner_type_def fields_of_def isEmbeddedFlatten_def exported_def field_key_def ToLower_def
       lower_ascii_def bs_def)

lemma inner_struct: "is_struct inner_type" "inner_type \<noteq> TTime"
  by (simp_all add: inner_type_def is_struct_def)

lemma outer_index: "walkStructFields plain_env outer_type [] [97] = Some ([1, 0], Field (exported ''A'') (TInt KInt64))"
  by (subst walkStructFields.simps)
     (simp add: own_fields_def outer_type_def fields_of_def isEmbeddedFlatten_def exported_def field_key_def ToLower_def
       lower_ascii_def bs_def inner_struct map_add_def inner_index [unfolded exported_def bs_def, simplified])

definition outer_setter :: fieldSetter where
  "outer_setter = \<lparr>fs_skip = False, fs_path = [1, 0], fs_set = plain_setter (the (intSetter (TInt KInt64) 4)), fs_op = OpInt4BinInt64\<rparr>"

lemma outer_plan: "buildStructPlan plain_env outer_type int4_plan = Inr [outer_setter]"
proof -
  have n: "map_of null_types (TInt KInt64) = None"
    by (simp add: null_types_def null_type_def)
  have p: "pickSetter plain_env q OIDInt4 1 (TInt KInt64) = Inr (plain_setter (the (intSetter (TInt KInt64) 4)))" for q
    by (subst pickSetter.simps) (simp add: n plain_env_def rangeBytesType_def is_struct_def is_plain_slice_def pickBinarySetter_def intSetter_def IsRange_def)
  have op: "inlineOpFor OIDInt4 1 (TInt KInt64) = OpInt4BinInt64"
    by (simp add: inlineOpFor_def is_struct_def)
  have "ToLower plain_env [97] = [97]"
    by (simp add: ToLower_def lower_ascii_def)
  then show ?thesis
    using outer_index p op by (simp add: buildStructPlan_def int4_plan_def int4_col_def outer_setter_def)
qed

text \<open>The cell \<open>-2\<close>, into the embedded struct.\<close>

definition int4_body :: bytes where
  "int4_body = [0, 1, 0, 0, 0, 4, 255, 255, 255, 254]"



text \<open>The condition is needed: a named integer with a \<open>Scan\<close> method of its own is filled without it.\<close>

lemma inline_bypasses_scan:
  assumes "se_scans env (TNamed n (TInt KInt64))" "length r = 8"
    and "se_scan env (TNamed n (TInt KInt64)) (Some (DInt (beI64 r))) v = (v, Some e)"
  shows "\<exists>s. pickSetter env p OIDInt8 1 (TNamed n (TInt KInt64)) = Inr s \<and> s cache (Some r) v = (cache, v, Some (ScannerErr e)) \<and>
      inline_store (inlineOpFor OIDInt8 1 (TNamed n (TInt KInt64))) r = Some (VInt (beI64 r))"
proof -
  have n: "map_of null_types (TNamed n (TInt KInt64)) = None"
    by (simp add: null_types_def null_type_def)
  show ?thesis
    using assms by (subst pickSetter.simps)
      (simp add: n is_null_type_def plain_setter_def scannerSetter_def scannerDecoderFor_def scan_method_def inlineOpFor_def
        is_struct_def inline_store_def)
qed

end
