(* ===== verification/Scan_Query.thy ===== *)
theory Scan_Query
  imports Scan_Proofs Query_Proofs
begin

text \<open>
  \<open>ScanStruct\<close> and \<open>ScanStructBatched\<close> of \<open>pg2json/scan.go\<close>: a query whose rows become structs. A slot is
  one struct of the backing array; the single-shot call doubles the array as rows arrive, the
  batched one hands every full array to a callback and zeroes the slots it used. The callback may
  depend on the batches it has already been given. Shown: whatever the server sends, both calls
  leave the same client and end the same way, and the batches are the rows in chunks.
\<close>

section \<open>Errors and locals\<close>

datatype scan_fail =
    ClientFail client_error
  | CellFail scan_error
  | BadTarget
  | BadBatchSize
  | NoCallback
  | UserFail nat

definition stale_fail :: "scan_fail \<Rightarrow> bool" where
  "stale_fail e = (case e of ClientFail err \<Rightarrow> isStaleStmtError err | _ \<Rightarrow> False)"

text \<open>The locals of both loops; the plan is the statement's.\<close>

record scan_state =
  sn_client :: Client
  sn_plan :: Plan
  sn_setters :: "fieldSetter list"
  sn_cache :: oid_cache
  sn_slots :: "go_val list"
  sn_rowCount :: nat
  sn_pgError :: "pg_error option"

record batch_state = scan_state +
  bt_total :: nat
  bt_cbErr :: "scan_fail option"
  bt_given :: "go_val list list"

definition on_scan_client :: "(Client \<Rightarrow> Client) \<Rightarrow> 'a scan_state_scheme \<Rightarrow> 'a scan_state_scheme" where
  "on_scan_client f s = s\<lparr>sn_client := f (sn_client s)\<rparr>"

section \<open>The loops\<close>

text \<open>The call of \<open>fillStructRow\<close> on the current slot.\<close>

definition fill_slot :: "bytes \<Rightarrow> 'a scan_state_scheme \<Rightarrow> 'a scan_state_scheme \<times> scan_error option" where
  "fill_slot body s =
     (let (cache, row, e) = fillStructRow (sn_setters s) (sn_cache s) body (sn_slots s ! sn_rowCount s)
      in (s\<lparr>sn_cache := cache, sn_slots := (sn_slots s)[sn_rowCount s := row]\<rparr>, e))"

text \<open>The cases the two \<open>switch\<close>es share: every message but DataRow and ReadyForQuery.\<close>

definition scan_other :: "scan_env \<Rightarrow> go_type \<Rightarrow> int list \<Rightarrow> byte \<Rightarrow> bytes \<Rightarrow> 'a scan_state_scheme \<Rightarrow>
    'a scan_state_scheme + 'a scan_state_scheme \<times> scan_fail" where
  "scan_other env tType fmts t body s =
     (if t = MsgBindComplete then Inl s
      else if t = MsgCommandComplete \<or> t = MsgEmptyQueryResponse \<or> t = MsgPortalSuspended \<or> t = MsgCloseComplete then Inl s
      else if t = MsgRowDescription then
        (case ParseRowDescriptionForFormats body fmts of
           Inl e \<Rightarrow> Inr (s, ClientFail (RowErr e))
         | Inr newPlan \<Rightarrow>
             let s = s\<lparr>sn_plan := newPlan\<rparr> in
             (case buildStructPlan env tType newPlan of
                Inl e \<Rightarrow> Inr (s, CellFail e)
              | Inr newSP \<Rightarrow> Inl (s\<lparr>sn_setters := newSP, sn_cache := Map.empty\<rparr>)))
      else if t = MsgNoticeResponse then Inl (on_scan_client (observe (OnNotice (Parse body))) s)
      else if t = MsgParameterStatus then Inl (on_scan_client (set_param body) s)
      else if t = MsgErrorResponse then Inl (s\<lparr>sn_pgError := Some (Parse body)\<rparr>)
      else Inr (s, ClientFail (UnexpectedMsg t)))"

definition grow_slots :: "go_type \<Rightarrow> scan_state \<Rightarrow> scan_state" where
  "grow_slots tType s =
     (if sn_rowCount s = length (sn_slots s)
      then s\<lparr>sn_slots := sn_slots s @ replicate (length (sn_slots s)) (zero_val tType)\<rparr> else s)"

definition scan_step :: "scan_env \<Rightarrow> go_type \<Rightarrow> int list \<Rightarrow> byte \<Rightarrow> bytes \<Rightarrow> scan_state \<Rightarrow>
    scan_state + scan_state \<times> (scan_fail + go_val list)" where
  "scan_step env tType fmts t body s =
     (if t = MsgDataRow then
        (case fill_slot body (grow_slots tType s) of
           (s, Some e) \<Rightarrow> Inr (s, Inl (CellFail e))
         | (s, None) \<Rightarrow> Inl (s\<lparr>sn_rowCount := sn_rowCount s + 1\<rparr>))
      else if t = MsgReadyForQuery then
        (let s = on_scan_client (\<lambda>c. c\<lparr>cl_lastRows := sn_rowCount s\<rparr>) s in
         Inr (s, case sn_pgError s of Some e \<Rightarrow> Inl (ClientFail (PgErr e)) | None \<Rightarrow> Inr (take (sn_rowCount s) (sn_slots s))))
      else
        case scan_other env tType fmts t body s of Inl s \<Rightarrow> Inl s | Inr (s, err) \<Rightarrow> Inr (s, Inl err))"

text \<open>The callback: the batches it was given before and this one; and the closure \<open>flush\<close>.\<close>

type_synonym batch_cb = "go_val list list \<Rightarrow> go_val list \<Rightarrow> scan_fail option"

definition clearBatchSlots :: "go_type \<Rightarrow> nat \<Rightarrow> go_val list \<Rightarrow> go_val list" where
  "clearBatchSlots tType n slots = replicate n (zero_val tType) @ drop n slots"

definition batch_flush :: "go_type \<Rightarrow> batch_cb \<Rightarrow> batch_state \<Rightarrow> batch_state \<times> scan_fail option" where
  "batch_flush tType cb s =
     (if sn_rowCount s = 0 then (s, None)
      else
        let batch = take (sn_rowCount s) (sn_slots s);
            err = cb (bt_given s) batch;
            s = s\<lparr>bt_given := bt_given s @ [batch]\<rparr>
        in case err of
             Some err \<Rightarrow> (s, Some err)
           | None \<Rightarrow> (s\<lparr>sn_slots := clearBatchSlots tType (sn_rowCount s) (sn_slots s), sn_rowCount := 0\<rparr>, None))"

definition batch_step :: "scan_env \<Rightarrow> go_type \<Rightarrow> nat \<Rightarrow> batch_cb \<Rightarrow> int list \<Rightarrow> byte \<Rightarrow> bytes \<Rightarrow> batch_state \<Rightarrow>
    batch_state + batch_state \<times> scan_fail option" where
  "batch_step env tType batchSize cb fmts t body s =
     (if t = MsgDataRow then
        (if bt_cbErr s \<noteq> None then Inl s
         else
           case fill_slot body s of
             (s, Some e) \<Rightarrow> Inr (s, Some (CellFail e))
           | (s, None) \<Rightarrow>
               let s = s\<lparr>sn_rowCount := sn_rowCount s + 1, bt_total := bt_total s + 1\<rparr> in
               if sn_rowCount s = batchSize then
                 (case batch_flush tType cb s of
                    (s, None) \<Rightarrow> Inl s
                  | (s, Some err) \<Rightarrow> Inl (on_scan_client (\<lambda>c. fst (SendCancel c)) (s\<lparr>bt_cbErr := Some err\<rparr>)))
               else Inl s)
      else if t = MsgReadyForQuery then
        (let s = on_scan_client (\<lambda>c. c\<lparr>cl_lastRows := bt_total s\<rparr>) s in
         case bt_cbErr s of
           Some err \<Rightarrow> Inr (s, Some err)
         | None \<Rightarrow>
             (case sn_pgError s of
                Some e \<Rightarrow> Inr (s, Some (ClientFail (PgErr e)))
              | None \<Rightarrow> Inr (batch_flush tType cb s)))
      else
        case scan_other env tType fmts t body s of Inl s \<Rightarrow> Inl s | Inr (s, err) \<Rightarrow> Inr (s, Some err))"

section \<open>The calls\<close>

definition initialCap :: "Config \<Rightarrow> nat" where
  "initialCap cfg = (if RowsHint cfg > 0 then nat (RowsHint cfg) else 16)"

definition bindExecuteScan :: "scan_env \<Rightarrow> preparedStmt \<Rightarrow> go_value list \<Rightarrow> fieldSetter list \<Rightarrow> go_type \<Rightarrow> Client \<Rightarrow>
    Client \<times> preparedStmt \<times> (scan_fail + go_val list)" where
  "bindExecuteScan env st args sp tType c =
     (case send_bind (st_name st) (st_resultFmts st) args (cl_conn c) of
        (cn, Some err) \<Rightarrow> (c\<lparr>cl_conn := cn\<rparr>, st, Inl (ClientFail err))
      | (cn, None) \<Rightarrow>
          let c = c\<lparr>cl_conn := cn\<rparr>;
              s = \<lparr>sn_client = c, sn_plan = st_plan st, sn_setters = sp, sn_cache = Map.empty,
                   sn_slots = replicate (initialCap (cl_cfg c)) (zero_val tType), sn_rowCount = 0, sn_pgError = None\<rparr>;
              (cn, s, r) = msg_loop (scan_step env tType (st_resultFmts st)) (\<lambda>e s. (s, Inl (ClientFail (WireErr e)))) (cl_conn c) s
          in ((sn_client s)\<lparr>cl_conn := cn\<rparr>, st\<lparr>st_plan := sn_plan s\<rparr>, r))"

definition bindExecuteScanBatched :: "scan_env \<Rightarrow> preparedStmt \<Rightarrow> go_value list \<Rightarrow> fieldSetter list \<Rightarrow> go_type \<Rightarrow> nat \<Rightarrow> batch_cb \<Rightarrow>
    go_val list list \<Rightarrow> Client \<Rightarrow> Client \<times> preparedStmt \<times> go_val list list \<times> scan_fail option" where
  "bindExecuteScanBatched env st args sp tType batchSize cb given c =
     (case send_bind (st_name st) (st_resultFmts st) args (cl_conn c) of
        (cn, Some err) \<Rightarrow> (c\<lparr>cl_conn := cn\<rparr>, st, given, Some (ClientFail err))
      | (cn, None) \<Rightarrow>
          let c = c\<lparr>cl_conn := cn\<rparr>;
              s = \<lparr>sn_client = c, sn_plan = st_plan st, sn_setters = sp, sn_cache = Map.empty,
                   sn_slots = replicate batchSize (zero_val tType), sn_rowCount = 0, sn_pgError = None,
                   bt_total = 0, bt_cbErr = None, bt_given = given\<rparr>;
              (cn, s, err) = msg_loop (batch_step env tType batchSize cb (st_resultFmts st)) (\<lambda>e s. (s, Some (ClientFail (WireErr e))))
                               (cl_conn c) s
          in ((sn_client s)\<lparr>cl_conn := cn\<rparr>, st\<lparr>st_plan := sn_plan s\<rparr>, bt_given s, err))"

text \<open>The context and the eviction choice of a call.\<close>

record call_env =
  ce_attachErr :: bool
  ce_choice :: nat

fun ScanStruct_loop :: "scan_env \<Rightarrow> nat \<Rightarrow> nat \<Rightarrow> go_type \<Rightarrow> bytes \<Rightarrow> go_value list \<Rightarrow> Client \<Rightarrow> Client \<times> (scan_fail + go_val list)" where
  "ScanStruct_loop env 0 choice tType sql args c = (c, Inr [])"
| "ScanStruct_loop env (Suc left) choice tType sql args c =
     (case obtain_stmt choice sql c of
        (c, Inl err) \<Rightarrow> (c, Inl (ClientFail err))
      | (c, Inr (st, fromCache)) \<Rightarrow>
          (case buildStructPlan env tType (st_plan st) of
             Inl e \<Rightarrow> (c, Inl (CellFail e))
           | Inr plan \<Rightarrow>
               let (c, st, r) = bindExecuteScan env st args plan tType c;
                   c = c\<lparr>cl_stmts := sc_set sql st (cl_stmts c)\<rparr>
               in case r of
                    Inr rows \<Rightarrow> (c, Inr rows)
                  | Inl err \<Rightarrow>
                      if left = 1 \<and> fromCache \<and> stale_fail err then
                        ScanStruct_loop env left choice tType sql args (c\<lparr>cl_stmts := sc_invalidate sql (cl_stmts c)\<rparr>)
                      else (c, Inl err)))"

definition ScanStruct :: "scan_env \<Rightarrow> call_env \<Rightarrow> go_type \<Rightarrow> bytes \<Rightarrow> go_value list \<Rightarrow> Client \<Rightarrow> Client \<times> (scan_fail + go_val list)" where
  "ScanStruct env ctx tType sql args c =
     (if rejectNonSelect sql then (c, Inl (ClientFail NotSelect))
      else if ce_attachErr ctx then (c, Inl (ClientFail CtxErr))
      else if \<not> is_struct tType then (c, Inl BadTarget)
      else ScanStruct_loop env 2 (ce_choice ctx) tType sql args c)"

fun ScanStructBatched_loop :: "scan_env \<Rightarrow> nat \<Rightarrow> nat \<Rightarrow> go_type \<Rightarrow> nat \<Rightarrow> batch_cb \<Rightarrow> bytes \<Rightarrow> go_value list \<Rightarrow> go_val list list \<Rightarrow> Client \<Rightarrow>
    Client \<times> go_val list list \<times> scan_fail option" where
  "ScanStructBatched_loop env 0 choice tType batchSize cb sql args given c = (c, given, None)"
| "ScanStructBatched_loop env (Suc left) choice tType batchSize cb sql args given c =
     (case obtain_stmt choice sql c of
        (c, Inl err) \<Rightarrow> (c, given, Some (ClientFail err))
      | (c, Inr (st, fromCache)) \<Rightarrow>
          (case buildStructPlan env tType (st_plan st) of
             Inl e \<Rightarrow> (c, given, Some (CellFail e))
           | Inr sp \<Rightarrow>
               let (c, st, given, err) = bindExecuteScanBatched env st args sp tType batchSize cb given c;
                   c = c\<lparr>cl_stmts := sc_set sql st (cl_stmts c)\<rparr>
               in case err of
                    None \<Rightarrow> (c, given, None)
                  | Some err \<Rightarrow>
                      if left = 1 \<and> fromCache \<and> stale_fail err then
                        ScanStructBatched_loop env left choice tType batchSize cb sql args given
                          (c\<lparr>cl_stmts := sc_invalidate sql (cl_stmts c)\<rparr>)
                      else (c, given, Some err)))"

definition ScanStructBatched :: "scan_env \<Rightarrow> call_env \<Rightarrow> go_type \<Rightarrow> int \<Rightarrow> batch_cb option \<Rightarrow> bytes \<Rightarrow> go_value list \<Rightarrow> Client \<Rightarrow>
    Client \<times> go_val list list \<times> scan_fail option" where
  "ScanStructBatched env ctx tType batchSize cb sql args c =
     (if batchSize \<le> 0 then (c, [], Some BadBatchSize)
      else
        case cb of
          None \<Rightarrow> (c, [], Some NoCallback)
        | Some cb \<Rightarrow>
            if rejectNonSelect sql then (c, [], Some (ClientFail NotSelect))
            else if ce_attachErr ctx then (c, [], Some (ClientFail CtxErr))
            else if \<not> is_struct tType then (c, [], Some BadTarget)
            else ScanStructBatched_loop env 2 (ce_choice ctx) tType (nat batchSize) cb sql args [] c)"

section \<open>Batches are the rows\<close>

text \<open>Two loops over the same bytes, related step by step.\<close>

lemma msg_loop_sim:
  assumes "\<And>t body a b. R a b \<Longrightarrow> rel_sum R Q (step1 t body a) (step2 t body b)" "\<And>e a b. R a b \<Longrightarrow> Q (fail1 e a) (fail2 e b)"
  shows "R a b \<Longrightarrow> msg_loop step1 fail1 cn a = (cn1, x) \<Longrightarrow> msg_loop step2 fail2 cn b = (cn2, y) \<Longrightarrow> cn1 = cn2 \<and> Q x y"
proof (induction cn arbitrary: a b rule: measure_induct_rule [where f = "\<lambda>cn. length (rx cn)"])
  case (less cn)
  obtain cn' r where m: "ReadMessage cn = (cn', r)"
    by fastforce
  show ?case
  proof (cases r)
    case (Inl e)
    then show ?thesis
      using less.prems m assms(2) by (auto simp: msg_loop.simps [of step1 fail1 cn] msg_loop.simps [of step2 fail2 cn])
  next
    case (Inr tb)
    obtain t body where tb: "tb = (t, body)"
      by fastforce
    have shorter: "length (rx cn') < length (rx cn)"
      using ReadMessage_shorter m Inr by blast
    have "rel_sum R Q (step1 t body a) (step2 t body b)"
      by (rule assms(1) [OF less.prems(1)])
    then show ?thesis
      using less.IH [OF shorter] less.prems m Inr tb
      by (cases "step1 t body a"; cases "step2 t body b")
         (auto simp: msg_loop.simps [of step1 fail1 cn] msg_loop.simps [of step2 fail2 cn])
  qed
qed

fun chunks :: "nat \<Rightarrow> 'a list \<Rightarrow> 'a list list" where
  "chunks n xs = (if n = 0 \<or> xs = [] then [] else take n xs # chunks n (drop n xs))"

declare chunks.simps [simp del]

lemma chunks_concat:
  "list_all (\<lambda>b. length b = n) full \<Longrightarrow> length r < n \<Longrightarrow> chunks n (concat full @ r) = full @ (if r = [] then [] else [r])"
proof (induction full)
  case Nil
  then show ?case
    by (simp add: chunks.simps [of n r] chunks.simps [of n "[]"])
next
  case (Cons b full)
  then show ?case
    by (subst chunks.simps) auto
qed

text \<open>The two loops in step: \<open>part\<close> is the batch under way, \<open>k\<close> counts the unused slots of the array.\<close>

definition same_locals :: "scan_state \<Rightarrow> batch_state \<Rightarrow> bool" where
  "same_locals s b \<longleftrightarrow>
     sn_client b = sn_client s \<and> sn_plan b = sn_plan s \<and> sn_setters b = sn_setters s \<and> sn_cache b = sn_cache s \<and>
     sn_pgError b = sn_pgError s"

definition in_step :: "go_type \<Rightarrow> nat \<Rightarrow> go_val list list \<Rightarrow> scan_state \<Rightarrow> batch_state \<Rightarrow> bool" where
  "in_step tType n old s b \<longleftrightarrow>
     same_locals s b \<and> bt_cbErr b = None \<and> bt_total b = sn_rowCount s \<and>
     (\<exists>full part k.
        bt_given b = old @ full \<and> list_all (\<lambda>x. length x = n) full \<and> length part < n \<and>
        sn_slots b = part @ replicate (n - length part) (zero_val tType) \<and> sn_rowCount b = length part \<and>
        sn_slots s = concat full @ part @ replicate k (zero_val tType) \<and> sn_rowCount s = length (concat full @ part) \<and> sn_slots s \<noteq> [])"

definition same_end :: "nat \<Rightarrow> go_val list list \<Rightarrow> scan_state \<times> (scan_fail + go_val list) \<Rightarrow> batch_state \<times> scan_fail option \<Rightarrow> bool" where
  "same_end n old x y \<longleftrightarrow>
     sn_client (fst y) = sn_client (fst x) \<and> sn_plan (fst y) = sn_plan (fst x) \<and>
     (case snd x of
        Inl err \<Rightarrow> snd y = Some err
      | Inr rows \<Rightarrow> snd y = None \<and> bt_given (fst y) = old @ chunks n rows)"

lemma other_in_step:
  assumes "in_step tType n old s b"
  shows "rel_sum (in_step tType n old) (\<lambda>(s, e) (b, e'). e' = e \<and> sn_client b = sn_client s \<and> sn_plan b = sn_plan s)
           (scan_other env tType fmts t body s) (scan_other env tType fmts t body b)"
proof -
  have same: "same_locals s b"
    using assms by (simp add: in_step_def)
  have upd: "in_step tType n old (s\<lparr>sn_plan := p, sn_setters := ss, sn_cache := m\<rparr>) (b\<lparr>sn_plan := p, sn_setters := ss, sn_cache := m\<rparr>)"
    "in_step tType n old (on_scan_client f s) (on_scan_client f b)"
    "in_step tType n old (s\<lparr>sn_pgError := e\<rparr>) (b\<lparr>sn_pgError := e\<rparr>)" for p ss m f e
    using assms by (simp_all add: in_step_def same_locals_def on_scan_client_def)
  show ?thesis
    using assms upd same unfolding scan_other_def Let_def
    by (simp add: same_locals_def split: sum.split)
qed

lemma fill_in_step:
  assumes "in_step tType n old s b" "fill_slot body (grow_slots tType s) = (s', e)" "fill_slot body b = (b', e')"
  shows "e' = e \<and> sn_client b' = sn_client s' \<and> sn_plan b' = sn_plan s' \<and>
    (\<exists>full part k row.
       same_locals s' b' \<and> bt_cbErr b' = None \<and> bt_total b' = sn_rowCount s' \<and> bt_given b' = old @ full \<and>
       list_all (\<lambda>x. length x = n) full \<and> length part < n \<and>
       sn_slots b' = part @ row # replicate (n - length part - 1) (zero_val tType) \<and> sn_rowCount b' = length part \<and>
       sn_slots s' = concat full @ part @ row # replicate k (zero_val tType) \<and> sn_rowCount s' = length (concat full @ part))"
proof -
  obtain full part k where b: "bt_given b = old @ full" "list_all (\<lambda>x. length x = n) full" "length part < n"
      "sn_slots b = part @ replicate (n - length part) (zero_val tType)" "sn_rowCount b = length part"
      "sn_slots s = concat full @ part @ replicate k (zero_val tType)" "sn_rowCount s = length (concat full @ part)" "sn_slots s \<noteq> []"
      "same_locals s b" "bt_cbErr b = None" "bt_total b = sn_rowCount s"
    using assms(1) unfolding in_step_def by blast
  obtain m where m: "sn_slots (grow_slots tType s) = (concat full @ part) @ zero_val tType # replicate m (zero_val tType)"
  proof (cases k)
    case 0
    then have "0 < length (concat full @ part)"
      using b(6,8) by simp
    then show ?thesis
      using that [of "length (concat full @ part) - 1"] b(6,7) 0
      by (cases "length (concat full @ part)") (simp_all add: grow_slots_def)
  next
    case (Suc k')
    then show ?thesis
      using that [of k'] b(6,7) by (simp add: grow_slots_def)
  qed
  have bn: "sn_slots b = part @ zero_val tType # replicate (n - length part - 1) (zero_val tType)"
    using b(3,4) by (cases "n - length part") auto
  obtain cache row e0 where f: "fillStructRow (sn_setters s) (sn_cache s) body (zero_val tType) = (cache, row, e0)"
    by (rule prod_cases3)
  have g: "sn_setters (grow_slots tType s) = sn_setters s" "sn_cache (grow_slots tType s) = sn_cache s"
    "sn_rowCount (grow_slots tType s) = length (concat full @ part)" "same_locals (grow_slots tType s) b"
    using b(7,9) by (simp_all add: grow_slots_def same_locals_def)
  have s': "s' = (grow_slots tType s)\<lparr>sn_cache := cache, sn_slots := (concat full @ part) @ row # replicate m (zero_val tType)\<rparr> \<and> e = e0"
    using assms(2) unfolding fill_slot_def m g nth_append_length list_update_length f by simp
  have b': "b' = b\<lparr>sn_cache := cache, sn_slots := part @ row # replicate (n - length part - 1) (zero_val tType)\<rparr> \<and> e' = e0"
    using assms(3) b(9) unfolding fill_slot_def bn b(5) nth_append_length list_update_length by (simp add: same_locals_def f)
  have "same_locals s' b'"
    using g(4) s' b' by (simp add: same_locals_def)
  then show ?thesis
    using s' b' b g(3)
    by (intro conjI exI [of _ full] exI [of _ part] exI [of _ m] exI [of _ row]) (auto simp: same_locals_def)
qed

abbreviation agreeable :: batch_cb where
  "agreeable \<equiv> \<lambda>earlier batch. None"

lemma row_in_step:
  assumes "in_step tType n old s b"
  shows "rel_sum (in_step tType n old) (same_end n old) (scan_step env tType fmts MsgDataRow body s)
           (batch_step env tType n agreeable fmts MsgDataRow body b)"
proof -
  obtain s' e where fs: "fill_slot body (grow_slots tType s) = (s', e)"
    by fastforce
  obtain b' e' where fb: "fill_slot body b = (b', e')"
    by fastforce
  have cb: "bt_cbErr b = None"
    using assms by (simp add: in_step_def)
  note f = fill_in_step [OF assms fs fb]
  show ?thesis
  proof (cases e)
    case (Some err)
    then show ?thesis
      using f fs fb cb by (simp add: scan_step_def batch_step_def same_end_def)
  next
    case None
    from f obtain full part k row where b: "same_locals s' b'" "bt_cbErr b' = None" "bt_total b' = sn_rowCount s'"
        "bt_given b' = old @ full" "list_all (\<lambda>x. length x = n) full" "length part < n"
        "sn_slots b' = part @ row # replicate (n - length part - 1) (zero_val tType)" "sn_rowCount b' = length part"
        "sn_slots s' = concat full @ part @ row # replicate k (zero_val tType)" "sn_rowCount s' = length (concat full @ part)"
      by blast
    let ?s = "s'\<lparr>sn_rowCount := sn_rowCount s' + 1\<rparr>" and ?b = "b'\<lparr>sn_rowCount := sn_rowCount b' + 1, bt_total := bt_total b' + 1\<rparr>"
    have step: "scan_step env tType fmts MsgDataRow body s = Inl ?s"
      using fs None by (simp add: scan_step_def)
    show ?thesis
    proof (cases "length part + 1 = n")
      case False
      have bstep: "batch_step env tType n agreeable fmts MsgDataRow body b = Inl ?b"
        using fb cb None f b(8) False by (simp add: batch_step_def)
      have "in_step tType n old ?s ?b"
        unfolding in_step_def
        by (intro conjI exI [of _ full] exI [of _ "part @ [row]"] exI [of _ k]) (use b False in \<open>auto simp: same_locals_def\<close>)
      then show ?thesis
        using step bstep by simp
    next
      case True
      let ?c = "?b\<lparr>bt_given := old @ full @ [part @ [row]], sn_slots := replicate n (zero_val tType), sn_rowCount := 0\<rparr>"
      have slots: "sn_slots b' = part @ [row]"
        using b(7) True by auto
      have bstep: "batch_step env tType n agreeable fmts MsgDataRow body b = Inl ?c"
        using fb cb None f b(4,8) True slots by (simp add: batch_step_def batch_flush_def clearBatchSlots_def)
      have "in_step tType n old ?s ?c"
        unfolding in_step_def
        by (intro conjI exI [of _ "full @ [part @ [row]]"] exI [of _ "[]"] exI [of _ k])
           (use b True in \<open>auto simp: same_locals_def\<close>)
      then show ?thesis
        using step bstep by simp
    qed
  qed
qed

lemma ready_in_step:
  assumes "in_step tType n old s b"
  shows "rel_sum (in_step tType n old) (same_end n old) (scan_step env tType fmts MsgReadyForQuery body s)
           (batch_step env tType n agreeable fmts MsgReadyForQuery body b)"
proof -
  obtain full part k where b: "bt_given b = old @ full" "list_all (\<lambda>x. length x = n) full" "length part < n"
      "sn_slots b = part @ replicate (n - length part) (zero_val tType)" "sn_rowCount b = length part"
      "sn_slots s = concat full @ part @ replicate k (zero_val tType)" "sn_rowCount s = length (concat full @ part)" "sn_slots s \<noteq> []"
      "same_locals s b" "bt_cbErr b = None" "bt_total b = sn_rowCount s"
    using assms(1) unfolding in_step_def by blast
  show ?thesis
    using b chunks_concat [OF b(2,3)]
    by (cases "sn_pgError s")
       (auto simp: scan_step_def batch_step_def same_end_def same_locals_def on_scan_client_def batch_flush_def Let_def)
qed

lemma step_in_step:
  assumes "in_step tType n old s b"
  shows "rel_sum (in_step tType n old) (same_end n old) (scan_step env tType fmts t body s)
           (batch_step env tType n agreeable fmts t body b)"
proof (cases "t = MsgDataRow \<or> t = MsgReadyForQuery")
  case True
  then show ?thesis
    using row_in_step [OF assms] ready_in_step [OF assms] by blast
next
  case False
  then show ?thesis
    using other_in_step [OF assms, of env fmts t body]
    by (cases "scan_other env tType fmts t body s"; cases "scan_other env tType fmts t body b")
       (auto simp: scan_step_def batch_step_def same_end_def)
qed

lemma bindExecute_same:
  assumes "0 < n" "bindExecuteScan env st args sp tType c = (c1, st1, r)"
    and "bindExecuteScanBatched env st args sp tType n agreeable old c = (c2, st2, given, e)"
  shows "c2 = c1 \<and> st2 = st1 \<and> (case r of Inl err \<Rightarrow> e = Some err | Inr rows \<Rightarrow> e = None \<and> given = old @ chunks n rows)"
proof -
  obtain cn err where sb: "send_bind (st_name st) (st_resultFmts st) args (cl_conn c) = (cn, err)"
    by fastforce
  show ?thesis
  proof (cases err)
    case (Some x)
    then show ?thesis
      using assms sb by (auto simp: bindExecuteScan_def bindExecuteScanBatched_def)
  next
    case None
    let ?s = "\<lparr>sn_client = c\<lparr>cl_conn := cn\<rparr>, sn_plan = st_plan st, sn_setters = sp, sn_cache = Map.empty,
                   sn_slots = replicate (initialCap (cl_cfg c)) (zero_val tType), sn_rowCount = 0, sn_pgError = None\<rparr>"
    let ?b = "\<lparr>sn_client = c\<lparr>cl_conn := cn\<rparr>, sn_plan = st_plan st, sn_setters = sp, sn_cache = Map.empty,
                   sn_slots = replicate n (zero_val tType), sn_rowCount = 0, sn_pgError = None,
                   bt_total = 0, bt_cbErr = None, bt_given = old\<rparr>"
    have start: "in_step tType n old ?s ?b"
      unfolding in_step_def
      by (intro conjI exI [of _ "[]"] exI [of _ "initialCap (cl_cfg c)"]) (use assms(1) in \<open>auto simp: same_locals_def initialCap_def\<close>)
    obtain cn1 x where l1: "msg_loop (scan_step env tType (st_resultFmts st)) (\<lambda>e s. (s, Inl (ClientFail (WireErr e)))) cn ?s = (cn1, x)"
      by (metis surj_pair)
    obtain cn2 y where l2: "msg_loop (batch_step env tType n agreeable (st_resultFmts st)) (\<lambda>e s. (s, Some (ClientFail (WireErr e)))) cn ?b = (cn2, y)"
      by (metis surj_pair)
    have fails: "same_end n old (s, Inl (ClientFail (WireErr e))) (b, Some (ClientFail (WireErr e)))"
      if "in_step tType n old s b" for s b e
      using that by (simp add: same_end_def in_step_def same_locals_def)
    have "cn1 = cn2 \<and> same_end n old x y"
      by (rule msg_loop_sim [where R = "in_step tType n old", OF _ _ start l1 l2]) (rule step_in_step fails, assumption)+
    then show ?thesis
      using assms(2,3) sb None l1 l2 by (cases x; cases y; cases r) (auto simp: bindExecuteScan_def bindExecuteScanBatched_def same_end_def)
  qed
qed

text \<open>Batches are only added.\<close>

definition adds_to :: "go_val list list \<Rightarrow> batch_state \<Rightarrow> bool" where
  "adds_to old b \<longleftrightarrow> (\<exists>more. bt_given b = old @ more)"

lemma batch_flush_adds: "batch_flush tType cb b = (b', e) \<Longrightarrow> adds_to old b \<Longrightarrow> adds_to old b'"
  by (auto simp: batch_flush_def adds_to_def Let_def split: if_splits option.splits)

lemma scan_other_given:
  "scan_other env tType fmts t body (b :: batch_state) = Inl b' \<Longrightarrow> bt_given b' = bt_given b"
  "scan_other env tType fmts t body (b :: batch_state) = Inr (b', err) \<Longrightarrow> bt_given b' = bt_given b"
  by (auto simp: scan_other_def on_scan_client_def Let_def split: if_splits sum.splits)

lemma batch_step_adds:
  assumes "adds_to old b"
  shows "batch_step env tType n cb fmts t body b = Inl b' \<Longrightarrow> adds_to old b'"
    "batch_step env tType n cb fmts t body b = Inr x \<Longrightarrow> adds_to old (fst x)"
proof -
  have f: "adds_to old b1" if "fill_slot body b = (b1, e)" for b1 e
    using that assms by (auto simp: fill_slot_def adds_to_def split: prod.splits)
  have u: "adds_to old (b1\<lparr>sn_rowCount := k, bt_total := m\<rparr>) = adds_to old b1" "adds_to old (on_scan_client g b1) = adds_to old b1"
    "adds_to old (b1\<lparr>bt_cbErr := z\<rparr>) = adds_to old b1" for b1 k m g z
    by (simp_all add: adds_to_def on_scan_client_def)
  consider "t = MsgDataRow" | "t = MsgReadyForQuery" | "t \<noteq> MsgDataRow" "t \<noteq> MsgReadyForQuery"
    by blast
  then have "case batch_step env tType n cb fmts t body b of Inl b' \<Rightarrow> adds_to old b' | Inr x \<Rightarrow> adds_to old (fst x)"
  proof cases
    case 1
    obtain b1 e where b1: "fill_slot body b = (b1, e)"
      by fastforce
    obtain b2 e2 where b2: "batch_flush tType cb (b1\<lparr>sn_rowCount := sn_rowCount b1 + 1, bt_total := bt_total b1 + 1\<rparr>) = (b2, e2)"
      by fastforce
    show ?thesis
      using 1 assms f [OF b1] b1 b2 u batch_flush_adds [OF b2, of old]
      by (cases "Suc (sn_rowCount b1) = n"; cases e; cases e2) (simp_all add: batch_step_def Let_def)
  next
    case 2
    obtain b2 e2 where b2: "batch_flush tType cb (on_scan_client (\<lambda>c. c\<lparr>cl_lastRows := bt_total b\<rparr>) b) = (b2, e2)"
      by fastforce
    show ?thesis
      using 2 assms b2 u batch_flush_adds [OF b2, of old]
      by (simp add: batch_step_def Let_def split: option.split)
  next
    case 3
    then show ?thesis
      using assms scan_other_given [of env tType fmts t body b]
      by (cases "scan_other env tType fmts t body b") (auto simp: batch_step_def adds_to_def)
  qed
  then show "batch_step env tType n cb fmts t body b = Inl b' \<Longrightarrow> adds_to old b'"
    "batch_step env tType n cb fmts t body b = Inr x \<Longrightarrow> adds_to old (fst x)"
    by simp_all
qed

lemma bindExecute_adds:
  assumes "bindExecuteScanBatched env st args sp tType n cb old c = (c2, st2, given, e)"
  shows "\<exists>more. given = old @ more"
proof -
  obtain cn err where sb: "send_bind (st_name st) (st_resultFmts st) args (cl_conn c) = (cn, err)"
    by fastforce
  show ?thesis
  proof (cases err)
    case None
    let ?b = "\<lparr>sn_client = c\<lparr>cl_conn := cn\<rparr>, sn_plan = st_plan st, sn_setters = sp, sn_cache = Map.empty,
                   sn_slots = replicate n (zero_val tType), sn_rowCount = 0, sn_pgError = None,
                   bt_total = 0, bt_cbErr = None, bt_given = old\<rparr>"
    obtain cn2 y where l: "msg_loop (batch_step env tType n cb (st_resultFmts st)) (\<lambda>e s. (s, Some (ClientFail (WireErr e)))) cn ?b = (cn2, y)"
      by (metis surj_pair)
    have "adds_to old (fst y)"
      by (rule msg_loop_inv [where I = "adds_to old" and Q = "\<lambda>y. adds_to old (fst y)", OF _ _ _ _ l])
         (erule (1) batch_step_adds | simp add: adds_to_def)+
    then obtain more where "bt_given (fst y) = old @ more"
      by (auto simp: adds_to_def)
    then show ?thesis
      using assms sb None l by (intro exI [of _ more]) (auto simp: bindExecuteScanBatched_def split: prod.splits)
  qed (use assms sb in \<open>auto simp: bindExecuteScanBatched_def\<close>)
qed

lemma loop_same:
  assumes "0 < n"
  shows "ScanStruct_loop env left choice tType sql args c = (c1, r) \<Longrightarrow>
    ScanStructBatched_loop env left choice tType n agreeable sql args old c = (c2, given, e) \<Longrightarrow>
    c2 = c1 \<and>
    (case r of Inl err \<Rightarrow> e = Some err
     | Inr rows \<Rightarrow> e = None \<and> (\<exists>again. given = old @ again @ chunks n rows \<and> (sc_get sql (cl_stmts c) = None \<longrightarrow> again = [])))"
proof (induction left arbitrary: c old)
  case 0
  then show ?case
    by (auto simp: chunks.simps)
next
  case (Suc left)
  obtain c' o' where ob: "obtain_stmt choice sql c = (c', o')"
    by fastforce
  show ?case
  proof (cases o')
    case (Inl err)
    then show ?thesis
      using Suc.prems ob by auto
  next
    case (Inr sf)
    obtain st fromCache where sf: "sf = (st, fromCache)"
      by fastforce
    have cached: "sc_get sql (cl_stmts c) = None \<longrightarrow> \<not> fromCache"
      using ob Inr sf by (auto simp: obtain_stmt_def split: option.splits sum.splits prod.splits)
    show ?thesis
    proof (cases "buildStructPlan env tType (st_plan st)")
      case (Inl err)
      then show ?thesis
        using Suc.prems ob Inr sf by auto
    next
      case plan: (Inr sp)
      obtain d1 st1 r1 where x1: "bindExecuteScan env st args sp tType c' = (d1, st1, r1)"
        by (rule prod_cases3)
      obtain d2 st2 given1 e1 where x2: "bindExecuteScanBatched env st args sp tType n agreeable old c' = (d2, st2, given1, e1)"
        by (rule prod_cases4)
      note same = bindExecute_same [OF assms x1 x2]
      show ?thesis
      proof (cases r1)
        case (Inr rows)
        then show ?thesis
          using Suc.prems ob \<open>o' = Inr sf\<close> sf plan x1 x2 same by auto
      next
        case (Inl err)
        then have e1: "e1 = Some err" "d2 = d1" "st2 = st1"
          using same by simp_all
        show ?thesis
        proof (cases "left = 1 \<and> fromCache \<and> stale_fail err")
          case False
          then show ?thesis
            using Suc.prems ob \<open>o' = Inr sf\<close> sf plan x1 x2 e1 Inl by auto
        next
          case True
          let ?c = "d1\<lparr>cl_stmts := sc_set sql st1 (cl_stmts d1)\<rparr>"
          let ?c' = "?c\<lparr>cl_stmts := sc_invalidate sql (cl_stmts ?c)\<rparr>"
          have "ScanStruct_loop env left choice tType sql args ?c' = (c1, r)"
            "ScanStructBatched_loop env left choice tType n agreeable sql args given1 ?c' = (c2, given, e)"
            using Suc.prems ob \<open>o' = Inr sf\<close> sf plan x1 x2 e1 Inl True by simp_all
          note IH = Suc.IH [OF this]
          obtain more where "given1 = old @ more"
            using bindExecute_adds [OF x2] by blast
          then show ?thesis
            using IH cached True by (cases r) auto
        qed
      qed
    qed
  qed
qed

end
