(* ===== verification/Scan_Roundtrip.thy ===== *)
theory Scan_Roundtrip
  imports Scan_Proofs
begin

text \<open>
  Cells that are the wire form of a value are stored as that value: scalars in every width and in
  text, NULL, pointers, the nullable wrappers, ranges, arrays of one and two dimensions, composites,
  and their nesting. From the cells a whole DataRow, also through embedded structs.
\<close>

section \<open>Scalars\<close>

text \<open>A cell of type \<open>oid\<close> in format \<open>fmt\<close> that stands for a value of a scalar Go type.\<close>

inductive scalar_sends :: "OID \<Rightarrow> int \<Rightarrow> go_type \<Rightarrow> go_val \<Rightarrow> bytes \<Rightarrow> bool" where
  of_bool: "underlying t = TBool \<Longrightarrow> scalar_sends OIDBool 1 t (VBool b) [if b then 1 else 0]"
| of_int2: "underlying t = TInt k \<Longrightarrow> in_kind k i \<Longrightarrow> in_kind KInt16 i \<Longrightarrow>
    scalar_sends OIDInt2 1 t (VInt i) (putU16 (word_of_int i))"
| of_int4: "oid = OIDInt4 \<or> oid = OIDOID \<Longrightarrow> underlying t = TInt k \<Longrightarrow> in_kind k i \<Longrightarrow> in_kind KInt32 i \<Longrightarrow>
    scalar_sends oid 1 t (VInt i) (putU32 (word_of_int i))"
| of_int8: "underlying t = TInt k \<Longrightarrow> in_kind k i \<Longrightarrow> in_kind KInt64 i \<Longrightarrow>
    scalar_sends OIDInt8 1 t (VInt i) (putU64 (word_of_int i))"
| of_float4: "underlying t = TFloat32 \<Longrightarrow> n < 2 ^ 32 \<Longrightarrow> scalar_sends OIDFloat4 1 t (VFloat n) (putU32 (word_of_nat n))"
| of_float4_wide: "underlying t = TFloat64 \<Longrightarrow> n < 2 ^ 32 \<Longrightarrow>
    scalar_sends OIDFloat4 1 t (VFloat (float64_of_32 n)) (putU32 (word_of_nat n))"
| of_float8: "underlying t = TFloat64 \<Longrightarrow> n < 2 ^ 64 \<Longrightarrow> scalar_sends OIDFloat8 1 t (VFloat n) (putU64 (word_of_nat n))"
| of_text: "oid \<in> {OIDText, OIDVarchar, OIDBPChar, OIDName, OIDJSON} \<Longrightarrow> underlying t = TString \<Longrightarrow> scalar_sends oid 1 t (VString r) r"
| of_bytes: "oid \<in> {OIDText, OIDVarchar, OIDBPChar, OIDName, OIDBytea, OIDJSON} \<Longrightarrow> is_bytes t \<Longrightarrow> scalar_sends oid 1 t (VBytes r) r"
| of_jsonb: "underlying t = TString \<Longrightarrow> scalar_sends OIDJSONB 1 t (VString r) (1 # r)"
| of_jsonb_bytes: "is_bytes t \<Longrightarrow> scalar_sends OIDJSONB 1 t (VBytes r) (1 # r)"
| of_uuid: "is_uuid_array t \<Longrightarrow> length r = 16 \<Longrightarrow> scalar_sends OIDUUID 1 t (VArr (map (\<lambda>x. VInt (uint x)) r)) r"
| of_uuid_text: "underlying t = TString \<Longrightarrow> length r = 16 \<Longrightarrow> scalar_sends OIDUUID 1 t (VString (uuid_text r)) r"
| of_date: "\<bar>d\<bar> \<le> 106751991 \<Longrightarrow> scalar_sends OIDDate 1 TTime (VTime (pgEpochUnixSec + d * 86400) 0) (putU32 (word_of_int d))"
| of_timestamp: "oid = OIDTimestamp \<or> oid = OIDTimestampTZ \<Longrightarrow> - (2 ^ 63) < u \<Longrightarrow> u < 2 ^ 63 - 1 \<Longrightarrow>
    scalar_sends oid 1 TTime (VTime (pgEpochUnixSec + u div 1000000) (u mod 1000000 * 1000)) (putU64 (word_of_int u))"
| of_plain_text: "fmt \<noteq> 1 \<Longrightarrow> underlying t = TString \<Longrightarrow> scalar_sends oid fmt t (VString r) r"
| of_plain_bytes: "fmt \<noteq> 1 \<Longrightarrow> is_bytes t \<Longrightarrow> scalar_sends oid fmt t (VBytes r) r"

definition scalar_type :: "go_type \<Rightarrow> bool" where
  "scalar_type t \<longleftrightarrow> t = TTime \<or> \<not> is_struct t \<and> \<not> is_plain_slice t \<and> (\<forall>u. underlying t \<noteq> TPtr u)"

lemma pickSetter_plain:
  assumes "no_scanners env" "scalar_type t"
  shows "pickSetter env p oid fmt t = map_sum id plain_setter (if fmt = 1 then pickBinarySetter oid t else pickTextSetter oid t)"
proof -
  have "map_of null_types TTime = None"
    by (simp add: null_types_def null_type_def)
  then have n: "map_of null_types t = None"
    using assms(2) null_type_is_struct unfolding scalar_type_def by (metis option.exhaust)
  have r: "t \<noteq> rangeBytesType"
    using assms(2) by (auto simp: scalar_type_def is_struct_def rangeBytesType_def)
  have c: "\<not> (se_scans env t \<and> \<not> is_null_type t)" "\<not> (fmt = 1 \<and> IsRange oid \<and> t = rangeBytesType)"
    "\<not> (fmt = 1 \<and> is_struct t \<and> t \<noteq> TTime \<and> t \<noteq> rangeBytesType \<and> \<not> is_null_type t \<and> composite_fields t \<noteq> [])"
    "\<not> (ArrayElem oid \<noteq> 0 \<and> is_plain_slice t)"
    using assms r by (auto simp: no_scanners_def scalar_type_def is_plain_slice_def)
  have p: "underlying t \<noteq> TPtr u" for u
    using assms(2) by (auto simp: scalar_type_def)
  note eq = pickSetter.simps [of env p oid fmt t, unfolded n option.case]
  show ?thesis
    unfolding eq if_not_P [OF c(1)] if_not_P [OF c(2)] if_not_P [OF c(3)] if_not_P [OF c(4)]
    using p by (simp split: go_type.splits)
qed

lemma scalar_types:
  "underlying t = TBool \<Longrightarrow> scalar_type t" "underlying t = TInt k \<Longrightarrow> scalar_type t" "underlying t = TFloat32 \<Longrightarrow> scalar_type t"
  "underlying t = TFloat64 \<Longrightarrow> scalar_type t" "underlying t = TString \<Longrightarrow> scalar_type t" "underlying t = TArr n e \<Longrightarrow> scalar_type t"
  "underlying t = TSlice e \<Longrightarrow> underlying e = TInt KUint8 \<Longrightarrow> scalar_type t" "scalar_type TTime"
  by (simp_all add: scalar_type_def is_struct_def is_plain_slice_def)

lemma is_bytesE: "is_bytes t \<Longrightarrow> (\<And>e. underlying t = TSlice e \<Longrightarrow> underlying e = TInt KUint8 \<Longrightarrow> P) \<Longrightarrow> P"
  by (cases "underlying t") (auto simp: is_bytes_def)

lemma is_uuid_arrayE: "is_uuid_array t \<Longrightarrow> (\<And>e. underlying t = TArr 16 e \<Longrightarrow> underlying e = TInt KUint8 \<Longrightarrow> P) \<Longrightarrow> P"
  by (cases "underlying t") (auto simp: is_uuid_array_def)

lemma scalar_sends_type: "scalar_sends oid fmt t v r \<Longrightarrow> scalar_type t"
  by (erule scalar_sends.cases) (auto elim: is_bytesE is_uuid_arrayE intro: scalar_types)

lemma in_kind_bounds:
  "in_kind KInt16 i \<Longrightarrow> - (2 ^ 15) \<le> i \<and> i < 2 ^ 15" "in_kind KInt32 i \<Longrightarrow> - (2 ^ 31) \<le> i \<and> i < 2 ^ 31"
  "in_kind KInt64 i \<Longrightarrow> - (2 ^ 63) \<le> i \<and> i < 2 ^ 63"
  by (simp_all add: in_kind_def kind_signed_def)

lemma unat_put: "n < 2 ^ 32 \<Longrightarrow> unat (word_of_nat n :: 32 word) = n" "n < 2 ^ 64 \<Longrightarrow> unat (word_of_nat n :: 64 word) = n"
  by (simp_all add: unat_of_nat)

lemma usec_days: "(d * 86400000000) div 1000000 = d * 86400" "(d * 86400000000) mod 1000000 = 0" for d :: int
proof -
  have "d * 86400000000 = d * 86400 * 1000000"
    by simp
  then show "(d * 86400000000) div 1000000 = d * 86400" "(d * 86400000000) mod 1000000 = 0"
    by (metis nonzero_mult_div_cancel_right mod_mult_self2_is_0 zero_neq_numeral)+
qed

lemma date_in_usec:
  assumes "\<bar>d\<bar> \<le> 106751991"
  shows "usec_time (s64 (d * 86400000000)) = VTime (pgEpochUnixSec + d * 86400) 0"
proof -
  have "s64 (d * 86400000000) = d * 86400000000"
    using assms by (intro s64_id) auto
  then show ?thesis
    by (simp add: usec_time_def pgUsecToTime_exact usec_days)
qed

text \<open>Each setter on the forms it is for.\<close>

definition cell_stores :: "OID \<Rightarrow> int \<Rightarrow> go_type \<Rightarrow> go_val \<Rightarrow> bytes \<Rightarrow> bool" where
  "cell_stores oid fmt t v r \<longleftrightarrow>
     (\<exists>c. (if fmt = 1 then pickBinarySetter oid t else pickTextSetter oid t) = Inr c \<and> (\<forall>z. c (Some r) z = (v, None)))"

lemma be_in_kind:
  "in_kind KInt16 i \<Longrightarrow> beI16 (putU16 (word_of_int i)) = i" "in_kind KInt32 i \<Longrightarrow> beI32 (putU32 (word_of_int i)) = i"
  "in_kind KInt64 i \<Longrightarrow> beI64 (putU64 (word_of_int i)) = i"
  by (drule in_kind_bounds, rule beI_put_nil; simp)+

lemma int_cell:
  assumes "underlying t = TInt k" "in_kind k i"
  shows "in_kind KInt16 i \<Longrightarrow> cell_stores OIDInt2 1 t (VInt i) (putU16 (word_of_int i))"
    "in_kind KInt32 i \<Longrightarrow> oid = OIDInt4 \<or> oid = OIDOID \<Longrightarrow> cell_stores oid 1 t (VInt i) (putU32 (word_of_int i))"
    "in_kind KInt64 i \<Longrightarrow> cell_stores OIDInt8 1 t (VInt i) (putU64 (word_of_int i))"
  using assms be_in_kind by (auto simp: cell_stores_def pickBinarySetter_def intSetter_def be_int_def)

lemma float_cell:
  "underlying t = TFloat32 \<Longrightarrow> n < 2 ^ 32 \<Longrightarrow> cell_stores OIDFloat4 1 t (VFloat n) (putU32 (word_of_nat n))"
  "underlying t = TFloat64 \<Longrightarrow> n < 2 ^ 32 \<Longrightarrow> cell_stores OIDFloat4 1 t (VFloat (float64_of_32 n)) (putU32 (word_of_nat n))"
  "underlying t = TFloat64 \<Longrightarrow> n < 2 ^ 64 \<Longrightarrow> cell_stores OIDFloat8 1 t (VFloat n) (putU64 (word_of_nat n))"
  by (simp_all add: cell_stores_def pickBinarySetter_def exact_setter_def float4_val_def unat_put [simplified])

lemma string_cell:
  assumes "underlying t = TString"
  shows "oid \<in> {OIDText, OIDVarchar, OIDBPChar, OIDName, OIDJSON} \<Longrightarrow> cell_stores oid 1 t (VString r) r"
    "cell_stores OIDJSONB 1 t (VString r) (1 # r)"
    "length r = 16 \<Longrightarrow> cell_stores OIDUUID 1 t (VString (uuid_text r)) r"
    "fmt \<noteq> 1 \<Longrightarrow> cell_stores oid fmt t (VString r) r"
proof -
  have b: "\<not> is_bytes t"
    using assms by (simp add: is_bytes_def)
  show "oid \<in> {OIDText, OIDVarchar, OIDBPChar, OIDName, OIDJSON} \<Longrightarrow> cell_stores oid 1 t (VString r) r"
    "cell_stores OIDJSONB 1 t (VString r) (1 # r)"
    "length r = 16 \<Longrightarrow> cell_stores OIDUUID 1 t (VString (uuid_text r)) r"
    "fmt \<noteq> 1 \<Longrightarrow> cell_stores oid fmt t (VString r) r"
    using assms b by (auto simp: cell_stores_def pickBinarySetter_def pickTextSetter_def stringSetter_def jsonbStringSetter_def
        uuidStringSetter_def strip_version_def)
qed

lemma bytes_cell:
  assumes "is_bytes t"
  shows "oid \<in> {OIDText, OIDVarchar, OIDBPChar, OIDName, OIDBytea, OIDJSON} \<Longrightarrow> cell_stores oid 1 t (VBytes r) r"
    "cell_stores OIDJSONB 1 t (VBytes r) (1 # r)"
    "fmt \<noteq> 1 \<Longrightarrow> cell_stores oid fmt t (VBytes r) r"
proof -
  have b: "underlying t \<noteq> TString"
    using assms by (auto simp: is_bytes_def)
  show "oid \<in> {OIDText, OIDVarchar, OIDBPChar, OIDName, OIDBytea, OIDJSON} \<Longrightarrow> cell_stores oid 1 t (VBytes r) r"
    "cell_stores OIDJSONB 1 t (VBytes r) (1 # r)"
    "fmt \<noteq> 1 \<Longrightarrow> cell_stores oid fmt t (VBytes r) r"
    using assms b by (auto simp: cell_stores_def pickBinarySetter_def pickTextSetter_def byteSliceSetter_def strip_version_def)
qed

lemma time_cell:
  "\<bar>d\<bar> \<le> 106751991 \<Longrightarrow> cell_stores OIDDate 1 TTime (VTime (pgEpochUnixSec + d * 86400) 0) (putU32 (word_of_int d))"
  "oid = OIDTimestamp \<or> oid = OIDTimestampTZ \<Longrightarrow> - (2 ^ 63) < u \<Longrightarrow> u < 2 ^ 63 - 1 \<Longrightarrow>
     cell_stores oid 1 TTime (VTime (pgEpochUnixSec + u div 1000000) (u mod 1000000 * 1000)) (putU64 (word_of_int u))"
proof -
  show "cell_stores OIDDate 1 TTime (VTime (pgEpochUnixSec + d * 86400) 0) (putU32 (word_of_int d))" if "\<bar>d\<bar> \<le> 106751991"
  proof -
    have "beI32 (putU32 (word_of_int d)) = d"
      using that by (intro beI_put_nil) auto
    moreover have "d \<noteq> MaxInt32" "d \<noteq> MinInt32"
      using that by (auto simp: MaxInt32_def MinInt32_def)
    ultimately show ?thesis
      using date_in_usec [OF that] by (simp add: cell_stores_def pickBinarySetter_def dateSetter_def exact_setter_def)
  qed
  show "cell_stores oid 1 TTime (VTime (pgEpochUnixSec + u div 1000000) (u mod 1000000 * 1000)) (putU64 (word_of_int u))"
    if "oid = OIDTimestamp \<or> oid = OIDTimestampTZ" "- (2 ^ 63) < u" "u < 2 ^ 63 - 1"
  proof -
    have b: "beI64 (putU64 (word_of_int u)) = u"
      using that by (intro beI_put_nil) auto
    have "pickBinarySetter oid TTime = Inr timestampSetter"
      using that(1) by (auto simp: pickBinarySetter_def)
    then show ?thesis
      using that b by (simp add: cell_stores_def timestampSetter_def exact_setter_def usec_time_def pgUsecToTime_exact)
  qed
qed

lemma uuid_cell: "is_uuid_array t \<Longrightarrow> length r = 16 \<Longrightarrow> cell_stores OIDUUID 1 t (VArr (map (\<lambda>x. VInt (uint x)) r)) r"
  by (erule is_uuid_arrayE) (auto simp: cell_stores_def pickBinarySetter_def exact_setter_def is_uuid_array_def)

lemma bool_cell: "underlying t = TBool \<Longrightarrow> cell_stores OIDBool 1 t (VBool b) [if b then 1 else 0]"
  by (simp add: cell_stores_def pickBinarySetter_def boolSetter_def)

lemma scalar_cell: "scalar_sends oid fmt t v r \<Longrightarrow> cell_stores oid fmt t v r"
  by (induction rule: scalar_sends.induct) (blast intro: int_cell float_cell string_cell bytes_cell time_cell uuid_cell bool_cell)+

section \<open>Compound values\<close>

text \<open>The fields of a struct, with some set.\<close>

definition fill_fields :: "go_val list \<Rightarrow> (nat \<times> go_val) list \<Rightarrow> go_val list" where
  "fill_fields vs jvs = foldl (\<lambda>ws (j, v). ws[j := v]) vs jvs"

text \<open>The wire forms of a composite and of a range (\<open>record_send\<close>, \<open>range_send\<close>).\<close>

definition comp_wire :: "(OID \<times> bytes option) list \<Rightarrow> bytes" where
  "comp_wire cols = putU32 (word_of_int (int (length cols))) @ concat (map (\<lambda>(oid, raw). putU32 oid @ elem_wire raw) cols)"

definition range_of :: "byte \<Rightarrow> bytes option \<Rightarrow> bytes option \<Rightarrow> RangeBytes" where
  "range_of flags lo up =
     \<lparr>rb_Flags = flags, rb_Lower = lo, rb_Upper = up, rb_Empty = (flags AND 1 \<noteq> 0), rb_LowerInclusive = (flags AND 2 \<noteq> 0),
      rb_UpperInclusive = (flags AND 4 \<noteq> 0), rb_LowerInfinite = (flags AND 8 \<noteq> 0), rb_UpperInfinite = (flags AND 16 \<noteq> 0)\<rparr>"

text \<open>A bound that is sent, or not because it is infinite; a zero-length bound is stored as nil.\<close>

definition bound_wire :: "bool \<Rightarrow> bytes \<Rightarrow> bytes" where
  "bound_wire unbounded b = (if unbounded then [] else elem_wire (Some b))"

definition bound_val :: "bool \<Rightarrow> bytes \<Rightarrow> bytes option" where
  "bound_val unbounded b = (if unbounded then None else append_nil b)"

text \<open>
  A cell in format \<open>fmt\<close>, NULL included, of type \<open>oid\<close> that stands for the value \<open>v\<close> of type \<open>t\<close>. The
  map \<open>ct\<close> gives, for each field of a composite by its path, the type of the attribute.
\<close>

inductive sends :: "scan_env \<Rightarrow> oid_cache \<Rightarrow> nat list \<Rightarrow> OID \<Rightarrow> int \<Rightarrow> go_type \<Rightarrow> go_val \<Rightarrow> bytes option \<Rightarrow> bool" for env ct where
  null: "pickSetter env p oid fmt t = Inr s \<Longrightarrow> sends env ct p oid fmt t (zero_val t) None"
| scalar: "scalar_sends oid fmt t v r \<Longrightarrow> sends env ct p oid fmt t v (Some r)"
| pointer: "underlying t = TPtr u \<Longrightarrow> sends env ct p oid fmt u v (Some r) \<Longrightarrow> sends env ct p oid fmt t (VPtr (Some v)) (Some r)"
| wrapped: "map_of null_types t = Some u \<Longrightarrow> sends env ct p oid fmt u v (Some r) \<Longrightarrow>
    sends env ct p oid fmt t (VStruct [v, VBool True]) (Some r)"
| empty_range: "IsRange oid \<Longrightarrow> flags AND 1 \<noteq> 0 \<Longrightarrow>
    sends env ct p oid 1 rangeBytesType (range_val (range_of flags None None)) (Some [flags])"
| range: "IsRange oid \<Longrightarrow> flags AND 1 = 0 \<Longrightarrow> length lo < 2 ^ 31 \<Longrightarrow> length up < 2 ^ 31 \<Longrightarrow>
    sends env ct p oid 1 rangeBytesType
      (range_val (range_of flags (bound_val (flags AND 8 \<noteq> 0) lo) (bound_val (flags AND 16 \<noteq> 0) up)))
      (Some (flags # bound_wire (flags AND 8 \<noteq> 0) lo @ bound_wire (flags AND 16 \<noteq> 0) up))"
| empty_array: "underlying t = TSlice e \<Longrightarrow> is_plain_slice t \<Longrightarrow> ArrayElem oid \<noteq> 0 \<Longrightarrow> pickSetter env p oid 1 t = Inr s \<Longrightarrow>
    sends env ct p oid 1 t (VSlice (Some [])) (Some (array_wire flags eo [] []))"
| array: "underlying t = TSlice e \<Longrightarrow> is_plain_slice t \<Longrightarrow> \<not> is_plain_slice e \<Longrightarrow> ArrayElem oid \<noteq> 0 \<Longrightarrow>
    length raws = length vs \<Longrightarrow> 0 < length vs \<Longrightarrow> length vs < 2 ^ 31 \<Longrightarrow>
    (\<And>i. i < length vs \<Longrightarrow> elem_ok (raws ! i)) \<Longrightarrow> (\<And>i. i < length vs \<Longrightarrow> sends env ct p (ArrayElem oid) 1 e (vs ! i) (raws ! i)) \<Longrightarrow>
    sends env ct p oid 1 t (VSlice (Some vs)) (Some (array_wire flags eo [(length vs, lb)] raws))"
| matrix: "underlying t = TSlice l \<Longrightarrow> underlying l = TSlice e \<Longrightarrow> is_plain_slice l \<Longrightarrow> \<not> is_plain_slice e \<Longrightarrow> ArrayElem oid \<noteq> 0 \<Longrightarrow>
    length raws = n * k \<Longrightarrow> length vs = n * k \<Longrightarrow> 0 < n * k \<Longrightarrow> n < 2 ^ 31 \<Longrightarrow> k < 2 ^ 31 \<Longrightarrow>
    (\<And>i. i < n * k \<Longrightarrow> elem_ok (raws ! i)) \<Longrightarrow> (\<And>i. i < n * k \<Longrightarrow> sends env ct p (ArrayElem oid) 1 e (vs ! i) (raws ! i)) \<Longrightarrow>
    sends env ct p oid 1 t (VSlice (Some (map (\<lambda>row. VSlice (Some row)) (groups n k vs))))
      (Some (array_wire flags eo [(n, lb), (k, lb')] raws))"
| composite: "underlying t = TStruct fs \<Longrightarrow> t \<noteq> rangeBytesType \<Longrightarrow> map_of null_types t = None \<Longrightarrow> composite_fields t = cfs \<Longrightarrow>
    cfs \<noteq> [] \<Longrightarrow> length oids = length cfs \<Longrightarrow> length vs = length cfs \<Longrightarrow> length raws = length cfs \<Longrightarrow> length cfs < 2 ^ 31 \<Longrightarrow>
    (\<And>k. k < length cfs \<Longrightarrow> ct (p @ [k]) = Some (oids ! k)) \<Longrightarrow> (\<And>k. k < length cfs \<Longrightarrow> elem_ok (raws ! k)) \<Longrightarrow>
    (\<And>k. k < length cfs \<Longrightarrow> sends env ct (p @ [k]) (oids ! k) 1 (snd (cfs ! k)) (vs ! k) (raws ! k)) \<Longrightarrow>
    sends env ct p oid 1 t (VStruct (fill_fields (map zero_field fs) (zip (map fst cfs) vs))) (Some (comp_wire (zip oids raws)))"

section \<open>Storing\<close>

definition stores :: "oid_cache \<Rightarrow> go_type \<Rightarrow> setter \<Rightarrow> go_val \<Rightarrow> bytes option \<Rightarrow> bool" where
  "stores ct t s v raw \<longleftrightarrow>
     (\<forall>cache. cache \<subseteq>\<^sub>m ct \<longrightarrow> (\<exists>cache'. cache' \<subseteq>\<^sub>m ct \<and> s cache raw (zero_val t) = (cache', v, None)))"

lemma storesI: "(\<And>cache. cache \<subseteq>\<^sub>m ct \<Longrightarrow> \<exists>cache'. cache' \<subseteq>\<^sub>m ct \<and> s cache raw (zero_val t) = (cache', v, None)) \<Longrightarrow> stores ct t s v raw"
  by (simp add: stores_def)

lemma storesE: "stores ct t s v raw \<Longrightarrow> cache \<subseteq>\<^sub>m ct \<Longrightarrow>
    (\<And>cache'. cache' \<subseteq>\<^sub>m ct \<Longrightarrow> s cache raw (zero_val t) = (cache', v, None) \<Longrightarrow> P) \<Longrightarrow> P"
  by (auto simp: stores_def)

text \<open>Reading back what was written.\<close>

lemma elem_wire_length: "4 \<le> length (elem_wire e)"
  by (cases e) (simp_all add: elem_wire_def)

lemma beI32_null: "beI32 (putU32 (- 1) @ r) = - 1"
  using beI32_put [of "- 1" r] by simp

lemma readArrayElem_wire: "elem_ok e \<Longrightarrow> readArrayElem (elem_wire e @ rest) i = Inr (e, rest)"
proof (cases e)
  case None
  then show ?thesis
    by (simp add: readArrayElem_def elem_wire_def beI32_null)
next
  case (Some b)
  moreover assume "elem_ok e"
  ultimately have "beI32 (putU32 (word_of_int (int (length b))) @ b @ rest) = int (length b)"
    by (intro beI32_put) (auto simp: elem_ok_def)
  then show ?thesis
    using Some by (simp add: readArrayElem_def elem_wire_def)
qed

lemma read_field_wire: "elem_ok e \<Longrightarrow> read_field (putU32 oid @ elem_wire e @ rest) i = Inr (oid, e, rest)"
proof (cases e)
  case None
  then show ?thesis
    by (simp add: read_field_def elem_wire_def beI32_null)
next
  case (Some b)
  moreover assume "elem_ok e"
  ultimately have "beI32 (putU32 (word_of_int (int (length b))) @ b @ rest) = int (length b)"
    by (intro beI32_put) (auto simp: elem_ok_def)
  then show ?thesis
    using Some by (simp add: read_field_def elem_wire_def)
qed

lemma read_bound_wire: "length b < 2 ^ 31 \<Longrightarrow> read_bound short bad (elem_wire (Some b) @ rest) = Inr (b, rest)"
proof -
  assume "length b < 2 ^ 31"
  then have "beI32 (putU32 (word_of_int (int (length b))) @ b @ rest) = int (length b)"
    by (intro beI32_put) auto
  then show ?thesis
    by (simp add: read_bound_def elem_wire_def)
qed

lemma elem_loop_stores:
  assumes "cache \<subseteq>\<^sub>m ct" "length raws = length vs" "\<And>i. i < length vs \<Longrightarrow> elem_ok (raws ! i) \<and> stores ct e s (vs ! i) (raws ! i)"
  shows "\<exists>cache'. cache' \<subseteq>\<^sub>m ct \<and>
    elem_loop s i cache (array_body raws @ rest) (replicate (length vs) (zero_val e)) = (cache', vs, Inr rest)"
  using assms(2,1,3)
proof (induction raws vs arbitrary: i cache rule: list_induct2)
  case (Cons raw raws v vs)
  have here: "elem_ok raw" "stores ct e s v raw"
    using Cons.prems(2) [of 0] by simp_all
  obtain c1 where c1: "c1 \<subseteq>\<^sub>m ct" "s cache raw (zero_val e) = (c1, v, None)"
    using here(2) Cons.prems(1) by (rule storesE)
  have "elem_ok (raws ! m) \<and> stores ct e s (vs ! m) (raws ! m)" if "m < length vs" for m
    using Cons.prems(2) [of "Suc m"] that by simp
  from Cons.IH [OF c1(1) this] obtain c2 where "c2 \<subseteq>\<^sub>m ct"
      "elem_loop s (i + 1) c1 (array_body raws @ rest) (replicate (length vs) (zero_val e)) = (c2, vs, Inr rest)"
    by blast
  then show ?case
    using c1 readArrayElem_wire [OF here(1), of "array_body raws @ rest" i] by (intro exI [of _ c2]) simp
qed simp

lemma array1_stores:
  assumes "underlying t = TSlice e" "length raws = length vs" "length vs < 2 ^ 31"
    and "\<And>i. i < length vs \<Longrightarrow> elem_ok (raws ! i) \<and> stores ct e s (vs ! i) (raws ! i)"
  shows "stores ct t (arraySetter1 s e) (VSlice (Some vs)) (Some (array_wire flags eo [(length vs, lb)] raws))"
proof (rule storesI)
  fix cache assume "cache \<subseteq>\<^sub>m ct"
  from elem_loop_stores [OF this assms(2,4), of 0 "[]"] obtain c where
      c: "c \<subseteq>\<^sub>m ct" "elem_loop s 0 cache (array_body raws) (replicate (length vs) (zero_val e)) = (c, vs, Inr [])"
    by auto
  have n: "beI32 (putU32 (word_of_int (int (length vs))) @ r) = int (length vs)" for r
    using assms(3) by (intro beI32_put) auto
  have d: "beI32 (putU32 1 @ r) = 1" for r
    using beI32_put [of 1 r] by simp
  show "\<exists>cache'. cache' \<subseteq>\<^sub>m ct \<and>
      arraySetter1 s e cache (Some (array_wire flags eo [(length vs, lb)] raws)) (zero_val t) = (cache', VSlice (Some vs), None)"
    using c n d by (intro exI [of _ c]) (simp add: arraySetter1_def array_wire_def)
qed

lemma outer_loop_stores:
  assumes "\<And>i. i < length raws \<Longrightarrow> elem_ok (raws ! i) \<and> stores ct e s (vs ! i) (raws ! i)" "length raws = n * k" "length vs = n * k"
    and "cache \<subseteq>\<^sub>m ct"
  shows "\<exists>cache'. cache' \<subseteq>\<^sub>m ct \<and>
    outer_loop s (replicate k (zero_val e)) i cache (array_body raws) (replicate n (VSlice None)) =
      (cache', map (\<lambda>row. VSlice (Some row)) (groups n k vs), None)"
  using assms
proof (induction n arbitrary: raws vs i cache)
  case 0
  then show ?case
    by simp
next
  case (Suc n)
  have len: "length (take k raws) = length (take k vs)" "length (take k vs) = k"
    using Suc.prems(2,3) by auto
  have "elem_ok (take k raws ! m) \<and> stores ct e s (take k vs ! m) (take k raws ! m)" if "m < length (take k vs)" for m
    using Suc.prems(1) [of m] Suc.prems(2) that by auto
  from elem_loop_stores [OF Suc.prems(4) len(1) this, of "i * k" "array_body (drop k raws)"] obtain c1 where
      c1: "c1 \<subseteq>\<^sub>m ct" "elem_loop s (i * k) cache (array_body (take k raws) @ array_body (drop k raws)) (replicate k (zero_val e)) =
        (c1, take k vs, Inr (array_body (drop k raws)))"
    unfolding len(2) by blast
  have "elem_ok (drop k raws ! m) \<and> stores ct e s (drop k vs ! m) (drop k raws ! m)" if "m < length (drop k raws)" for m
    using Suc.prems(1) [of "k + m"] Suc.prems(2,3) that by simp
  from Suc.IH [OF this _ _ c1(1), of "i + 1"] Suc.prems(2,3) obtain c2 where
      "c2 \<subseteq>\<^sub>m ct" "outer_loop s (replicate k (zero_val e)) (i + 1) c1 (array_body (drop k raws)) (replicate n (VSlice None)) =
        (c2, map (\<lambda>row. VSlice (Some row)) (groups n k (drop k vs)), None)"
    by auto
  then show ?case
    using c1(2) unfolding array_body_simps(3) [symmetric] append_take_drop_id by (intro exI [of _ c2]) simp
qed

lemma array2_stores:
  assumes "underlying t = TSlice l" "length raws = n * k" "length vs = n * k" "n < 2 ^ 31" "k < 2 ^ 31"
    and "\<And>i. i < n * k \<Longrightarrow> elem_ok (raws ! i) \<and> stores ct e s (vs ! i) (raws ! i)"
  shows "stores ct t (arraySetter2 s e) (VSlice (Some (map (\<lambda>row. VSlice (Some row)) (groups n k vs))))
    (Some (array_wire flags eo [(n, lb), (k, lb')] raws))"
proof (rule storesI)
  fix cache assume "cache \<subseteq>\<^sub>m ct"
  from outer_loop_stores [OF _ assms(2,3) this, of e s 0] assms(2,6) obtain c where
      c: "c \<subseteq>\<^sub>m ct" "outer_loop s (replicate k (zero_val e)) 0 cache (array_body raws) (replicate n (VSlice None)) =
        (c, map (\<lambda>row. VSlice (Some row)) (groups n k vs), None)"
    by auto
  have n: "beI32 (putU32 (word_of_int (int m)) @ r) = int m" if "m < 2 ^ 31" for m r
    using that by (intro beI32_put) auto
  have d: "beI32 (putU32 2 @ r) = 2" for r
    using beI32_put [of 2 r] by simp
  show "\<exists>cache'. cache' \<subseteq>\<^sub>m ct \<and>
      arraySetter2 s e cache (Some (array_wire flags eo [(n, lb), (k, lb')] raws)) (zero_val t) =
        (cache', VSlice (Some (map (\<lambda>row. VSlice (Some row)) (groups n k vs))), None)"
    using c n [OF assms(4)] n [OF assms(5)] d by (intro exI [of _ c]) (simp add: arraySetter2_def array_wire_def)
qed

lemma empty_array_stores:
  "stores ct t (arraySetter1 s e) (VSlice (Some [])) (Some (array_wire flags eo [] []))"
  "stores ct t (arraySetter2 s e) (VSlice (Some [])) (Some (array_wire flags eo [] []))"
proof -
  have d: "beI32 (putU32 0 @ r) = 0" for r
    using beI32_put [of 0 r] by simp
  show "stores ct t (arraySetter1 s e) (VSlice (Some [])) (Some (array_wire flags eo [] []))"
    "stores ct t (arraySetter2 s e) (VSlice (Some [])) (Some (array_wire flags eo [] []))"
    using d by (auto simp: stores_def arraySetter1_def arraySetter2_def array_wire_def)
qed

lemma plain_stores: "(\<And>z. c raw z = (v, None)) \<Longrightarrow> stores ct t (plain_setter c) v raw"
  by (simp add: stores_def plain_setter_def)

lemma empty_range_cell: "flags AND 1 \<noteq> 0 \<Longrightarrow> rangeSetter (Some [flags]) z = (range_val (range_of flags None None), None)"
  by (simp add: rangeSetter_def range_of_def)

lemma range_cell:
  assumes "flags AND 1 = 0" "length lo < 2 ^ 31" "length up < 2 ^ 31"
  shows "rangeSetter (Some (flags # bound_wire (flags AND 8 \<noteq> 0) lo @ bound_wire (flags AND 16 \<noteq> 0) up)) z =
    (range_val (range_of flags (bound_val (flags AND 8 \<noteq> 0) lo) (bound_val (flags AND 16 \<noteq> 0) up)), None)"
  using assms(1) read_bound_wire [OF assms(2)] read_bound_wire [OF assms(2), where rest = "[]"] read_bound_wire [OF assms(3), where rest = "[]"]
  by (simp add: rangeSetter_def range_of_def bound_wire_def bound_val_def)

text \<open>Composites.\<close>

lemma length_fill_fields [simp]: "length (fill_fields vs jvs) = length vs"
  by (induction jvs arbitrary: vs) (auto simp: fill_fields_def)

lemma comp_field_stores:
  assumes "i < length picks" "picks ! i = (j, pick)" "pick oid = Inr s" "stores ct ft s v raw" "ct (p @ [i]) = Some oid"
    and "cache \<subseteq>\<^sub>m ct" "vs ! j = zero_val ft"
  shows "\<exists>cache'. cache' \<subseteq>\<^sub>m ct \<and> comp_field p picks i cache oid raw vs = (cache', vs[j := v], None)"
proof -
  have oid: "(case cache (p @ [i]) of Some o' \<Rightarrow> o' | None \<Rightarrow> oid) = oid"
    using assms(5,6) by (auto simp: map_le_def dom_def split: option.split)
  have "cache(p @ [i] \<mapsto> oid) \<subseteq>\<^sub>m ct"
    using assms(5,6) by (auto simp: map_le_def)
  with assms(4) obtain c where "c \<subseteq>\<^sub>m ct" "s (cache(p @ [i] \<mapsto> oid)) raw (zero_val ft) = (c, v, None)"
    by (rule storesE)
  then show ?thesis
    using assms(1,2,3,7) oid by (intro exI [of _ c]) (simp add: comp_field_def)
qed

lemma comp_loop_stores:
  assumes "length oids = length js" "length vals = length js" "length raws = length js" "i + length js = length picks"
    and "\<And>k. k < length js \<Longrightarrow> \<exists>pick s ft. picks ! (i + k) = (js ! k, pick) \<and> pick (oids ! k) = Inr s \<and>
           stores ct ft s (vals ! k) (raws ! k) \<and> ct (p @ [i + k]) = Some (oids ! k) \<and> elem_ok (raws ! k) \<and> vs ! (js ! k) = zero_val ft"
    and "distinct js" "cache \<subseteq>\<^sub>m ct"
  shows "\<exists>cache'. cache' \<subseteq>\<^sub>m ct \<and>
    comp_loop p picks (length js) i cache (concat (map (\<lambda>(oid, raw). putU32 oid @ elem_wire raw) (zip oids raws))) vs =
      (cache', fill_fields vs (zip js vals), None)"
  using assms
proof (induction js arbitrary: oids vals raws i vs cache)
  case Nil
  then show ?case
    by (simp add: fill_fields_def)
next
  case (Cons j js)
  obtain oid oids' v vals' raw raws' where l: "oids = oid # oids'" "vals = v # vals'" "raws = raw # raws'"
    using Cons.prems(1-3) by (cases oids; cases vals; cases raws) auto
  let ?rest = "concat (map (\<lambda>(oid, raw). putU32 oid @ elem_wire raw) (zip oids' raws'))"
  obtain pick s ft where k: "picks ! i = (j, pick)" "pick oid = Inr s" "stores ct ft s v raw" "ct (p @ [i]) = Some oid" "elem_ok raw"
      "vs ! j = zero_val ft"
    using Cons.prems(5) [of 0] l by auto
  have i: "i < length picks"
    using Cons.prems(4) by simp
  obtain c1 where c1: "c1 \<subseteq>\<^sub>m ct" "comp_field p picks i cache oid raw vs = (c1, vs[j := v], None)"
    using comp_field_stores [OF i k(1-4) Cons.prems(7) k(6)] by blast
  have later: "\<exists>pick s ft. picks ! (i + 1 + m) = (js ! m, pick) \<and> pick (oids' ! m) = Inr s \<and>
      stores ct ft s (vals' ! m) (raws' ! m) \<and> ct (p @ [i + 1 + m]) = Some (oids' ! m) \<and> elem_ok (raws' ! m) \<and>
      vs[j := v] ! (js ! m) = zero_val ft" if "m < length js" for m
  proof -
    have "js ! m \<noteq> j"
      using Cons.prems(6) that nth_mem by fastforce
    then show ?thesis
      using Cons.prems(5) [of "Suc m"] that l by auto
  qed
  obtain c2 where "c2 \<subseteq>\<^sub>m ct" "comp_loop p picks (length js) (i + 1) c1 ?rest (vs[j := v]) =
      (c2, fill_fields (vs[j := v]) (zip js vals'), None)"
    using Cons.IH [OF _ _ _ _ later _ c1(1)] Cons.prems(1-4,6) l by auto
  then show ?case
    using c1(2) l read_field_wire [OF k(5), of oid ?rest i] by (intro exI [of _ c2]) (simp add: fill_fields_def)
qed

lemma zero_field_type: "zero_field f = zero_val (f_type f)"
  by (cases f) simp

lemma distinct_picked:
  "distinct (map fst [(i, g f). (i, f) \<leftarrow> enumerate n fs, P f, Q f])"
  "x \<in> set [(i, g f). (i, f) \<leftarrow> enumerate n fs, P f, Q f] \<Longrightarrow> n \<le> fst x"
proof -
  show member: "n \<le> fst x" if "x \<in> set [(i, g f). (i, f) \<leftarrow> enumerate n fs, P f, Q f]" for x n fs
    using that by (auto simp: in_set_enumerate_eq split: if_splits)
  show "distinct (map fst [(i, g f). (i, f) \<leftarrow> enumerate n fs, P f, Q f])"
  proof (induction fs arbitrary: n)
    case (Cons f fs)
    then show ?case
      using member [of _ "Suc n" fs] by fastforce
  qed simp
qed

lemma distinct_composite_fields: "distinct (map fst (composite_fields t))"
  unfolding composite_fields_def by (rule distinct_picked)

section \<open>Every cell\<close>

text \<open>What the dispatch gives for each shape.\<close>

lemma null_type_struct: "map_of null_types t = Some u \<Longrightarrow> \<exists>fs. underlying t = TStruct fs"
  by (drule map_of_SomeD) (auto simp: null_types_def null_type_def)

lemma not_null_type: "(\<And>fs. underlying t \<noteq> TStruct fs) \<Longrightarrow> map_of null_types t = None"
  using null_type_struct [of t] by (cases "map_of null_types t") auto

lemma pickSetter_wrapped: "map_of null_types t = Some u \<Longrightarrow> pickSetter env p oid fmt u = Inr s \<Longrightarrow> pickSetter env p oid fmt t = Inr (nullSetterWrap s)"
  by (subst pickSetter.simps) simp

lemma pickSetter_range: "no_scanners env \<Longrightarrow> IsRange oid \<Longrightarrow> pickSetter env p oid 1 rangeBytesType = Inr (plain_setter rangeSetter)"
proof -
  have "map_of null_types rangeBytesType = None"
    by (simp add: null_types_def null_type_def rangeBytesType_def)
  then show "no_scanners env \<Longrightarrow> IsRange oid \<Longrightarrow> pickSetter env p oid 1 rangeBytesType = Inr (plain_setter rangeSetter)"
    by (subst pickSetter.simps) (simp add: no_scanners_def)
qed

lemma pickSetter_pointer:
  assumes "no_scanners env" "underlying t = TPtr u" "pickSetter env p oid fmt u = Inr s"
  shows "pickSetter env p oid fmt t = Inr (pointerSetter s u)"
proof -
  have n: "map_of null_types t = None"
    by (rule not_null_type) (simp_all add: assms(2))
  have "\<not> is_struct t" "\<not> is_plain_slice t" "t \<noteq> rangeBytesType"
    using assms(2) by (auto simp: is_struct_def is_plain_slice_def rangeBytesType_def)
  then show ?thesis
    using assms n by (subst pickSetter.simps) (simp add: no_scanners_def)
qed

lemma pickSetter_composite:
  assumes "no_scanners env" "underlying t = TStruct fs" "t \<noteq> rangeBytesType" "map_of null_types t = None" "composite_fields t \<noteq> []"
  shows "pickSetter env p oid 1 t =
    Inr (compositeSetter p (map (\<lambda>(k, j, ft). (j, \<lambda>o'. pickSetter env (p @ [k]) o' 1 ft)) (enumerate 0 (composite_fields t))) t)"
proof -
  have "is_struct t" "t \<noteq> TTime"
    using assms(2) by (auto simp: is_struct_def)
  then show ?thesis
    using assms by (subst pickSetter.simps) (simp add: no_scanners_def is_null_type_def)
qed

lemma pickSetter_array:
  assumes "no_scanners env" "underlying t = TSlice l" "is_plain_slice t" "ArrayElem oid \<noteq> 0"
  shows "pickSetter env p oid 1 t =
    (let (d, leaf) = array_leaf t in
     case underlying leaf of
       TSlice scalar \<Rightarrow>
         if d + 1 > 2 then Inl ArrayTooDeep
         else (case pickSetter env p (ArrayElem oid) 1 scalar of
                 Inl e \<Rightarrow> Inl (ArrayElemPick e)
               | Inr s \<Rightarrow> if d + 1 = 1 then Inr (arraySetter1 s scalar) else Inr (arraySetter2 s scalar))
     | _ \<Rightarrow> Inl ArrayNotSlice)"
proof -
  have n: "map_of null_types t = None"
    by (rule not_null_type) (simp_all add: assms(2))
  have c: "\<not> (se_scans env t \<and> \<not> is_null_type t)" "\<not> ((1::int) = 1 \<and> IsRange oid \<and> t = rangeBytesType)"
    "\<not> ((1::int) = 1 \<and> is_struct t \<and> t \<noteq> TTime \<and> t \<noteq> rangeBytesType \<and> \<not> is_null_type t \<and> composite_fields t \<noteq> [])"
    "ArrayElem oid \<noteq> 0 \<and> is_plain_slice t" "\<not> (1::int) \<noteq> 1"
    using assms by (auto simp: no_scanners_def is_struct_def rangeBytesType_def)
  show ?thesis
    unfolding pickSetter.simps [of env p oid 1 t, unfolded n option.case]
      if_not_P [OF c(1)] if_not_P [OF c(2)] if_not_P [OF c(3)] if_P [OF c(4)] if_not_P [OF c(5)] ..
qed

lemma array_leaf_flat: "underlying t = TSlice e \<Longrightarrow> \<not> is_plain_slice e \<Longrightarrow> array_leaf t = (0, t)"
  by (subst array_leaf.simps) (simp add: is_plain_slice_def split: go_type.splits)

lemma array_leaf_deep: "underlying t = TSlice l \<Longrightarrow> underlying l = TSlice e \<Longrightarrow> is_plain_slice l \<Longrightarrow> \<not> is_plain_slice e \<Longrightarrow> array_leaf t = (1, l)"
  using array_leaf_flat [of l e] by (subst array_leaf.simps) (simp add: is_plain_slice_def split: prod.split)

lemma pickSetter_array1:
  assumes "no_scanners env" "underlying t = TSlice e" "is_plain_slice t" "\<not> is_plain_slice e" "ArrayElem oid \<noteq> 0"
    and "pickSetter env p (ArrayElem oid) 1 e = Inr s"
  shows "pickSetter env p oid 1 t = Inr (arraySetter1 s e)"
  using pickSetter_array [OF assms(1,2,3,5)] array_leaf_flat [OF assms(2,4)] assms(2,6) by simp

lemma pickSetter_array2:
  assumes "no_scanners env" "underlying t = TSlice l" "underlying l = TSlice e" "is_plain_slice l" "\<not> is_plain_slice e" "ArrayElem oid \<noteq> 0"
    and "pickSetter env p (ArrayElem oid) 1 e = Inr s"
  shows "pickSetter env p oid 1 t = Inr (arraySetter2 s e)"
proof -
  have "is_plain_slice t"
    using assms(2,3) by (simp add: is_plain_slice_def)
  from pickSetter_array [OF assms(1,2) this assms(6), of p] show ?thesis
    using array_leaf_deep [OF assms(2-5)] assms(3,7) by simp
qed

text \<open>The empty array, at either depth.\<close>

lemma pickSetter_slice:
  assumes "no_scanners env" "underlying t = TSlice e" "is_plain_slice t" "ArrayElem oid \<noteq> 0" "pickSetter env p oid 1 t = Inr s"
  shows "(\<exists>s' u. s = arraySetter1 s' u) \<or> (\<exists>s' u. s = arraySetter2 s' u)"
  using assms(5) unfolding pickSetter_array [OF assms(1-4)]
  by (auto simp: Let_def split: prod.splits go_type.splits if_splits sum.splits)

lemma wrapped_stores:
  assumes "map_of null_types t = Some u" "stores ct u s v (Some r)"
  shows "stores ct t (nullSetterWrap s) (VStruct [v, VBool True]) (Some r)"
proof (rule storesI)
  fix cache assume "cache \<subseteq>\<^sub>m ct"
  with assms(2) obtain c where "c \<subseteq>\<^sub>m ct" "s cache (Some r) (zero_val u) = (c, v, None)"
    by (rule storesE)
  then show "\<exists>cache'. cache' \<subseteq>\<^sub>m ct \<and> nullSetterWrap s cache (Some r) (zero_val t) = (cache', VStruct [v, VBool True], None)"
    by (intro exI [of _ c]) (simp add: nullSetterWrap_def null_type_zero [OF assms(1)])
qed

lemma pointer_stores:
  assumes "stores ct u s v (Some r)"
  shows "stores ct t (pointerSetter s u) (VPtr (Some v)) (Some r)"
proof (rule storesI)
  fix cache assume "cache \<subseteq>\<^sub>m ct"
  with assms obtain c where "c \<subseteq>\<^sub>m ct" "s cache (Some r) (zero_val u) = (c, v, None)"
    by (rule storesE)
  then show "\<exists>cache'. cache' \<subseteq>\<^sub>m ct \<and> pointerSetter s u cache (Some r) (zero_val t) = (cache', VPtr (Some v), None)"
    by (intro exI [of _ c]) (simp add: pointerSetter_def)
qed

lemma composite_stores:
  assumes "underlying t = TStruct fs" "composite_fields t = cfs" "length oids = length cfs" "length vs = length cfs" "length raws = length cfs"
    and "length cfs < 2 ^ 31"
    and "\<And>k. k < length cfs \<Longrightarrow> ct (p @ [k]) = Some (oids ! k)" "\<And>k. k < length cfs \<Longrightarrow> elem_ok (raws ! k)"
    and "\<And>k. k < length cfs \<Longrightarrow> \<exists>s. pickSetter env (p @ [k]) (oids ! k) 1 (snd (cfs ! k)) = Inr s \<and>
           stores ct (snd (cfs ! k)) s (vs ! k) (raws ! k)"
  shows "stores ct t (compositeSetter p (map (\<lambda>(k, j, ft). (j, \<lambda>o'. pickSetter env (p @ [k]) o' 1 ft)) (enumerate 0 cfs)) t)
    (VStruct (fill_fields (map zero_field fs) (zip (map fst cfs) vs))) (Some (comp_wire (zip oids raws)))"
proof (rule storesI)
  fix cache assume cache: "cache \<subseteq>\<^sub>m ct"
  let ?picks = "map (\<lambda>(k, j, ft). (j, \<lambda>o'. pickSetter env (p @ [k]) o' 1 ft)) (enumerate 0 cfs)"
  let ?body = "concat (map (\<lambda>(oid, raw). putU32 oid @ elem_wire raw) (zip oids raws))"
  have zero: "map zero_field fs ! fst (cfs ! k) = zero_val (snd (cfs ! k))" if "k < length cfs" for k
  proof -
    have "(fst (cfs ! k), snd (cfs ! k)) \<in> set (composite_fields t)"
      using that assms(2) by simp
    from composite_fields_at [OF this assms(1)] show ?thesis
      by (simp add: zero_field_type)
  qed
  have pk: "\<exists>pick s ft. ?picks ! (0 + k) = (map fst cfs ! k, pick) \<and> pick (oids ! k) = Inr s \<and> stores ct ft s (vs ! k) (raws ! k) \<and>
      ct (p @ [0 + k]) = Some (oids ! k) \<and> elem_ok (raws ! k) \<and> map zero_field fs ! (map fst cfs ! k) = zero_val ft"
    if "k < length (map fst cfs)" for k
    using that assms(7,8) [of k] assms(9) [of k] zero [of k] by (auto simp: nth_enumerate_eq split: prod.split)
  have "distinct (map fst cfs)"
    using distinct_composite_fields [of t] assms(2) by simp
  from comp_loop_stores [OF _ _ _ _ pk this cache] assms(3-5) obtain c where
      c: "c \<subseteq>\<^sub>m ct" "comp_loop p ?picks (length cfs) 0 cache ?body (map zero_field fs) =
        (c, fill_fields (map zero_field fs) (zip (map fst cfs) vs), None)"
    by auto
  have n: "beI32 (putU32 (word_of_int (int (length cfs))) @ r) = int (length cfs)" for r
    using assms(6) by (intro beI32_put) auto
  show "\<exists>cache'. cache' \<subseteq>\<^sub>m ct \<and> compositeSetter p ?picks t cache (Some (comp_wire (zip oids raws))) (zero_val t) =
      (cache', VStruct (fill_fields (map zero_field fs) (zip (map fst cfs) vs)), None)"
    using c n assms(3,5) by (intro exI [of _ c]) (simp add: compositeSetter_def comp_wire_def zero_by_kind(5) [OF assms(1)])
qed

lemma sends_stored:
  assumes "no_scanners env"
  shows "sends env ct p oid fmt t v raw \<Longrightarrow> \<exists>s. pickSetter env p oid fmt t = Inr s \<and> stores ct t s v raw"
proof (induction rule: sends.induct)
  case (null p oid fmt t s)
  then show ?case
    using pickSetter_null [OF assms null] by (auto simp: null_kept_def stores_def)
next
  case (scalar oid fmt t v r p)
  then obtain c where c: "(if fmt = 1 then pickBinarySetter oid t else pickTextSetter oid t) = Inr c" "\<And>z. c (Some r) z = (v, None)"
    using scalar_cell unfolding cell_stores_def by blast
  then show ?case
    unfolding pickSetter_plain [OF assms scalar_sends_type [OF scalar]] c(1) by (simp add: plain_stores)
next
  case (pointer t u p oid fmt v r)
  then show ?case
    using pickSetter_pointer [OF assms pointer(1)] pointer_stores by blast
next
  case (wrapped t u p oid fmt v r)
  then show ?case
    using pickSetter_wrapped [OF wrapped(1)] wrapped_stores [OF wrapped(1)] by blast
next
  case (empty_range oid flags p)
  then show ?case
    using pickSetter_range [OF assms] plain_stores empty_range_cell by blast
next
  case (range oid flags lo up p)
  then show ?case
    using pickSetter_range [OF assms] plain_stores range_cell by blast
next
  case (empty_array t e oid p s flags eo)
  from pickSetter_slice [OF assms empty_array] empty_array(4) show ?case
    using empty_array_stores by blast
next
  case (array t e oid raws vs p flags eo lb)
  obtain s where s: "pickSetter env p (ArrayElem oid) 1 e = Inr s" "\<And>i. i < length vs \<Longrightarrow> stores ct e s (vs ! i) (raws ! i)"
    using array(6,10) by (metis sum.inject(2))
  then show ?case
    using pickSetter_array1 [OF assms array(1-4) s(1)] array1_stores [OF array(1,5,7)] array(8) by blast
next
  case (matrix t l e oid raws n k vs p flags eo lb lb')
  obtain s where s: "pickSetter env p (ArrayElem oid) 1 e = Inr s" "\<And>i. i < n * k \<Longrightarrow> stores ct e s (vs ! i) (raws ! i)"
    using matrix(8,13) by (metis sum.inject(2))
  then show ?case
    using pickSetter_array2 [OF assms matrix(1-5) s(1)] array2_stores [OF matrix(1,6,7,9,10)] matrix(11) by blast
next
  case (composite t fs cfs oids vs raws p oid)
  show ?case
    using pickSetter_composite [OF assms composite(1-3)] composite_stores [OF composite(1,4,6-11)] composite(4,5,13) by blast
qed

section \<open>Rows\<close>

text \<open>A store through one leaf path is read back there, and nowhere else.\<close>

lemma leaf_get_set: "at_path p t ft \<Longrightarrow> typed t v \<Longrightarrow> get_at p (set_at p x v) = x"
proof (induction p t ft arbitrary: v rule: at_path.induct)
  case (2 i p t ft)
  then obtain vs where "v = VStruct vs" "length vs = length (fields_of t)" "\<And>j. j < length vs \<Longrightarrow> typed (f_type (fields_of t ! j)) (vs ! j)"
    using typed_fields [of t v i] by auto
  then show ?case
    using 2 by simp
qed simp

lemma leaf_get_other:
  "leaf_path p t f \<Longrightarrow> leaf_path q t g \<Longrightarrow> p \<noteq> q \<Longrightarrow> typed t v \<Longrightarrow> get_at q (set_at p x v) = get_at q v"
proof (induction p t f arbitrary: q v rule: leaf_path.induct)
  case (2 i t f)
  then obtain vs where vs: "v = VStruct vs" "length vs = length (fields_of t)"
    using typed_fields [of t v i] by auto
  obtain j q' where q: "q = j # q'"
    using 2 by (cases q) auto
  have "i \<noteq> j"
    using 2 q by (cases q') auto
  then show ?case
    using vs q by simp
next
  case (3 i k p t f)
  then obtain vs where vs: "v = VStruct vs" "length vs = length (fields_of t)" "\<And>j. j < length vs \<Longrightarrow> typed (f_type (fields_of t ! j)) (vs ! j)"
    using typed_fields [of t v i] by auto
  obtain j q' where q: "q = j # q'"
    using 3 by (cases q) auto
  show ?case
  proof (cases "i = j")
    case True
    obtain m q'' where q': "q' = m # q''"
      using 3 q True by (cases q') auto
    have "get_at q' (set_at (k # p) x (vs ! i)) = get_at q' (vs ! i)"
      using "3.IH" [of q' "vs ! i"] "3.prems" vs q q' True by auto
    then show ?thesis
      using vs q True "3.prems" by simp
  next
    case False
    then show ?thesis
      using vs q by simp
  qed
qed simp

lemma fill_loop_wire:
  "elem_ok e \<Longrightarrow> fill_loop (s # ss) cache (elem_wire e @ rest) row =
     (case fill_cell s cache e row of (cache, row, Some err) \<Rightarrow> (cache, row, Some err) | (cache, row, None) \<Rightarrow> fill_loop ss cache rest row)"
proof (cases e)
  case None
  then show ?thesis
    by (simp add: elem_wire_def beI32_null)
next
  case (Some b)
  moreover assume "elem_ok e"
  ultimately have "beI32 (putU32 (word_of_int (int (length b))) @ b @ rest) = int (length b)"
    by (intro beI32_put) (auto simp: elem_ok_def)
  then show ?thesis
    using Some by (simp add: elem_wire_def)
qed

text \<open>Where the columns go, and a row that stands for given values there.\<close>

definition target :: "scan_env \<Rightarrow> go_type \<Rightarrow> Column \<Rightarrow> (nat list \<times> go_field) option" where
  "target env t col = walkStructFields env t [] (ToLower env (Name col))"

definition row_sends :: "scan_env \<Rightarrow> oid_cache \<Rightarrow> go_type \<Rightarrow> nat \<Rightarrow> Column list \<Rightarrow> go_val list \<Rightarrow> bytes option list \<Rightarrow> bool" where
  "row_sends env ct t ci cols vals cells \<longleftrightarrow>
     length vals = length cols \<and> length cells = length cols \<and>
     (\<forall>i < length cols. elem_ok (cells ! i)) \<and>
     (\<forall>i < length cols. \<forall>p f. target env t (cols ! i) = Some (p, f) \<longrightarrow>
        sends env ct [ci + i] (TypeOID (cols ! i)) (Format (cols ! i)) (f_type f) (vals ! i) (cells ! i))"

lemma target_leaf: "target env t col = Some (p, f) \<Longrightarrow> leaf_path p t f"
  using walkStructFields_ok [of t "[]" env] by (auto simp: target_def idx_ok_def)

lemma row_sends_Cons:
  "row_sends env ct t ci (col # cols) (v # vals) (cell # cells) \<longleftrightarrow>
     elem_ok cell \<and> (\<forall>p f. target env t col = Some (p, f) \<longrightarrow> sends env ct [ci] (TypeOID col) (Format col) (f_type f) v cell) \<and>
     row_sends env ct t (ci + 1) cols vals cells"
  by (auto simp: row_sends_def less_Suc_eq_0_disj)

lemma fill_row:
  assumes "no_scanners env" "env_ok env"
  shows "row_sends env ct t ci cols vals cells \<Longrightarrow> distinct (map fst (List.map_filter (target env t) cols)) \<Longrightarrow> typed t row \<Longrightarrow>
    cache \<subseteq>\<^sub>m ct \<Longrightarrow> (\<And>i p f. i < length cols \<Longrightarrow> target env t (cols ! i) = Some (p, f) \<Longrightarrow> get_at p row = zero_val (f_type f)) \<Longrightarrow>
    \<exists>ss cache' row'. plan_setters env (walkStructFields env t []) ci cols = Inr ss \<and>
      fill_loop (map no_inline ss) cache (array_body cells @ rest) row = (cache', row', None) \<and> cache' \<subseteq>\<^sub>m ct \<and> typed t row' \<and>
      (\<forall>i < length cols. \<forall>p f. target env t (cols ! i) = Some (p, f) \<longrightarrow> get_at p row' = vals ! i) \<and>
      (\<forall>q g. leaf_path q t g \<longrightarrow> q \<notin> fst ` set (List.map_filter (target env t) cols) \<longrightarrow> get_at q row' = get_at q row)"
proof (induction cols arbitrary: ci vals cells row cache)
  case Nil
  then show ?case
    by (auto simp: row_sends_def map_filter_simps)
next
  case (Cons col cols)
  obtain v vals' cell cells' where l: "vals = v # vals'" "cells = cell # cells'"
    using Cons.prems(1) by (cases vals; cases cells) (auto simp: row_sends_def)
  have s: "elem_ok cell" "row_sends env ct t (ci + 1) cols vals' cells'"
      "\<And>p f. target env t col = Some (p, f) \<Longrightarrow> sends env ct [ci] (TypeOID col) (Format col) (f_type f) v cell"
    using Cons.prems(1) unfolding l row_sends_Cons by auto
  note wire = fill_loop_wire [OF s(1), where rest = "array_body cells' @ rest"]
  show ?case
  proof (cases "target env t col")
    case None
    have "\<exists>ss cache' row'. plan_setters env (walkStructFields env t []) (ci + 1) cols = Inr ss \<and>
      fill_loop (map no_inline ss) cache (array_body cells' @ rest) row = (cache', row', None) \<and> cache' \<subseteq>\<^sub>m ct \<and> typed t row' \<and>
      (\<forall>i < length cols. \<forall>p f. target env t (cols ! i) = Some (p, f) \<longrightarrow> get_at p row' = vals' ! i) \<and>
      (\<forall>q g. leaf_path q t g \<longrightarrow> q \<notin> fst ` set (List.map_filter (target env t) cols) \<longrightarrow> get_at q row' = get_at q row)"
      using Cons.prems(2) None Cons.prems(5) [of "Suc _"]
      by (intro Cons.IH [OF s(2) _ Cons.prems(3,4)]) (auto simp: map_filter_simps)
    then obtain ss c r where ss: "plan_setters env (walkStructFields env t []) (ci + 1) cols = Inr ss"
        "fill_loop (map no_inline ss) cache (array_body cells' @ rest) row = (c, r, None)" "c \<subseteq>\<^sub>m ct" "typed t r"
        "\<forall>i < length cols. \<forall>p f. target env t (cols ! i) = Some (p, f) \<longrightarrow> get_at p r = vals' ! i"
        "\<forall>q g. leaf_path q t g \<longrightarrow> q \<notin> fst ` set (List.map_filter (target env t) cols) \<longrightarrow> get_at q r = get_at q row"
      by blast
    have "plan_setters env (walkStructFields env t []) ci (col # cols) = Inr (skip_setter # ss)"
      using None ss(1) by (simp add: target_def)
    moreover have "fill_loop (map no_inline (skip_setter # ss)) cache (array_body cells @ rest) row = (c, r, None)"
      unfolding l array_body_simps append_assoc list.map wire using ss(2) by (simp add: fill_cell_def no_inline_def skip_setter_def)
    ultimately show ?thesis
      using ss(3-6) None
      by (intro exI [of _ "skip_setter # ss"] exI [of _ c] exI [of _ r])
         (auto simp: l less_Suc_eq_0_disj map_filter_simps simp del: fill_loop.simps plan_setters.simps)
  next
    case (Some pf)
    obtain p f where pf: "target env t col = Some (p, f)"
      using Some by (cases pf) auto
    note leaf = target_leaf [OF pf]
    obtain setr where setr: "pickSetter env [ci] (TypeOID col) (Format col) (f_type f) = Inr setr" "stores ct (f_type f) setr v cell"
      using sends_stored [OF assms(1) s(3) [OF pf]] by blast
    have zero: "get_at p row = zero_val (f_type f)"
      using Cons.prems(5) [of 0 p f] pf by simp
    obtain c1 where c1: "c1 \<subseteq>\<^sub>m ct" "setr cache cell (zero_val (f_type f)) = (c1, v, None)"
      using setr(2) Cons.prems(4) by (rule storesE)
    have "setter_safe True (f_type f) setr"
      using pickSetter_ok [OF assms(2), of True "f_type f" "[ci]" "TypeOID col" "Format col"] assms(1) setr(1) by (simp add: pick_ok_def)
    then have v: "typed (f_type f) v"
      using setter_safeD [where s = setr, OF _ _ c1(2)] typed_zero by blast
    let ?row = "set_at p v row"
    have typed: "typed t ?row"
      using path_typed [OF leaf_at [OF leaf] Cons.prems(3)] v by blast
    have other: "get_at q ?row = get_at q row" if "leaf_path q t g" "q \<noteq> p" for q g
      using leaf_get_other [OF leaf that(1)] that(2) Cons.prems(3) by blast
    have fresh: "p \<notin> fst ` set (List.map_filter (target env t) cols)" "distinct (map fst (List.map_filter (target env t) cols))"
      using Cons.prems(2) pf by (auto simp: map_filter_simps)
    have next_zero: "get_at p' ?row = zero_val (f_type f')" if "i < length cols" "target env t (cols ! i) = Some (p', f')" for i p' f'
    proof -
      have "(p', f') \<in> set (List.map_filter (target env t) cols)"
        using that nth_mem by (force simp: List.map_filter_def image_iff)
      then have "p' \<noteq> p"
        using fresh(1) by force
      then show ?thesis
        using other [OF target_leaf [OF that(2)]] Cons.prems(5) [of "Suc i"] that by simp
    qed
    obtain ss c r where ss: "plan_setters env (walkStructFields env t []) (ci + 1) cols = Inr ss"
        "fill_loop (map no_inline ss) c1 (array_body cells' @ rest) ?row = (c, r, None)" "c \<subseteq>\<^sub>m ct" "typed t r"
        "\<forall>i < length cols. \<forall>p f. target env t (cols ! i) = Some (p, f) \<longrightarrow> get_at p r = vals' ! i"
        "\<forall>q g. leaf_path q t g \<longrightarrow> q \<notin> fst ` set (List.map_filter (target env t) cols) \<longrightarrow> get_at q r = get_at q ?row"
      using Cons.IH [OF s(2) fresh(2) typed c1(1)] next_zero by blast
    let ?s = "\<lparr>fs_skip = False, fs_path = p, fs_set = setr, fs_op = inlineOpFor (TypeOID col) (Format col) (f_type f)\<rparr>"
    have "plan_setters env (walkStructFields env t []) ci (col # cols) = Inr (?s # ss)"
      using pf ss(1) setr(1) by (simp add: target_def)
    moreover have "fill_loop (map no_inline (?s # ss)) cache (array_body cells @ rest) row = (c, r, None)"
      unfolding l array_body_simps append_assoc list.map wire using ss(2) c1(2) zero
      by (simp add: fill_cell_def no_inline_def split: option.split)
    moreover have "get_at p r = v"
      using ss(6) [rule_format, OF leaf fresh(1)] leaf_get_set [OF leaf_at [OF leaf] Cons.prems(3)] by simp
    moreover have "get_at q r = get_at q row"
      if "leaf_path q t g" "q \<notin> fst ` set (List.map_filter (target env t) (col # cols))" for q g
      using that ss(6) other [OF that(1)] pf by (auto simp: map_filter_simps)
    ultimately show ?thesis
      using ss(3-5) pf
      by (intro exI [of _ "?s # ss"] exI [of _ c] exI [of _ r])
         (auto simp: l less_Suc_eq_0_disj simp del: fill_loop.simps plan_setters.simps)
  qed
qed

lemma get_at_zero: "at_path p t ft \<Longrightarrow> get_at p (zero_val t) = zero_val ft"
proof (induction p t ft rule: at_path.induct)
  case (2 i p t ft)
  then have i: "i < length (fields_of t)"
    by simp
  have "zero_val t = VStruct (map zero_field (fields_of t))"
    using i by (cases "underlying t") (auto simp: fields_of_def zero_by_kind)
  then show ?case
    using 2 i by (simp add: zero_field_type)
qed simp

lemma plan_setters_length: "plan_setters env idx ci cols = Inr ss \<Longrightarrow> length ss = length cols"
proof (induction cols arbitrary: ci ss)
  case (Cons col cols)
  then show ?case
    by (cases "plan_setters env idx (ci + 1) cols") (auto split: option.splits sum.splits prod.splits)
qed simp

text \<open>
  A DataRow whose cells are the wire forms of values: filling succeeds, every mapped field (through
  embedded structs) holds the value its cell stands for, and every other field stays zero.
\<close>

lemma row_roundtrip:
  assumes "no_scanners env" "env_ok env" "row_sends env ct t 0 (Columns plan) vals cells" "length cells < 2 ^ 15"
    and "distinct (map fst (List.map_filter (target env t) (Columns plan)))" "cache \<subseteq>\<^sub>m ct"
  shows "\<exists>setters cache' row. buildStructPlan env t plan = Inr setters \<and>
      fillStructRow setters cache (data_row cells) (zero_val t) = (cache', row, None) \<and> cache' \<subseteq>\<^sub>m ct \<and> typed t row \<and>
      (\<forall>i < length (Columns plan). \<forall>p f. target env t (Columns plan ! i) = Some (p, f) \<longrightarrow> get_at p row = vals ! i) \<and>
      (\<forall>q g. leaf_path q t g \<longrightarrow> q \<notin> fst ` set (List.map_filter (target env t) (Columns plan)) \<longrightarrow> get_at q row = zero_val (f_type g))"
proof -
  have zero: "get_at q (zero_val t) = zero_val (f_type g)" if "leaf_path q t g" for q g
    by (rule get_at_zero [OF leaf_at [OF that]])
  obtain ss c r where ss: "plan_setters env (walkStructFields env t []) 0 (Columns plan) = Inr ss"
      "fill_loop (map no_inline ss) cache (array_body cells @ []) (zero_val t) = (c, r, None)" "c \<subseteq>\<^sub>m ct" "typed t r"
      "\<forall>i < length (Columns plan). \<forall>p f. target env t (Columns plan ! i) = Some (p, f) \<longrightarrow> get_at p r = vals ! i"
      "\<forall>q g. leaf_path q t g \<longrightarrow> q \<notin> fst ` set (List.map_filter (target env t) (Columns plan)) \<longrightarrow> get_at q r = get_at q (zero_val t)"
    using fill_row [OF assms(1,2,3,5) typed_zero assms(6), of "[]"] zero target_leaf by blast
  have len: "length ss = length cells"
    using plan_setters_length [OF ss(1)] assms(3) by (simp add: row_sends_def)
  have n: "beI16 (putU16 (word_of_int (int (length cells))) @ r) = int (length cells)" for r
    using assms(4) by (intro beI16_put) auto
  have "list_all inline_agrees ss"
    by (rule plan_setters_agree [OF _ ss(1)]) (use assms(1) in \<open>simp add: no_scanners_def\<close>)
  then have "fill_loop ss cache (array_body cells) (zero_val t) = (c, r, None)"
    using fill_loop_no_inline ss(2) by simp
  then have "fillStructRow ss cache (data_row cells) (zero_val t) = (c, r, None)"
    using n len by (simp add: fillStructRow_def data_row_def)
  moreover have "buildStructPlan env t plan = Inr ss"
    using ss(1) by (simp add: buildStructPlan_def)
  ultimately show ?thesis
    using ss(3-6) zero by (intro exI [of _ ss] exI [of _ c] exI [of _ r]) simp
qed

text \<open>An \<open>int4[]\<close> cell with a NULL, for a slice of pointers.\<close>

definition ptrs_type :: go_type where
  "ptrs_type = TSlice (TPtr (TInt KInt64))"

definition ptrs_cell :: bytes where
  "ptrs_cell = array_wire 1 OIDInt4 [(2, 1)] [Some (putU32 (word_of_int (- 2))), None]"

lemma ptrs_sends:
  "sends plain_env Map.empty [0] OIDInt4Array 1 ptrs_type (VSlice (Some [VPtr (Some (VInt (- 2))), VPtr None])) (Some ptrs_cell)"
proof -
  have e: "ArrayElem OIDInt4Array = OIDInt4"
    by (simp add: ArrayElem_def)
  have sc: "scalar_type (TInt KInt64)"
    by (rule scalar_types(2)) simp
  have int: "pickSetter plain_env [0] OIDInt4 1 (TInt KInt64) = Inr (plain_setter (the (intSetter (TInt KInt64) 4)))"
    unfolding pickSetter_plain [OF plain_env_ok(2) sc]
    by (simp add: pickBinarySetter_def intSetter_def)
  have "scalar_sends OIDInt4 1 (TInt KInt64) (VInt (- 2)) (putU32 (word_of_int (- 2)))"
    by (rule of_int4 [where k = KInt64]) (simp_all add: in_kind_def kind_signed_def)
  then have one: "sends plain_env Map.empty [0] OIDInt4 1 (TPtr (TInt KInt64)) (VPtr (Some (VInt (- 2)))) (Some (putU32 (word_of_int (- 2))))"
    by (intro pointer scalar) simp_all
  have null: "sends plain_env Map.empty [0] OIDInt4 1 (TPtr (TInt KInt64)) (VPtr None) None"
    using sends.null [OF pickSetter_pointer [OF plain_env_ok(2) _ int, of "TPtr (TInt KInt64)"], of Map.empty] by simp
  let ?raws = "[Some (putU32 (word_of_int (- 2))), None]" and ?vs = "[VPtr (Some (VInt (- 2))), VPtr None]"
  have "sends plain_env Map.empty [0] OIDInt4Array 1 (TSlice (TPtr (TInt KInt64))) (VSlice (Some ?vs)) (Some (array_wire 1 OIDInt4 [(length ?vs, 1)] ?raws))"
  proof (rule array [where e = "TPtr (TInt KInt64)"], unfold e)
    show "sends plain_env Map.empty [0] OIDInt4 1 (TPtr (TInt KInt64)) (?vs ! i) (?raws ! i)" if "i < length ?vs" for i
      using that one null by (auto simp: less_Suc_eq_0_disj)
    show "elem_ok (?raws ! i)" if "i < length ?vs" for i
      using that by (auto simp: less_Suc_eq_0_disj elem_ok_def)
  qed (simp_all add: is_plain_slice_def)
  then show ?thesis
    by (simp add: ptrs_cell_def ptrs_type_def numeral_2_eq_2)
qed

end
