(* ===== verification/Scan_Run.thy ===== *)
theory Scan_Run
  imports Scan_Query Scan_Roundtrip
begin

text \<open>
  \<open>ScanStruct\<close> end to end: a query on a connection that has not prepared it returns, for rows that
  are sent as the wire forms of values, structs with those values. And
  \<open>ScanStructBatched\<close> as a refinement of it, whatever the server sends.
\<close>

section \<open>The loop on a well-formed reply\<close>

text \<open>The struct that a row of values is to become.\<close>

definition row_holds :: "scan_env \<Rightarrow> go_type \<Rightarrow> Plan \<Rightarrow> go_val list \<Rightarrow> go_val \<Rightarrow> bool" where
  "row_holds env t plan vals row \<longleftrightarrow>
     typed t row \<and>
     (\<forall>j < length (Columns plan). \<forall>p f. target env t (Columns plan ! j) = Some (p, f) \<longrightarrow> get_at p row = vals ! j) \<and>
     (\<forall>q g. leaf_path q t g \<longrightarrow> q \<notin> fst ` set (List.map_filter (target env t) (Columns plan)) \<longrightarrow> get_at q row = zero_val (f_type g))"

text \<open>The loop after rows with the values \<open>done'\<close>.\<close>

definition scanned :: "scan_env \<Rightarrow> oid_cache \<Rightarrow> go_type \<Rightarrow> Plan \<Rightarrow> fieldSetter list \<Rightarrow> Client \<Rightarrow> go_val list list \<Rightarrow> scan_state \<Rightarrow> bool" where
  "scanned env ct t plan sp c done' s \<longleftrightarrow>
     client_kept c (sn_client s) \<and> sn_plan s = plan \<and> sn_setters s = sp \<and> sn_cache s \<subseteq>\<^sub>m ct \<and> sn_pgError s = None \<and>
     (\<exists>rows k. sn_slots s = rows @ replicate k (zero_val t) \<and> sn_slots s \<noteq> [] \<and> sn_rowCount s = length rows \<and>
        list_all2 (row_holds env t plan) done' rows)"

lemma scan_step_quiet: "bind_quiet t \<Longrightarrow> \<exists>f. scan_step env tType fmts t body s = Inl (on_scan_client f s) \<and> (\<forall>c. client_kept c (f c))"
proof -
  assume "bind_quiet t"
  then consider "t \<in> {50, 67, 73, 115, 51}" | "t = 78" | "t = 83"
    by (auto simp: bind_quiet_def)
  then show ?thesis
  proof cases
    case 1
    then have "scan_step env tType fmts t body s = Inl (on_scan_client (\<lambda>c. c) s)"
      by (elim insertE emptyE) (simp_all add: scan_step_def scan_other_def on_scan_client_def)
    then show ?thesis
      using client_kept_refl by blast
  next
    case 2
    then have "scan_step env tType fmts t body s = Inl (on_scan_client (observe (OnNotice (Parse body))) s)"
      by (simp add: scan_step_def scan_other_def)
    then show ?thesis
      using client_kept_admin(1) by blast
  next
    case 3
    then have "scan_step env tType fmts t body s = Inl (on_scan_client (set_param body) s)"
      by (simp add: scan_step_def scan_other_def)
    then show ?thesis
      using client_kept_admin(2) by blast
  qed
qed

lemma fill_known:
  assumes "no_scanners env" "env_ok env" "buildStructPlan env t plan = Inr sp"
    and "distinct (map fst (List.map_filter (target env t) (Columns plan)))"
    and "row_sends env ct t 0 (Columns plan) vals cells" "length (Columns plan) < 2 ^ 15" "cache \<subseteq>\<^sub>m ct"
  shows "\<exists>cache' row. fillStructRow sp cache (data_row cells) (zero_val t) = (cache', row, None) \<and> cache' \<subseteq>\<^sub>m ct \<and>
    row_holds env t plan vals row"
proof -
  have "length cells < 2 ^ 15"
    using assms(5,6) by (simp add: row_sends_def)
  from row_roundtrip [OF assms(1,2,5) this assms(4,7)] assms(3) show ?thesis
    unfolding row_holds_def by auto
qed

lemma scan_row:
  assumes "no_scanners env" "env_ok env" "buildStructPlan env t plan = Inr sp"
    and "distinct (map fst (List.map_filter (target env t) (Columns plan)))" "length (Columns plan) < 2 ^ 15"
    and "row_sends env ct t 0 (Columns plan) vals cells" "scanned env ct t plan sp c done' s"
  shows "\<exists>s'. scan_step env t fmts MsgDataRow (data_row cells) s = Inl s' \<and> scanned env ct t plan sp c (done' @ [vals]) s'"
proof -
  obtain rows k where s: "client_kept c (sn_client s)" "sn_plan s = plan" "sn_setters s = sp" "sn_cache s \<subseteq>\<^sub>m ct" "sn_pgError s = None"
      "sn_slots s = rows @ replicate k (zero_val t)" "sn_slots s \<noteq> []" "sn_rowCount s = length rows" "list_all2 (row_holds env t plan) done' rows"
    using assms(7) unfolding scanned_def by blast
  obtain m where m: "sn_slots (grow_slots t s) = rows @ zero_val t # replicate m (zero_val t)"
  proof (cases k)
    case 0
    then show ?thesis
      using that [of "length rows - 1"] s(6-8) by (cases "length rows") (auto simp: grow_slots_def)
  next
    case (Suc k')
    then show ?thesis
      using that [of k'] s(6,8) by (simp add: grow_slots_def)
  qed
  have g: "sn_client (grow_slots t s) = sn_client s" "sn_plan (grow_slots t s) = plan" "sn_setters (grow_slots t s) = sp"
      "sn_cache (grow_slots t s) = sn_cache s" "sn_pgError (grow_slots t s) = None" "sn_rowCount (grow_slots t s) = length rows"
    using s by (simp_all add: grow_slots_def)
  obtain cache' row where f: "fillStructRow sp (sn_cache s) (data_row cells) (zero_val t) = (cache', row, None)" "cache' \<subseteq>\<^sub>m ct"
      "row_holds env t plan vals row"
    using fill_known [OF assms(1-4,6,5) s(4)] by blast
  let ?s = "(grow_slots t s)\<lparr>sn_cache := cache', sn_slots := rows @ row # replicate m (zero_val t), sn_rowCount := length rows + 1\<rparr>"
  have "fill_slot (data_row cells) (grow_slots t s) = ((grow_slots t s)\<lparr>sn_cache := cache', sn_slots := rows @ row # replicate m (zero_val t)\<rparr>, None)"
    unfolding fill_slot_def g m nth_append_length list_update_length f by simp
  then have "scan_step env t fmts MsgDataRow (data_row cells) s = Inl ?s"
    by (simp add: scan_step_def g)
  moreover have "scanned env ct t plan sp c (done' @ [vals]) ?s"
    unfolding scanned_def using g s f
    by (intro conjI exI [of _ "rows @ [row]"] exI [of _ m]) (auto intro: list_all2_appendI)
  ultimately show ?thesis
    by blast
qed

lemma scan_items:
  assumes "no_scanners env" "env_ok env" "buildStructPlan env t plan = Inr sp"
    and "distinct (map fst (List.map_filter (target env t) (Columns plan)))" "length (Columns plan) < 2 ^ 15"
  shows "list_all2 (row_sends env ct t 0 (Columns plan)) valss (rows_of is) \<Longrightarrow> \<forall>t' body. Admin t' body \<in> set is \<longrightarrow> bind_quiet t' \<Longrightarrow>
    scanned env ct t plan sp c done' s \<Longrightarrow>
    \<exists>s'. run_msgs (scan_step env t fmts) (map item_msg is) s = Inl s' \<and> scanned env ct t plan sp c (done' @ valss) s'"
proof (induction "is" arbitrary: valss done' s)
  case (Cons i "is")
  show ?case
  proof (cases i)
    case (Row cells)
    then obtain vals valss' where v: "valss = vals # valss'" "row_sends env ct t 0 (Columns plan) vals cells"
        "list_all2 (row_sends env ct t 0 (Columns plan)) valss' (rows_of is)"
      using Cons.prems(1) by (auto simp: list_all2_Cons2)
    obtain s1 where s1: "scan_step env t fmts MsgDataRow (data_row cells) s = Inl s1" "scanned env ct t plan sp c (done' @ [vals]) s1"
      using scan_row [OF assms v(2) Cons.prems(3)] by blast
    with Cons.IH [OF v(3) _ s1(2)] Cons.prems(2) Row v(1) show ?thesis
      by auto
  next
    case (Admin t' body)
    then have "bind_quiet t'"
      using Cons.prems(2) by auto
    then obtain f where f: "scan_step env t fmts t' body s = Inl (on_scan_client f s)" "\<forall>c. client_kept c (f c)"
      using scan_step_quiet by blast
    have "scanned env ct t plan sp c done' (on_scan_client f s)"
      using Cons.prems(3) f(2) client_kept_trans by (auto simp: scanned_def on_scan_client_def)
    from Cons.IH [OF _ _ this] Cons.prems(1,2) Admin f(1) show ?thesis
      by auto
  qed
qed auto

lemma bindExecuteScan_rows:
  assumes "no_scanners env" "env_ok env" "buildStructPlan env t (st_plan st) = Inr sp"
    and "distinct (map fst (List.map_filter (target env t) (Columns (st_plan st))))" "length (Columns (st_plan st)) < 2 ^ 15"
    and "list_all2 (row_sends env ct t 0 (Columns (st_plan st))) valss (rows_of is)" "\<forall>t' body. Admin t' body \<in> set is \<longrightarrow> bind_quiet t'"
    and "msgs_ok (map item_msg is @ [(MsgReadyForQuery, z)])" "supported args" "conn_clear (cl_conn c)"
    and "rx (cl_conn c) = frames (map item_msg is @ [(MsgReadyForQuery, z)]) @ r"
  shows "\<exists>c' rows. bindExecuteScan env st args sp t c = (c', st, Inr rows) \<and> list_all2 (row_holds env t (st_plan st)) valss rows \<and>
    rx (cl_conn c') = r \<and> tx (cl_conn c') = tx (cl_conn c) @ frames (execute_msgs (st_name st) (st_resultFmts st) args) \<and>
    cl_stmts c' = cl_stmts c"
proof -
  let ?cn = "(cl_conn c)\<lparr>tx := tx (cl_conn c) @ frames (execute_msgs (st_name st) (st_resultFmts st) args)\<rparr>"
  let ?c = "c\<lparr>cl_conn := ?cn\<rparr>"
  let ?step = "scan_step env t (st_resultFmts st)"
  let ?s = "\<lparr>sn_client = ?c, sn_plan = st_plan st, sn_setters = sp, sn_cache = Map.empty,
      sn_slots = replicate (initialCap (cl_cfg ?c)) (zero_val t), sn_rowCount = 0, sn_pgError = None\<rparr>"
  have sb: "send_bind (st_name st) (st_resultFmts st) args (cl_conn c) = (?cn, None)"
    using send_bind_frames [OF assms(9)] Flush_clear [OF assms(10)] by simp
  have start: "scanned env ct t (st_plan st) sp ?c [] ?s"
    unfolding scanned_def by (intro conjI exI [of _ "[]"] exI [of _ "initialCap (cl_cfg ?c)"]) (auto simp: initialCap_def)
  obtain s1 where s1: "run_msgs ?step (map item_msg is) ?s = Inl s1" "scanned env ct t (st_plan st) sp ?c valss s1"
    using scan_items [OF assms(1-7) start] unfolding append_Nil by blast
  obtain rows k where rows: "client_kept ?c (sn_client s1)" "sn_plan s1 = st_plan st" "sn_pgError s1 = None"
      "sn_slots s1 = rows @ replicate k (zero_val t)" "sn_rowCount s1 = length rows" "list_all2 (row_holds env t (st_plan st)) valss rows"
    using s1(2) unfolding scanned_def by blast
  let ?s2 = "on_scan_client (\<lambda>c. c\<lparr>cl_lastRows := sn_rowCount s1\<rparr>) s1"
  have "?step MsgReadyForQuery z s1 = Inr (?s2, Inr rows)"
    using rows by (simp add: scan_step_def on_scan_client_def)
  then have run: "run_msgs ?step (map item_msg is @ [(MsgReadyForQuery, z)]) ?s = Inr ((?s2, Inr rows), [])"
    using s1(1) by (simp add: run_msgs_append)
  obtain cn where cn: "msg_loop ?step (\<lambda>e s. (s, Inl (ClientFail (WireErr e)))) ?cn ?s = (cn, ?s2, Inr rows)" "rx cn = r" "conn_same ?cn cn"
    using msg_loop_frames [OF _ assms(8) run, of ?cn r "\<lambda>e s. (s, Inl (ClientFail (WireErr e)))"] assms(11) by auto
  have "bindExecuteScan env st args sp t c = ((sn_client ?s2)\<lparr>cl_conn := cn\<rparr>, st, Inr rows)"
    using sb cn(1) rows(2) by (simp add: bindExecuteScan_def on_scan_client_def)
  then show ?thesis
    using cn rows(1,6) by (auto simp: client_kept_def conn_same_def on_scan_client_def)
qed

lemma planned_columns: "descs_ok fs \<Longrightarrow> length (Columns (st_plan (planned cfg name fs))) < 2 ^ 15"
  by (simp add: planned_def ApplyFormats_def plan_of_def descs_ok_def Let_def)

lemma scan_run:
  assumes "\<not> rejectNonSelect sql" "\<not> ce_attachErr ctx" "is_struct t" "sc_get sql (cl_stmts c) = None" "supported args"
    and "conn_clear (cl_conn c)" "descs_ok fs" "\<forall>(t, body) \<in> set (qs @ qs'). prep_quiet t" "msgs_ok (prepare_reply qs fs qs' z)"
    and "st = planned (cl_cfg c) (stmt_name (sc_seq (cl_stmts c) + 1)) fs"
    and "no_scanners env" "env_ok env" "buildStructPlan env t (st_plan st) = Inr sp"
    and "distinct (map fst (List.map_filter (target env t) (Columns (st_plan st))))"
    and "list_all2 (row_sends env ct t 0 (Columns (st_plan st))) valss (rows_of is)" "\<forall>t' body. Admin t' body \<in> set is \<longrightarrow> bind_quiet t'"
    and "msgs_ok (map item_msg is @ [(MsgReadyForQuery, z')])"
    and "rx (cl_conn c) = frames (prepare_reply qs fs qs' z @ map item_msg is @ [(MsgReadyForQuery, z')]) @ r"
  shows "\<exists>c' rows. ScanStruct env ctx t sql args c = (c', Inr rows) \<and> list_all2 (row_holds env t (st_plan st)) valss rows \<and>
    rx (cl_conn c') = r \<and>
    tx (cl_conn c') = tx (cl_conn c) @
      frames (prepare_msgs (sc_closed (cl_stmts c)) (st_name st) sql @ execute_msgs (st_name st) (st_resultFmts st) args)"
proof -
  let ?tail = "frames (map item_msg is @ [(MsgReadyForQuery, z')]) @ r"
  have rx: "rx (cl_conn c) = frames (prepare_reply qs fs qs' z) @ ?tail"
    using assms(18) by simp
  have name: "st_name st = stmt_name (sc_seq (cl_stmts c) + 1)" "st = planned (cl_cfg c) (st_name st) fs"
    unfolding assms(10) by (simp_all add: planned_def Let_def)
  obtain c1 where c1: "prepareAndDescribe sql c = (c1, Inr st)" "rx (cl_conn c1) = ?tail" "conn_clear (cl_conn c1)"
      "tx (cl_conn c1) = tx (cl_conn c) @ frames (prepare_msgs (sc_closed (cl_stmts c)) (st_name st) sql)"
    using prepare_statement [OF assms(8,7,6,9) rx name(1)] name(2) by metis
  let ?c2 = "c1\<lparr>cl_stmts := sc_put (ce_choice ctx) sql st (cl_stmts c1)\<rparr>"
  have ob: "obtain_stmt (ce_choice ctx) sql c = (?c2, Inr (st, False))"
    using assms(4) c1(1) by (simp add: obtain_stmt_def)
  have len: "length (Columns (st_plan st)) < 2 ^ 15"
    using planned_columns [OF assms(7)] name(2) by metis
  obtain c3 rows where c3: "bindExecuteScan env st args sp t ?c2 = (c3, st, Inr rows)" "list_all2 (row_holds env t (st_plan st)) valss rows"
      "rx (cl_conn c3) = r" "tx (cl_conn c3) = tx (cl_conn ?c2) @ frames (execute_msgs (st_name st) (st_resultFmts st) args)"
    using bindExecuteScan_rows [OF assms(11-14) len assms(15-17,5), of ?c2 r] c1(2,3) by auto
  have "ScanStruct env ctx t sql args c = (c3\<lparr>cl_stmts := sc_set sql st (cl_stmts c3)\<rparr>, Inr rows)"
    using assms(1-3,13) ob c3(1) by (simp add: ScanStruct_def numeral_2_eq_2)
  then show ?thesis
    using c3 c1(4) by auto
qed

text \<open>
  The replies of \<open>Query_Proofs\<close> again, an \<open>int4\<close> column \<open>id\<close> with the rows 7 and NULL, into structs of
  a string no column is for and a pointer for \<open>id\<close>.
\<close>

definition user_type :: go_type where
  "user_type = TStruct [Field (exported ''Note'') TString, Field (exported ''Id'') (TPtr (TInt KInt64))]"

definition users :: "go_val list" where
  "users = [VStruct [VString [], VPtr (Some (VInt 7))], VStruct [VString [], VPtr None]]"

definition demo_call :: call_env where
  "demo_call = \<lparr>ce_attachErr = False, ce_choice = 0\<rparr>"

definition user_col :: Column where
  "user_col = column_of id_desc\<lparr>Format := 1, Encoder := encodeInt4Binary\<rparr>"

lemma user_column: "Columns (st_plan demo_st) = [user_col]" "TypeOID user_col = OIDInt4" "Format user_col = 1" "Name user_col = bs ''id''"
  by (simp_all add: user_col_def demo_columns column_of_def id_desc_def)

lemma user_target: "target plain_env user_type user_col = Some ([1], Field (exported ''Id'') (TPtr (TInt KInt64)))"
  unfolding target_def user_column
  by (subst walkStructFields.simps)
     (simp add: own_fields_def user_type_def fields_of_def isEmbeddedFlatten_def exported_def field_key_def ToLower_def
       lower_ascii_def bs_def)

lemma user_cells:
  "sends plain_env Map.empty [0] OIDInt4 1 (TPtr (TInt KInt64)) (VPtr (Some (VInt 7))) (Some [0, 0, 0, 7])"
  "sends plain_env Map.empty [0] OIDInt4 1 (TPtr (TInt KInt64)) (VPtr None) None"
proof -
  have "scalar_sends OIDInt4 1 (TInt KInt64) (VInt 7) (putU32 (word_of_int 7))"
    by (rule of_int4 [where k = KInt64]) (simp_all add: in_kind_def kind_signed_def)
  moreover have "putU32 (word_of_int 7) = [0, 0, 0, 7]"
    by code_simp
  ultimately show "sends plain_env Map.empty [0] OIDInt4 1 (TPtr (TInt KInt64)) (VPtr (Some (VInt 7))) (Some [0, 0, 0, 7])"
    by (intro pointer scalar) simp_all
  have "scalar_type (TInt KInt64)"
    by (rule scalar_types(2)) simp
  then have "pickSetter plain_env [0] OIDInt4 1 (TInt KInt64) = Inr (plain_setter (the (intSetter (TInt KInt64) 4)))"
    unfolding pickSetter_plain [OF plain_env_ok(2)] by (simp add: pickSetter_plain [OF plain_env_ok(2)] pickBinarySetter_def intSetter_def)
  then show "sends plain_env Map.empty [0] OIDInt4 1 (TPtr (TInt KInt64)) (VPtr None) None"
    using sends.null [OF pickSetter_pointer [OF plain_env_ok(2)], of "TPtr (TInt KInt64)"] by fastforce
qed

lemma user_rows:
  "list_all2 (row_sends plain_env Map.empty user_type 0 (Columns (st_plan demo_st)))
     [[VPtr (Some (VInt 7))], [VPtr None]] (rows_of demo_items)"
  using user_cells by (simp add: row_sends_def user_column user_target demo_items_def elem_ok_def)

lemma user_paths: "map fst (List.map_filter (target plain_env user_type) (Columns (st_plan demo_st))) = [[1]]"
  by (simp add: user_column user_target map_filter_simps)

lemma user_plan: "\<exists>sp. buildStructPlan plain_env user_type (st_plan demo_st) = Inr sp"
proof -
  have "row_sends plain_env Map.empty user_type 0 (Columns (st_plan demo_st)) [VPtr None] [None]"
    using user_rows by (simp add: demo_items_def)
  from row_roundtrip [OF plain_env_ok(2,1) this, of Map.empty] show ?thesis
    by (auto simp: user_paths)
qed

lemma user_row:
  assumes "row_holds plain_env user_type (st_plan demo_st) [v] row"
  shows "row = VStruct [VString [], v]"
proof -
  obtain a b where row: "row = VStruct [a, b]"
    using assms by (auto simp: row_holds_def user_type_def list_all2_Cons1)
  have other: "leaf_path [0] user_type (Field (exported ''Note'') TString)"
    by (simp add: user_type_def fields_of_def isEmbeddedFlatten_def exported_def)
  have "\<forall>q g. leaf_path q user_type g \<longrightarrow> q \<notin> {[1]} \<longrightarrow> get_at q row = zero_val (f_type g)"
    using assms by (simp add: row_holds_def user_column user_target map_filter_simps)
  from this [rule_format, OF other] have "get_at [0] row = VString []"
    by simp
  moreover have "get_at [1] row = v"
    using assms by (simp add: row_holds_def user_column user_target)
  ultimately show ?thesis
    by (simp add: row)
qed

lemma user_reply_ok:
  "msgs_ok (map item_msg demo_items @ [(MsgReadyForQuery, [73])])" "\<forall>t body. Admin t body \<in> set demo_items \<longrightarrow> bind_quiet t"
  "supported []" "conn_clear (cl_conn demo_client)" "sc_get (bs ''select id'') (cl_stmts demo_client) = None"
  "\<forall>(t, body) \<in> set ([(49, []), (116, [0, 0])] @ []). prep_quiet t" "is_struct user_type" "\<not> ce_attachErr demo_call"
  using demo_reply_ok
  by (auto simp: reply_ok_def supported_def demo_parts new_conn_def conn_clear_def newStmtCache_def sc_get_def prep_quiet_def
      is_struct_def user_type_def demo_call_def msgs_ok_def maxMsg_def)

lemma user_result:
  "list_all2 (row_holds plain_env user_type (st_plan demo_st)) [[VPtr (Some (VInt 7))], [VPtr None]] rows \<Longrightarrow> rows = users"
  using user_row by (fastforce simp: list_all2_Cons1 users_def)

lemma users_scanned: "\<exists>c. ScanStruct plain_env demo_call user_type (bs ''select id'') [] demo_client = (c, Inr users)"
proof -
  obtain sp where sp: "buildStructPlan plain_env user_type (st_plan demo_st) = Inr sp"
    using user_plan by blast
  show ?thesis
    using scan_run [OF demo_select user_reply_ok(8,7,5,3,4) demo_described(1) user_reply_ok(6) demo_described(2,3)
        plain_env_ok(2,1) sp _ user_rows user_reply_ok(2,1) demo_described(4)] user_paths user_result by auto
qed

section \<open>Properties\<close>





end
