(* ===== verification/Stdlib.thy ===== *)
theory Stdlib
  imports Iter Scan_Roundtrip
begin

text \<open>
  \<open>pg2json/stdlib/stdlib.go\<close>: the \<open>database/sql\<close> driver over the row iterator. The client a
  connection owns is with the iterator while rows are open and comes back with it. The methods of
  \<open>database/sql\<close> itself are the callers: they never use a connection with open rows, and hand \<open>Next\<close>
  a slice as wide as \<open>Columns\<close>. Shown: the inline decoding of \<open>Next\<close> is the decoder it stands for, and
  a query through the driver, end to end.
\<close>

section \<open>Connections and arguments\<close>

text \<open>\<open>NilPanic\<close> and \<open>NextPanic\<close> are run-time panics.\<close>

datatype std_error =
    ReadOnly
  | BadConn
  | NamedParam bytes
  | ClientErr client_error
  | EndOfRows
  | ShortDataRow
  | ColumnMismatch int nat
  | ShortColumnHeader
  | BadColumnLength int
  | NilPanic
  | NextPanic

record StdConn =
  sd_client :: "Client option"
  sd_bad :: bool

record Connector =
  ct_cfg :: Config

record NamedValue =
  nv_Name :: bytes
  nv_Ordinal :: nat
  nv_Value :: go_value

record Stmt =
  st_query :: bytes
  st_numInput :: int

text \<open>The environment of \<open>Open\<close> is as in \<open>Client\<close>, the URL parser as in \<open>Config\<close>.\<close>

definition Connect :: "net_conn option \<Rightarrow> tls_env \<Rightarrow> bytes option \<Rightarrow> bool \<Rightarrow> Connector \<Rightarrow> client_error + StdConn" where
  "Connect dial te rand side ct =
     (case Open dial te rand side (ct_cfg ct) of
        Inl err \<Rightarrow> Inl err
      | Inr cl \<Rightarrow> Inr \<lparr>sd_client = Some cl, sd_bad = False\<rparr>)"

definition NewConnector :: "Config \<Rightarrow> Connector" where
  "NewConnector cfg = \<lparr>ct_cfg = cfg\<rparr>"

definition OpenConnector :: "(bytes \<Rightarrow> 'err + url) \<Rightarrow> bytes \<Rightarrow> 'err + Connector" where
  "OpenConnector url_Parse dsn =
     (case ParseDSN url_Parse dsn of Inl err \<Rightarrow> Inl err | Inr cfg \<Rightarrow> Inr \<lparr>ct_cfg = cfg\<rparr>)"

definition Driver_Open :: "(bytes \<Rightarrow> 'err + url) \<Rightarrow> net_conn option \<Rightarrow> tls_env \<Rightarrow> bytes option \<Rightarrow> bool \<Rightarrow> bytes \<Rightarrow>
    ('err + client_error) + StdConn" where
  "Driver_Open url_Parse dial te rand side dsn =
     (case ParseDSN url_Parse dsn of
        Inl err \<Rightarrow> Inl (Inl err)
      | Inr cfg \<Rightarrow>
          (case Open dial te rand side cfg of
             Inl err \<Rightarrow> Inl (Inr err)
           | Inr c \<Rightarrow> Inr \<lparr>sd_client = Some c, sd_bad = False\<rparr>))"

definition PrepareContext :: "bytes \<Rightarrow> Stmt" where
  "PrepareContext query = \<lparr>st_query = query, st_numInput = - 1\<rparr>"

text \<open>\<open>closeErr\<close> is what closing the socket answers.\<close>

definition StdConn_Close :: "client_error option \<Rightarrow> StdConn \<Rightarrow> StdConn \<times> client_error option" where
  "StdConn_Close closeErr conn =
     (case sd_client conn of None \<Rightarrow> (conn, None) | Some _ \<Rightarrow> (conn\<lparr>sd_client := None\<rparr>, closeErr))"

definition BeginTx :: "StdConn \<Rightarrow> StdConn \<times> std_error" where
  "BeginTx conn = (conn, ReadOnly)"

definition ExecContext :: "bytes \<Rightarrow> NamedValue list \<Rightarrow> StdConn \<Rightarrow> StdConn \<times> std_error" where
  "ExecContext query args conn = (conn, ReadOnly)"

definition Stmt_ExecContext :: "Stmt \<Rightarrow> NamedValue list \<Rightarrow> StdConn \<Rightarrow> StdConn \<times> std_error" where
  "Stmt_ExecContext s args conn = (conn, ReadOnly)"

definition StdConn_Ping :: "bool \<Rightarrow> StdConn \<Rightarrow> StdConn \<times> std_error option" where
  "StdConn_Ping ctxDone conn =
     (case sd_client conn of
        None \<Rightarrow> (conn, Some BadConn)
      | Some c \<Rightarrow> (let (c, err) = Ping ctxDone c in (conn\<lparr>sd_client := Some c\<rparr>, map_option ClientErr err)))"

definition IsValid :: "StdConn \<Rightarrow> bool" where
  "IsValid conn \<longleftrightarrow> sd_client conn \<noteq> None \<and> \<not> sd_bad conn"

fun namedToAny :: "NamedValue list \<Rightarrow> std_error + go_value list" where
  "namedToAny [] = Inr []"
| "namedToAny (a # args) =
     (if nv_Name a \<noteq> [] then Inl (NamedParam (nv_Name a)) else map_sum id ((#) (nv_Value a)) (namedToAny args))"

definition valuesToNamed :: "go_value list \<Rightarrow> NamedValue list" where
  "valuesToNamed args = map (\<lambda>(i, v). \<lparr>nv_Name = [], nv_Ordinal = i + 1, nv_Value = v\<rparr>) (enumerate 0 args)"

section \<open>Rows\<close>

datatype next_op =
    OpNextFallback | OpNextInt2 | OpNextInt4 | OpNextInt8 | OpNextFloat4 | OpNextFloat8 | OpNextBool | OpNextText
  | OpNextJSONB | OpNextJSON | OpNextBytea

definition opForNext :: "OID \<Rightarrow> int \<Rightarrow> next_op" where
  "opForNext oid format =
     (if format \<noteq> 1 then OpNextFallback
      else if oid = OIDBool then OpNextBool
      else if oid = OIDInt2 then OpNextInt2
      else if oid = OIDInt4 \<or> oid = OIDOID then OpNextInt4
      else if oid = OIDInt8 then OpNextInt8
      else if oid = OIDFloat4 then OpNextFloat4
      else if oid = OIDFloat8 then OpNextFloat8
      else if oid = OIDText \<or> oid = OIDVarchar \<or> oid = OIDBPChar \<or> oid = OIDName then OpNextText
      else if oid = OIDJSONB then OpNextJSONB
      else if oid = OIDJSON then OpNextJSON
      else if oid = OIDBytea then OpNextBytea
      else OpNextFallback)"

definition DriverValueDecoder :: "OID \<Rightarrow> int \<Rightarrow> bytes \<Rightarrow> driver_value option" where
  "DriverValueDecoder oid format = scannerDecoderFor oid format"

record pgRows =
  pr_it :: Iterator
  pr_decoders :: "(bytes \<Rightarrow> driver_value option) list"
  pr_ops :: "next_op list"
  pr_names :: "bytes list"

text \<open>The plan of an open iterator is never nil.\<close>

definition newRows :: "Iterator \<Rightarrow> pgRows" where
  "newRows it =
     (let cols = Columns (it_plan it)
      in \<lparr>pr_it = it, pr_decoders = map (\<lambda>col. DriverValueDecoder (TypeOID col) (Format col)) cols,
          pr_ops = map (\<lambda>col. opForNext (TypeOID col) (Format col)) cols, pr_names = map Name cols\<rparr>)"

text \<open>The inline switch: a value, or none when the decoder is to be called.\<close>

definition next_inline :: "next_op \<Rightarrow> bytes \<Rightarrow> driver_value option" where
  "next_inline op raw =
     (case op of
        OpNextInt4 \<Rightarrow> if length raw = 4 then Some (DInt (beI32 raw)) else None
      | OpNextInt8 \<Rightarrow> if length raw = 8 then Some (DInt (beI64 raw)) else None
      | OpNextInt2 \<Rightarrow> if length raw = 2 then Some (DInt (beI16 raw)) else None
      | OpNextBool \<Rightarrow> if length raw = 1 then Some (DBool (raw ! 0 \<noteq> 0)) else None
      | OpNextFloat8 \<Rightarrow> if length raw = 8 then Some (DFloat (unat (beU64 raw))) else None
      | OpNextFloat4 \<Rightarrow> if length raw = 4 then Some (DFloat (float64_of_32 (unat (beU32 raw)))) else None
      | OpNextText \<Rightarrow> Some (DString raw)
      | OpNextJSONB \<Rightarrow> if length raw > 0 \<and> raw ! 0 = 1 then Some (DBytes (drop 1 raw)) else None
      | OpNextJSON \<Rightarrow> Some (DBytes raw)
      | OpNextBytea \<Rightarrow> Some (DBytes raw)
      | OpNextFallback \<Rightarrow> None)"

definition next_value :: "next_op \<Rightarrow> (bytes \<Rightarrow> driver_value option) \<Rightarrow> bytes \<Rightarrow> driver_value option" where
  "next_value op decode raw = (case next_inline op raw of Some v \<Rightarrow> Some v | None \<Rightarrow> decode raw)"

text \<open>A store into \<open>dest\<close>, out of range a panic; nil is the value of NULL.\<close>

definition set_dest :: "nat \<Rightarrow> driver_value option \<Rightarrow> driver_value option list \<Rightarrow> driver_value option list option" where
  "set_dest i v dest = (if i < length dest then Some (dest[i := v]) else None)"

fun next_loop :: "nat \<Rightarrow> (next_op \<times> (bytes \<Rightarrow> driver_value option)) list \<Rightarrow> bytes \<Rightarrow> driver_value option list \<Rightarrow>
    driver_value option list \<times> std_error option" where
  "next_loop i [] body dest = (dest, None)"
| "next_loop i ((op, decode) # cols) body dest =
     (if length body < 4 then (dest, Some ShortColumnHeader)
      else
        let l = beI32 body;
            body = drop 4 body
        in if l = - 1 then
             (case set_dest i None dest of
                None \<Rightarrow> (dest, Some NextPanic)
              | Some dest \<Rightarrow> next_loop (i + 1) cols body dest)
           else if l < 0 \<or> l > int (length body) then (dest, Some (BadColumnLength l))
           else
             let raw = take (nat l) body;
                 body = drop (nat l) body
             in case next_value op decode raw of
                  None \<Rightarrow> (dest, Some NextPanic)
                | Some v \<Rightarrow>
                    (case set_dest i (Some v) dest of
                       None \<Rightarrow> (dest, Some NextPanic)
                     | Some dest \<Rightarrow> next_loop (i + 1) cols body dest))"

definition next_row :: "pgRows \<Rightarrow> bytes \<Rightarrow> driver_value option list \<Rightarrow> driver_value option list \<times> std_error option" where
  "next_row r body dest =
     (if length body < 2 then (dest, Some ShortDataRow)
      else
        let n = beI16 body
        in if n \<noteq> int (length (pr_decoders r)) then (dest, Some (ColumnMismatch n (length (pr_decoders r))))
           else next_loop 0 (zip (pr_ops r) (pr_decoders r)) (drop 2 body) dest)"

definition Rows_Next :: "pgRows \<Rightarrow> driver_value option list \<Rightarrow> pgRows \<times> driver_value option list \<times> std_error option" where
  "Rows_Next r dest =
     (case NextRaw (pr_it r) of
        (it, NextEOF) \<Rightarrow> (r\<lparr>pr_it := it\<rparr>, dest, Some EndOfRows)
      | (it, NextErr err) \<Rightarrow> (r\<lparr>pr_it := it\<rparr>, dest, Some (ClientErr err))
      | (it, NextRow body) \<Rightarrow> (let (dest, err) = next_row r body dest in (r\<lparr>pr_it := it\<rparr>, dest, err)))"

definition Rows_Close :: "pgRows \<Rightarrow> pgRows \<times> std_error option" where
  "Rows_Close r = (let (it, err) = it_Close (pr_it r) in (r\<lparr>pr_it := it\<rparr>, map_option ClientErr err))"

section \<open>Queries\<close>

definition QueryContext :: "raw_env \<Rightarrow> bytes \<Rightarrow> NamedValue list \<Rightarrow> StdConn \<Rightarrow> StdConn \<times> (std_error + pgRows)" where
  "QueryContext env query args conn =
     (case namedToAny args of
        Inl err \<Rightarrow> (conn, Inl err)
      | Inr anyArgs \<Rightarrow>
          (case sd_client conn of
             None \<Rightarrow> (conn, Inl (if rejectNonSelect query then ClientErr NotSelect else NilPanic))
           | Some c \<Rightarrow>
               (case RawQuery env query anyArgs c of
                  (c, RawErr (Some err)) \<Rightarrow> (conn\<lparr>sd_client := Some c\<rparr>, Inl (ClientErr err))
                | (c, RawErr None) \<Rightarrow> (conn\<lparr>sd_client := Some c\<rparr>, Inl NilPanic)
                | (c, RawIter it) \<Rightarrow> (conn\<lparr>sd_client := Some c\<rparr>, Inr (newRows it)))))"

definition Stmt_QueryContext :: "raw_env \<Rightarrow> Stmt \<Rightarrow> NamedValue list \<Rightarrow> StdConn \<Rightarrow> StdConn \<times> (std_error + pgRows)" where
  "Stmt_QueryContext env s args conn = QueryContext env (st_query s) args conn"

definition Stmt_Query :: "raw_env \<Rightarrow> Stmt \<Rightarrow> go_value list \<Rightarrow> StdConn \<Rightarrow> StdConn \<times> (std_error + pgRows)" where
  "Stmt_Query env s args conn = Stmt_QueryContext env s (valuesToNamed args) conn"

section \<open>Arguments and cells\<close>

lemma namedToAny_positional: "list_all (\<lambda>a. nv_Name a = []) args \<Longrightarrow> namedToAny args = Inr (map nv_Value args)"
  by (induction args) auto

lemma valuesToNamed_positional: "namedToAny (valuesToNamed args) = Inr args"
proof -
  have "map nv_Value (valuesToNamed args) = args"
    by (simp add: valuesToNamed_def comp_def split_def enumerate_eq_zip)
  moreover have "list_all (\<lambda>a. nv_Name a = []) (valuesToNamed args)"
    by (auto simp: valuesToNamed_def list_all_iff)
  ultimately show ?thesis
    using namedToAny_positional by metis
qed

text \<open>The inline path agrees with the decoder on every cell, well-formed or not.\<close>

lemma next_inline_is_decoder: "next_value (opForNext oid fmt) (DriverValueDecoder oid fmt) raw = DriverValueDecoder oid fmt raw"
  by (cases raw) (simp_all add: next_value_def next_inline_def opForNext_def DriverValueDecoder_def scannerDecoderFor_def strip_version_def)

text \<open>The cells that stand for a driver value; NULL is nil.\<close>

inductive driver_sends :: "OID \<Rightarrow> int \<Rightarrow> driver_value option \<Rightarrow> bytes option \<Rightarrow> bool" where
  dv_null: "driver_sends oid fmt None None"
| dv_bool: "driver_sends OIDBool 1 (Some (DBool b)) (Some [if b then 1 else 0])"
| dv_int2: "in_kind KInt16 i \<Longrightarrow> driver_sends OIDInt2 1 (Some (DInt i)) (Some (putU16 (word_of_int i)))"
| dv_int4: "oid = OIDInt4 \<or> oid = OIDOID \<Longrightarrow> in_kind KInt32 i \<Longrightarrow>
    driver_sends oid 1 (Some (DInt i)) (Some (putU32 (word_of_int i)))"
| dv_int8: "in_kind KInt64 i \<Longrightarrow> driver_sends OIDInt8 1 (Some (DInt i)) (Some (putU64 (word_of_int i)))"
| dv_float4: "n < 2 ^ 32 \<Longrightarrow> driver_sends OIDFloat4 1 (Some (DFloat (float64_of_32 n))) (Some (putU32 (word_of_nat n)))"
| dv_float8: "n < 2 ^ 64 \<Longrightarrow> driver_sends OIDFloat8 1 (Some (DFloat n)) (Some (putU64 (word_of_nat n)))"
| dv_text: "oid \<in> {OIDText, OIDVarchar, OIDBPChar, OIDName} \<Longrightarrow> driver_sends oid 1 (Some (DString r)) (Some r)"
| dv_jsonb: "driver_sends OIDJSONB 1 (Some (DBytes r)) (Some (1 # r))"
| dv_bytes: "fmt \<noteq> 1 \<or> oid \<in> {OIDJSON, OIDBytea, OIDUUID} \<Longrightarrow> driver_sends oid fmt (Some (DBytes r)) (Some r)"
| dv_timestamp: "oid = OIDTimestamp \<or> oid = OIDTimestampTZ \<Longrightarrow> in_kind KInt64 u \<Longrightarrow>
    driver_sends oid 1 (Some (DTime (pgEpochUnixSec + u div 1000000) (u mod 1000000 * 1000))) (Some (putU64 (word_of_int u)))"
| dv_date: "\<bar>d\<bar> \<le> 106751991 \<Longrightarrow>
    driver_sends OIDDate 1 (Some (DTime (pgEpochUnixSec + d * 86400) 0)) (Some (putU32 (word_of_int d)))"

lemma date_decoded:
  assumes "\<bar>d\<bar> \<le> 106751991"
  shows "DriverValueDecoder OIDDate 1 (putU32 (word_of_int d)) = Some (DTime (pgEpochUnixSec + d * 86400) 0)"
proof -
  have b: "beI32 (putU32 (word_of_int d)) = d"
    using assms by (intro beI_put_nil) auto
  have "s64 (d * (86400 * 1000000)) = d * 86400000000"
    using assms s64_id [of "d * 86400000000"] by simp
  then show ?thesis
    unfolding DriverValueDecoder_def scannerDecoderFor_def b
    by (simp add: pgUsecToTime_exact usec_days)
qed

lemma driver_decoded:
  "driver_sends oid fmt v e \<Longrightarrow>
     (case e of None \<Rightarrow> v = None | Some r \<Rightarrow> \<exists>d. v = Some d \<and> DriverValueDecoder oid fmt r = Some d)"
proof (induction rule: driver_sends.induct)
  case (dv_timestamp oid u)
  then have b: "beI64 (putU64 (word_of_int u)) = u"
    using be_in_kind(3) by blast
  have "oid \<noteq> OIDDate" "oid \<noteq> OIDBool" "oid \<noteq> OIDInt2" "oid \<noteq> OIDInt4" "oid \<noteq> OIDOID" "oid \<noteq> OIDInt8" "oid \<noteq> OIDFloat4"
    "oid \<noteq> OIDFloat8" "oid \<noteq> OIDText" "oid \<noteq> OIDVarchar" "oid \<noteq> OIDBPChar" "oid \<noteq> OIDName"
    using dv_timestamp(1) by auto
  then show ?case
    using dv_timestamp(1) by (auto simp: DriverValueDecoder_def scannerDecoderFor_def pgUsecToTime_exact b)
next
  case (dv_date d)
  then show ?case
    using date_decoded by simp
qed (auto simp: DriverValueDecoder_def scannerDecoderFor_def strip_version_def be_in_kind unat_put [simplified])

text \<open>A DataRow, column by column.\<close>

definition values_sent :: "Column list \<Rightarrow> driver_value option list \<Rightarrow> bytes option list \<Rightarrow> bool" where
  "values_sent cols vals cells \<longleftrightarrow>
     length vals = length cols \<and> length cells = length cols \<and>
     (\<forall>i < length cols. elem_ok (cells ! i) \<and> driver_sends (TypeOID (cols ! i)) (Format (cols ! i)) (vals ! i) (cells ! i))"

lemma values_sent_Cons:
  "values_sent (col # cols) vals cells \<longleftrightarrow>
     (\<exists>v vals' e cells'. vals = v # vals' \<and> cells = e # cells' \<and> elem_ok e \<and>
        driver_sends (TypeOID col) (Format col) v e \<and> values_sent cols vals' cells')"
  by (cases vals; cases cells) (auto simp: values_sent_def less_Suc_eq_0_disj)

abbreviation column_dispatch :: "Column \<Rightarrow> next_op \<times> (bytes \<Rightarrow> driver_value option)" where
  "column_dispatch col \<equiv> (opForNext (TypeOID col) (Format col), DriverValueDecoder (TypeOID col) (Format col))"

lemma next_loop_values:
  "values_sent cols vals cells \<Longrightarrow> length dest = length cols \<Longrightarrow>
     next_loop (length pre) (map column_dispatch cols) (array_body cells @ rest) (pre @ dest) = (pre @ vals, None)"
proof (induction cols arbitrary: vals cells pre dest)
  case (Cons col cols)
  obtain v vals' e cells' where v: "vals = v # vals'" "cells = e # cells'" "elem_ok e"
      "driver_sends (TypeOID col) (Format col) v e" "values_sent cols vals' cells'"
    using Cons.prems(1) unfolding values_sent_Cons by blast
  obtain x dest' where dest: "dest = x # dest'"
    using Cons.prems(2) by (cases dest) auto
  have IH: "next_loop (Suc (length pre)) (map column_dispatch cols) (array_body cells' @ rest) (pre @ v # dest') = (pre @ v # vals', None)"
    using Cons.IH [OF v(5), of dest' "pre @ [v]"] Cons.prems(2) dest by simp
  show ?case
  proof (cases e)
    case None
    then show ?thesis
      using driver_decoded [OF v(4)] IH v(1,2) dest by (simp add: elem_wire_def beI32_null set_dest_def)
  next
    case (Some r)
    then have "beI32 (putU32 (word_of_int (int (length r))) @ r @ array_body cells' @ rest) = int (length r)"
      using v(3) by (intro beI32_put) (auto simp: elem_ok_def)
    then show ?thesis
      using driver_decoded [OF v(4)] IH v(1,2) dest Some
      by (auto simp: elem_wire_def set_dest_def next_inline_is_decoder)
  qed
qed (simp add: values_sent_def)

definition rows_over :: "Plan \<Rightarrow> pgRows \<Rightarrow> bool" where
  "rows_over plan r \<longleftrightarrow>
     pr_decoders r = map (\<lambda>col. DriverValueDecoder (TypeOID col) (Format col)) (Columns plan) \<and>
     pr_ops r = map (\<lambda>col. opForNext (TypeOID col) (Format col)) (Columns plan) \<and> pr_names r = map Name (Columns plan)"

lemma newRows_over: "rows_over (it_plan it) (newRows it)" "pr_it (newRows it) = it"
  by (simp_all add: rows_over_def newRows_def Let_def)

lemma next_row_values:
  assumes "rows_over plan r" "values_sent (Columns plan) vals cells" "length (Columns plan) < 2 ^ 15" "length dest = length (Columns plan)"
  shows "next_row r (data_row cells) dest = (vals, None)"
proof -
  have len: "length cells = length (Columns plan)"
    using assms(2) by (simp add: values_sent_def)
  have n: "beI16 (putU16 (word_of_int (int (length cells))) @ b) = int (length cells)" for b
    using assms(3) len by (intro beI16_put) auto
  have "zip (pr_ops r) (pr_decoders r) = map column_dispatch (Columns plan)"
    using assms(1) by (simp add: rows_over_def zip_map_map zip_same_conv_map)
  then show ?thesis
    using n len assms(1) next_loop_values [OF assms(2,4), of "[]" "[]"]
    by (simp add: next_row_def data_row_def rows_over_def)
qed

section \<open>Several rows\<close>

text \<open>The calls of \<open>Next\<close> that \<open>database/sql\<close> makes: what each leaves in \<open>dest\<close>, or its error.\<close>

fun fetch :: "nat \<Rightarrow> pgRows \<Rightarrow> pgRows \<times> (std_error + driver_value option list) list" where
  "fetch 0 r = (r, [])"
| "fetch (Suc n) r =
     (let (r, dest, err) = Rows_Next r (replicate (length (pr_names r)) None);
          (r, rs) = fetch n r
      in (r, (case err of None \<Rightarrow> Inr dest | Some e \<Rightarrow> Inl e) # rs))"

definition row_result :: "pgRows \<Rightarrow> next_result \<Rightarrow> std_error + driver_value option list" where
  "row_result r res =
     (case res of
        NextEOF \<Rightarrow> Inl EndOfRows
      | NextErr e \<Rightarrow> Inl (ClientErr e)
      | NextRow b \<Rightarrow> (case next_row r b (replicate (length (pr_names r)) None) of (dest, None) \<Rightarrow> Inr dest | (dest, Some e) \<Rightarrow> Inl e))"

lemma next_row_it [simp]: "next_row (r\<lparr>pr_it := it\<rparr>) = next_row r"
  by (intro ext) (simp add: next_row_def Let_def cong: if_cong)

lemma row_result_it [simp]: "row_result (r\<lparr>pr_it := it\<rparr>) = row_result r"
  by (intro ext) (simp add: row_result_def cong: next_result.case_cong)

lemma fetch_pulls: "pulls n (pr_it r) = (it', rs) \<Longrightarrow> fetch n r = (r\<lparr>pr_it := it'\<rparr>, map (row_result r) rs)"
proof (induction n arbitrary: r rs)
  case (Suc n)
  obtain it1 res where 1: "NextRaw (pr_it r) = (it1, res)"
    by fastforce
  obtain rs1 where 2: "pulls n it1 = (it', rs1)" "rs = res # rs1"
    using Suc.prems 1 by (auto split: prod.splits)
  have "fetch n (r\<lparr>pr_it := it1\<rparr>) = (r\<lparr>pr_it := it'\<rparr>, map (row_result r) rs1)"
    using Suc.IH [of "r\<lparr>pr_it := it1\<rparr>" rs1] 2(1) by simp
  then show ?case
    using 1 2(2) by (cases res) (auto simp: Rows_Next_def row_result_def split: prod.splits option.splits)
qed simp

lemma row_results:
  assumes "rows_over plan r" "length (Columns plan) < 2 ^ 15"
  shows "list_all2 (values_sent (Columns plan)) valss rows \<Longrightarrow>
    map (row_result r) (map (\<lambda>cells. NextRow (data_row cells)) rows) = map Inr valss"
proof (induction rule: list_all2_induct)
  case (Cons vals valss cells rows)
  have "row_result r (NextRow (data_row cells)) = Inr vals"
    using next_row_values [OF assms(1) Cons(1) assms(2)] assms(1) by (simp add: row_result_def rows_over_def)
  then show ?case
    using Cons by simp
qed simp

lemma planned_width: "descs_ok fs \<Longrightarrow> length (Columns (st_plan (planned cfg name fs))) < 2 ^ 15"
  by (simp add: planned_def ApplyFormats_def plan_of_def descs_ok_def Let_def)

lemma driver_run:
  assumes "\<not> rejectNonSelect sql" "\<not> re_attachErr env" "sc_get sql (cl_stmts c) = None" "supported (map nv_Value args)"
    and "conn_clear (cl_conn c)" "descs_ok fs" "\<forall>(t, body) \<in> set (qs @ qs'). prep_quiet t" "msgs_ok (prepare_reply qs fs qs' z)"
    and "st = planned (cl_cfg c) (stmt_name (sc_seq (cl_stmts c) + 1)) fs"
    and "\<forall>(t, body) \<in> set bs'. start_quiet t" "items_quiet is" "reply_end end' tl'" "msgs_ok (exec_reply bs' b is tl')"
    and "rx (cl_conn c) = frames (prepare_reply qs fs qs' z @ exec_reply bs' b is tl') @ r"
    and "sd_client conn = Some c" "list_all (\<lambda>a. nv_Name a = []) args"
    and "list_all2 (values_sent (Columns (st_plan st))) valss (rows_of is)"
  shows "\<exists>conn' rows rows'. QueryContext env sql args conn = (conn', Inr rows) \<and> pr_names rows = map Name (Columns (st_plan st)) \<and>
           fetch (length (rows_of is) + Suc n) rows =
             (rows', map Inr valss @ replicate (Suc n) (Inl (case end' of Some e \<Rightarrow> ClientErr (PgErr e) | None \<Rightarrow> EndOfRows))) \<and>
           rx (cl_conn (it_c (pr_it rows'))) = r"
proof -
  obtain c' it it' where q: "RawQuery env sql (map nv_Value args) c = (c', RawIter it)" "it_plan it = st_plan st"
      "pulls (length (rows_of is) + Suc n) it =
        (it', map (\<lambda>cells. NextRow (data_row cells)) (rows_of is) @
          replicate (Suc n) (case end' of Some e \<Rightarrow> NextErr (PgErr e) | None \<Rightarrow> NextEOF))"
      "rx (cl_conn (it_c it')) = r"
    using iterate_query [OF assms(1-14), of n] by blast
  have over: "rows_over (st_plan st) (newRows it)"
    using newRows_over(1) [of it] q(2) by simp
  have len: "length (Columns (st_plan st)) < 2 ^ 15"
    using planned_width [OF assms(6)] assms(9) by metis
  have "QueryContext env sql args conn = (conn\<lparr>sd_client := Some c'\<rparr>, Inr (newRows it))"
    using q(1) assms(15) namedToAny_positional [OF assms(16)] by (simp add: QueryContext_def)
  moreover have "row_result (newRows it) (case end' of Some e \<Rightarrow> NextErr (PgErr e) | None \<Rightarrow> NextEOF) =
      Inl (case end' of Some e \<Rightarrow> ClientErr (PgErr e) | None \<Rightarrow> EndOfRows)"
    by (simp add: row_result_def split: option.split)
  then have "fetch (length (rows_of is) + Suc n) (newRows it) =
      ((newRows it)\<lparr>pr_it := it'\<rparr>, map Inr valss @ replicate (Suc n) (Inl (case end' of Some e \<Rightarrow> ClientErr (PgErr e) | None \<Rightarrow> EndOfRows)))"
    using fetch_pulls [of _ "newRows it", unfolded newRows_over(2), OF q(3)] row_results [OF over len assms(17)]
    by (simp add: map_replicate_const del: replicate_Suc)
  ultimately show ?thesis
    using over q(4) by (auto simp: rows_over_def)
qed

section \<open>Properties\<close>


lemma raw_values: "list_all2 (values_sent (Columns (st_plan demo_st))) [[Some (DInt 7)], [None]] (rows_of raw_items)"
proof -
  have "driver_sends OIDInt4 1 (Some (DInt 7)) (Some (putU32 (word_of_int 7)))"
    by (rule dv_int4) (simp_all add: in_kind_def kind_signed_def)
  moreover have "putU32 (word_of_int 7) = [0, 0, 0, 7]"
    by code_simp
  moreover have "Columns (st_plan demo_st) = [column_of id_desc\<lparr>Format := 1, Encoder := encodeInt4Binary\<rparr>]"
    using demo_columns by simp
  ultimately show ?thesis
    using dv_null by (simp add: values_sent_def raw_reply_ok(8) elem_ok_def column_of_def id_desc_def)
qed


end
