(* ===== verification/Ctx.thy ===== *)
theory Ctx
  imports Transition
begin

text \<open>
  \<open>pg2json/ctx.go\<close>: the goroutine that watches the context of a call. Attaching starts it and puts it
  into the map entry of the client; it waits for the context or for the stop channel, and on a
  cancellation sends a CancelRequest and then sets a deadline in the past; detaching closes the stop
  channel, waits for the goroutine and clears the deadline. The parts run in any order, so each is an
  event of a transition system; the calls of one client follow each other. Shown: nothing of a call
  outlives its detach, a call cancels at most once and only when its context ended, and detaching
  never waits for ever.
\<close>

section \<open>State\<close>

datatype watch_phase = Selecting | Cancelling | Expiring | Finished

text \<open>One goroutine: where it stands, whether its context ended, whether its stop channel is closed.\<close>

record watcher =
  wt_phase :: watch_phase
  wt_done :: bool
  wt_stop :: bool

text \<open>
  Goroutines are numbered as they are started; \<open>cx_entry\<close> is the entry of \<open>ctxStates\<close>, \<open>cx_joining\<close>
  the goroutine \<open>detachContext\<close> waits for, \<open>cx_expired\<close> whether the connection has the past deadline,
  \<open>cx_sent\<close> who sent the CancelRequests.
\<close>

record ctx_state =
  cx_watchers :: "watcher list"
  cx_entry :: "nat option"
  cx_joining :: "nat option"
  cx_expired :: bool
  cx_sent :: "nat list"

record go_context =
  gc_err :: bool
  gc_hasDone :: bool

section \<open>Operations\<close>

text \<open>The second component: whether the error of the context is returned.\<close>

definition attachContext :: "go_context option \<Rightarrow> ctx_state \<Rightarrow> ctx_state \<times> bool" where
  "attachContext ctx s =
     (case ctx of
        None \<Rightarrow> (s, False)
      | Some g \<Rightarrow>
          if gc_err g then (s, True)
          else if \<not> gc_hasDone g then (s, False)
          else
            (s\<lparr>cx_watchers := cx_watchers s @ [\<lparr>wt_phase = Selecting, wt_done = False, wt_stop = False\<rparr>],
               cx_entry := Some (length (cx_watchers s))\<rparr>, False))"

definition on_watcher :: "nat \<Rightarrow> (watcher \<Rightarrow> watcher) \<Rightarrow> ctx_state \<Rightarrow> ctx_state" where
  "on_watcher i f s = s\<lparr>cx_watchers := (cx_watchers s)[i := f (cx_watchers s ! i)]\<rparr>"

text \<open>\<open>detachContext\<close> up to the wait, and from its end on.\<close>

definition detach_stop :: "ctx_state \<Rightarrow> ctx_state" where
  "detach_stop s =
     (case cx_entry s of
        None \<Rightarrow> s
      | Some i \<Rightarrow> on_watcher i (\<lambda>w. w\<lparr>wt_stop := True\<rparr>) (s\<lparr>cx_entry := None, cx_joining := Some i\<rparr>))"

definition detach_done :: "ctx_state \<Rightarrow> ctx_state option" where
  "detach_done s =
     (case cx_joining s of
        None \<Rightarrow> None
      | Some i \<Rightarrow>
          if wt_phase (cx_watchers s ! i) = Finished then Some (s\<lparr>cx_joining := None, cx_expired := False\<rparr>) else None)"

text \<open>The goroutine: its \<open>select\<close>, and the two actions of a cancellation; \<open>ok\<close> says whether a request went out.\<close>

definition at_phase :: "nat \<Rightarrow> watch_phase \<Rightarrow> ctx_state \<Rightarrow> bool" where
  "at_phase i p s \<longleftrightarrow> i < length (cx_watchers s) \<and> wt_phase (cx_watchers s ! i) = p"

definition select_done :: "nat \<Rightarrow> ctx_state \<Rightarrow> ctx_state option" where
  "select_done i s =
     (if at_phase i Selecting s \<and> wt_done (cx_watchers s ! i) then Some (on_watcher i (\<lambda>w. w\<lparr>wt_phase := Cancelling\<rparr>) s) else None)"

definition select_stop :: "nat \<Rightarrow> ctx_state \<Rightarrow> ctx_state option" where
  "select_stop i s =
     (if at_phase i Selecting s \<and> wt_stop (cx_watchers s ! i) then Some (on_watcher i (\<lambda>w. w\<lparr>wt_phase := Finished\<rparr>) s) else None)"

definition watch_cancel :: "bool \<Rightarrow> nat \<Rightarrow> ctx_state \<Rightarrow> ctx_state option" where
  "watch_cancel ok i s =
     (if at_phase i Cancelling s
      then Some (on_watcher i (\<lambda>w. w\<lparr>wt_phase := Expiring\<rparr>) (s\<lparr>cx_sent := (if ok then cx_sent s @ [i] else cx_sent s)\<rparr>))
      else None)"

definition watch_expire :: "nat \<Rightarrow> ctx_state \<Rightarrow> ctx_state option" where
  "watch_expire i s =
     (if at_phase i Expiring s then Some (on_watcher i (\<lambda>w. w\<lparr>wt_phase := Finished\<rparr>) (s\<lparr>cx_expired := True\<rparr>)) else None)"

section \<open>The calls of a client as a transition system\<close>

datatype ctx_event =
    Attach "go_context option"
  | ContextDone nat
  | SelectDone nat
  | SelectStop nat
  | SideCancel bool nat
  | PastDeadline nat
  | Detach
  | Join

text \<open>A client is used by one call at a time: a call attaches when the one before has detached.\<close>

inductive ctx_step :: "ctx_state \<Rightarrow> ctx_event \<Rightarrow> ctx_state \<Rightarrow> bool" where
  step_attach: "cx_entry s = None \<Longrightarrow> cx_joining s = None \<Longrightarrow> ctx_step s (Attach g) (fst (attachContext g s))"
| step_context: "i < length (cx_watchers s) \<Longrightarrow> ctx_step s (ContextDone i) (on_watcher i (\<lambda>w. w\<lparr>wt_done := True\<rparr>) s)"
| step_select_done: "select_done i s = Some s' \<Longrightarrow> ctx_step s (SelectDone i) s'"
| step_select_stop: "select_stop i s = Some s' \<Longrightarrow> ctx_step s (SelectStop i) s'"
| step_cancel: "watch_cancel ok i s = Some s' \<Longrightarrow> ctx_step s (SideCancel ok i) s'"
| step_expire: "watch_expire i s = Some s' \<Longrightarrow> ctx_step s (PastDeadline i) s'"
| step_detach: "cx_joining s = None \<Longrightarrow> ctx_step s Detach (detach_stop s)"
| step_join: "detach_done s = Some s' \<Longrightarrow> ctx_step s Join s'"

definition ctx_start :: "ctx_state \<Rightarrow> bool" where
  "ctx_start s \<longleftrightarrow> s = \<lparr>cx_watchers = [], cx_entry = None, cx_joining = None, cx_expired = False, cx_sent = []\<rparr>"

text \<open>The call in flight, attached or detaching.\<close>

definition in_flight :: "ctx_state \<Rightarrow> nat \<Rightarrow> bool" where
  "in_flight s i \<longleftrightarrow> cx_entry s = Some i \<or> cx_joining s = Some i"

text \<open>
  One goroutine, given whether it is of the call in flight, whether it sent a request and whether the
  detach waits for it.
\<close>

definition watcher_ok :: "watcher \<Rightarrow> bool \<Rightarrow> bool \<Rightarrow> bool \<Rightarrow> bool" where
  "watcher_ok w flight sent joining \<longleftrightarrow>
     (wt_phase w \<noteq> Finished \<longrightarrow> flight) \<and> (wt_phase w \<in> {Cancelling, Expiring} \<longrightarrow> wt_done w) \<and>
     (sent \<longrightarrow> wt_done w \<and> wt_phase w \<in> {Expiring, Finished}) \<and> (joining \<longrightarrow> wt_stop w)"

definition watchers_ok :: "ctx_state \<Rightarrow> bool" where
  "watchers_ok s \<longleftrightarrow>
     (\<forall>i < length (cx_watchers s). watcher_ok (cx_watchers s ! i) (in_flight s i) (i \<in> set (cx_sent s)) (cx_joining s = Some i))"

definition ctx_inv :: "ctx_state \<Rightarrow> bool" where
  "ctx_inv s \<longleftrightarrow>
     watchers_ok s \<and> (\<forall>i. in_flight s i \<longrightarrow> i < length (cx_watchers s)) \<and> (cx_entry s = None \<or> cx_joining s = None) \<and>
     (cx_expired s \<longrightarrow> (\<exists>i. in_flight s i)) \<and> (\<forall>i \<in> set (cx_sent s). i < length (cx_watchers s)) \<and> distinct (cx_sent s)"

lemma on_watcher_fields [simp]:
  "cx_entry (on_watcher i f s) = cx_entry s" "cx_joining (on_watcher i f s) = cx_joining s" "cx_sent (on_watcher i f s) = cx_sent s"
  "cx_expired (on_watcher i f s) = cx_expired s" "in_flight (on_watcher i f s) j = in_flight s j"
  "length (cx_watchers (on_watcher i f s)) = length (cx_watchers s)"
  "j < length (cx_watchers s) \<Longrightarrow> cx_watchers (on_watcher i f s) ! j = (if j = i then f (cx_watchers s ! i) else cx_watchers s ! j)"
  by (auto simp: on_watcher_def in_flight_def nth_list_update)

lemma watcher_at: "ctx_inv s \<Longrightarrow> i < length (cx_watchers s) \<Longrightarrow>
    watcher_ok (cx_watchers s ! i) (in_flight s i) (i \<in> set (cx_sent s)) (cx_joining s = Some i)"
  by (simp add: ctx_inv_def watchers_ok_def)

lemma inv_on_watcher:
  "ctx_inv s \<Longrightarrow> i < length (cx_watchers s) \<Longrightarrow>
     watcher_ok (f (cx_watchers s ! i)) (in_flight s i) (i \<in> set (cx_sent s)) (cx_joining s = Some i) \<Longrightarrow> ctx_inv (on_watcher i f s)"
  by (simp add: ctx_inv_def watchers_ok_def)

lemma inv_sent:
  assumes "ctx_inv s" "i < length (cx_watchers s)" "i \<notin> set (cx_sent s)"
    and "watcher_ok (f (cx_watchers s ! i)) (in_flight s i) True (cx_joining s = Some i)"
  shows "ctx_inv (on_watcher i f (s\<lparr>cx_sent := cx_sent s @ [i]\<rparr>))"
proof -
  have f: "in_flight (s\<lparr>cx_sent := x\<rparr>) = in_flight s" for x
    by (simp add: in_flight_def fun_eq_iff)
  show ?thesis
    using assms by (auto simp: ctx_inv_def watchers_ok_def f)
qed

lemma inv_expired:
  assumes "ctx_inv s" "in_flight s i"
  shows "ctx_inv (s\<lparr>cx_expired := True\<rparr>)"
proof -
  have "in_flight (s\<lparr>cx_expired := True\<rparr>) = in_flight s"
    by (simp add: in_flight_def fun_eq_iff)
  then show ?thesis
    using assms by (auto simp: ctx_inv_def watchers_ok_def)
qed

lemma attach_inv:
  assumes "ctx_inv s" "cx_entry s = None" "cx_joining s = None"
  shows "ctx_inv (fst (attachContext g s))"
proof -
  let ?s = "s\<lparr>cx_watchers := cx_watchers s @ [\<lparr>wt_phase = Selecting, wt_done = False, wt_stop = False\<rparr>],
              cx_entry := Some (length (cx_watchers s))\<rparr>"
  have none: "\<not> in_flight s j" for j
    using assms(2,3) by (simp add: in_flight_def)
  have flight: "in_flight ?s j \<longleftrightarrow> j = length (cx_watchers s)" for j
    using assms(3) by (auto simp: in_flight_def)
  have "length (cx_watchers s) \<notin> set (cx_sent s)"
    using assms(1) by (auto simp: ctx_inv_def)
  then have "watcher_ok (cx_watchers ?s ! j) (in_flight ?s j) (j \<in> set (cx_sent ?s)) (cx_joining ?s = Some j)"
    if "j < length (cx_watchers ?s)" for j
    using that watcher_at [OF assms(1), of j] assms(3) none
    by (cases "j = length (cx_watchers s)") (auto simp: flight nth_append watcher_ok_def)
  then have "watchers_ok ?s"
    by (simp add: watchers_ok_def)
  then have "ctx_inv ?s"
    using assms unfolding ctx_inv_def flight by auto
  then show ?thesis
    using assms(1) by (simp add: attachContext_def split: option.split)
qed

lemma watcher_inv:
  assumes "ctx_inv s"
  shows "i < length (cx_watchers s) \<Longrightarrow> ctx_inv (on_watcher i (\<lambda>w. w\<lparr>wt_done := True\<rparr>) s)"
    "select_done i s = Some s' \<Longrightarrow> ctx_inv s'" "select_stop i s = Some s' \<Longrightarrow> ctx_inv s'"
    "watch_cancel ok i s = Some s' \<Longrightarrow> ctx_inv s'" "watch_expire i s = Some s' \<Longrightarrow> ctx_inv s'"
proof -
  note w = watcher_at [OF assms, unfolded watcher_ok_def]
  show "ctx_inv (on_watcher i (\<lambda>w. w\<lparr>wt_done := True\<rparr>) s)" if "i < length (cx_watchers s)"
    using w [OF that] by (intro inv_on_watcher [OF assms that]) (auto simp: watcher_ok_def)
  show "ctx_inv s'" if "select_done i s = Some s'"
  proof -
    have i: "i < length (cx_watchers s)" "wt_phase (cx_watchers s ! i) = Selecting" "wt_done (cx_watchers s ! i)"
        "s' = on_watcher i (\<lambda>w. w\<lparr>wt_phase := Cancelling\<rparr>) s"
      using that by (auto simp: select_done_def at_phase_def split: if_splits)
    show ?thesis
      unfolding i(4) using w [OF i(1)] i(2,3) by (intro inv_on_watcher [OF assms i(1)]) (auto simp: watcher_ok_def)
  qed
  show "ctx_inv s'" if "select_stop i s = Some s'"
  proof -
    have i: "i < length (cx_watchers s)" "wt_phase (cx_watchers s ! i) = Selecting" "s' = on_watcher i (\<lambda>w. w\<lparr>wt_phase := Finished\<rparr>) s"
      using that by (auto simp: select_stop_def at_phase_def split: if_splits)
    show ?thesis
      unfolding i(3) using w [OF i(1)] i(2) by (intro inv_on_watcher [OF assms i(1)]) (auto simp: watcher_ok_def)
  qed
  show "ctx_inv s'" if "watch_cancel ok i s = Some s'"
  proof -
    have i: "i < length (cx_watchers s)" "wt_phase (cx_watchers s ! i) = Cancelling"
        "s' = on_watcher i (\<lambda>w. w\<lparr>wt_phase := Expiring\<rparr>) (s\<lparr>cx_sent := (if ok then cx_sent s @ [i] else cx_sent s)\<rparr>)"
      using that by (auto simp: watch_cancel_def at_phase_def split: if_splits)
    have new: "i \<notin> set (cx_sent s)"
      using w [OF i(1)] i(2) by auto
    show ?thesis
    proof (cases ok)
      case True
      then show ?thesis
        unfolding i(3) using w [OF i(1)] i(2) inv_sent [OF assms i(1) new, of "\<lambda>w. w\<lparr>wt_phase := Expiring\<rparr>"]
        by (auto simp: watcher_ok_def)
    next
      case False
      then show ?thesis
        unfolding i(3) using w [OF i(1)] i(2) inv_on_watcher [OF assms i(1), of "\<lambda>w. w\<lparr>wt_phase := Expiring\<rparr>"]
        by (auto simp: watcher_ok_def)
    qed
  qed
  show "ctx_inv s'" if "watch_expire i s = Some s'"
  proof -
    have i: "i < length (cx_watchers s)" "wt_phase (cx_watchers s ! i) = Expiring"
        "s' = on_watcher i (\<lambda>w. w\<lparr>wt_phase := Finished\<rparr>) (s\<lparr>cx_expired := True\<rparr>)"
      using that by (auto simp: watch_expire_def at_phase_def split: if_splits)
    have x: "ctx_inv (s\<lparr>cx_expired := True\<rparr>)"
      by (rule inv_expired [OF assms, of i]) (use w [OF i(1)] i(2) in auto)
    show ?thesis
      unfolding i(3) using watcher_at [OF x, of i, unfolded watcher_ok_def] i(1,2)
      by (intro inv_on_watcher [OF x]) (auto simp: watcher_ok_def)
  qed
qed

lemma detach_inv:
  assumes "ctx_inv s"
  shows "cx_joining s = None \<Longrightarrow> ctx_inv (detach_stop s)" "detach_done s = Some s' \<Longrightarrow> ctx_inv s'"
proof -
  show "ctx_inv (detach_stop s)" if none: "cx_joining s = None"
  proof (cases "cx_entry s")
    case (Some i)
    let ?s = "s\<lparr>cx_entry := None, cx_joining := Some i\<rparr>" and ?f = "\<lambda>w. w\<lparr>wt_stop := True\<rparr>"
    have flight: "in_flight ?s = in_flight s"
      using none Some by (auto simp: in_flight_def fun_eq_iff)
    have "watcher_ok (cx_watchers (on_watcher i ?f ?s) ! j) (in_flight s j) (j \<in> set (cx_sent s)) (i = j)"
      if "j < length (cx_watchers s)" for j
      using watcher_at [OF assms that] none that by (auto simp: watcher_ok_def)
    then have "watchers_ok (on_watcher i ?f ?s)"
      by (simp add: watchers_ok_def flight)
    then have "ctx_inv (on_watcher i ?f ?s)"
      using assms by (auto simp: ctx_inv_def flight)
    then show ?thesis
      using Some by (simp add: detach_stop_def)
  qed (use assms in \<open>simp add: detach_stop_def\<close>)
  show "ctx_inv s'" if "detach_done s = Some s'"
  proof (cases "cx_joining s")
    case (Some i)
    then have i: "wt_phase (cx_watchers s ! i) = Finished" "s' = s\<lparr>cx_joining := None, cx_expired := False\<rparr>"
      using that by (auto simp: detach_done_def split: if_splits)
    have entry: "cx_entry s = None"
      using assms Some by (simp add: ctx_inv_def)
    have flight: "\<not> in_flight s' j" "in_flight s j \<longleftrightarrow> j = i" for j
      using entry Some i(2) by (auto simp: in_flight_def)
    have "watcher_ok (cx_watchers s ! j) False (j \<in> set (cx_sent s)) False" if "j < length (cx_watchers s)" for j
      using watcher_at [OF assms that] flight(2) i(1) by (cases "j = i") (auto simp: watcher_ok_def)
    then have "watchers_ok s'"
      using i(2) flight(1) by (simp add: watchers_ok_def)
    then show ?thesis
      using assms flight(1) entry i(2) by (auto simp: ctx_inv_def)
  qed (use that in \<open>simp add: detach_done_def\<close>)
qed

lemma step_inv: "ctx_step s e s' \<Longrightarrow> ctx_inv s \<Longrightarrow> ctx_inv s'"
  by (induction rule: ctx_step.induct) (blast intro: attach_inv watcher_inv detach_inv)+

interpretation ctx: inductive_invariant ctx_start ctx_step ctx_inv
proof
  show "ctx_start s \<Longrightarrow> ctx_inv s" for s
    by (simp add: ctx_start_def ctx_inv_def watchers_ok_def in_flight_def)
  show "ctx_inv s \<Longrightarrow> ctx_step s e s' \<Longrightarrow> ctx_inv s'" for s e s'
    by (rule step_inv)
qed

section \<open>Waiting ends\<close>

text \<open>The events of goroutine \<open>i\<close> itself.\<close>

definition own_event :: "nat \<Rightarrow> ctx_event \<Rightarrow> bool" where
  "own_event i e \<longleftrightarrow> e \<in> {SelectStop i, SideCancel True i, PastDeadline i}"

lemma finishes:
  assumes "ctx_inv s" "cx_joining s = Some i"
  shows "\<exists>es s'. ctx.run s es s' \<and> length es \<le> 2 \<and> (\<forall>e \<in> set es. own_event i e) \<and>
           cx_joining s' = Some i \<and> wt_phase (cx_watchers s' ! i) = Finished"
proof -
  have i: "i < length (cx_watchers s)" "wt_stop (cx_watchers s ! i)"
    using assms watcher_at [OF assms(1), of i] by (auto simp: ctx_inv_def in_flight_def watcher_ok_def)
  have expire: "\<exists>s'. ctx_step s (PastDeadline i) s' \<and> cx_joining s' = Some i \<and> wt_phase (cx_watchers s' ! i) = Finished"
    if "wt_phase (cx_watchers s ! i) = Expiring" "i < length (cx_watchers s)" "cx_joining s = Some i" for s
    by (rule exI [of _ "on_watcher i (\<lambda>w. w\<lparr>wt_phase := Finished\<rparr>) (s\<lparr>cx_expired := True\<rparr>)"])
       (use that in \<open>auto simp: watch_expire_def at_phase_def intro: step_expire\<close>)
  show ?thesis
  proof (cases "wt_phase (cx_watchers s ! i)")
    case Selecting
    let ?s = "on_watcher i (\<lambda>w. w\<lparr>wt_phase := Finished\<rparr>) s"
    have "ctx_step s (SelectStop i) ?s"
      using i Selecting by (intro step_select_stop) (simp add: select_stop_def at_phase_def)
    then show ?thesis
      using i(1) assms(2) by (intro exI [of _ "[SelectStop i]"] exI [of _ ?s]) (auto simp: own_event_def intro: ctx.run.intros)
  next
    case Cancelling
    let ?s = "on_watcher i (\<lambda>w. w\<lparr>wt_phase := Expiring\<rparr>) (s\<lparr>cx_sent := cx_sent s @ [i]\<rparr>)"
    have 1: "ctx_step s (SideCancel True i) ?s"
      using i Cancelling by (intro step_cancel) (simp add: watch_cancel_def at_phase_def)
    obtain s' where 2: "ctx_step ?s (PastDeadline i) s'" "cx_joining s' = Some i" "wt_phase (cx_watchers s' ! i) = Finished"
      using expire [of ?s] i(1) assms(2) by auto
    show ?thesis
      using 1 2 by (intro exI [of _ "[SideCancel True i, PastDeadline i]"] exI [of _ s']) (auto simp: own_event_def intro: ctx.run.intros)
  next
    case Expiring
    obtain s' where "ctx_step s (PastDeadline i) s'" "cx_joining s' = Some i" "wt_phase (cx_watchers s' ! i) = Finished"
      using expire [OF Expiring i(1) assms(2)] by blast
    then show ?thesis
      by (intro exI [of _ "[PastDeadline i]"] exI [of _ s']) (auto simp: own_event_def intro: ctx.run.intros)
  next
    case Finished
    then show ?thesis
      using assms(2) by (intro exI [of _ "[]"] exI [of _ s]) (auto intro: ctx.run.intros)
  qed
qed

text \<open>
  Without the discipline of one call at a time a goroutine is lost: a second attach replaces the entry,
  and the detach leaves the first goroutine selecting, never to be stopped.
\<close>

lemma attach_twice_leaks:
  assumes "cx_watchers s = []" "\<not> gc_err g" "gc_hasDone g"
  shows "\<exists>s'. detach_stop (fst (attachContext (Some g) (fst (attachContext (Some g) s)))) = s' \<and>
    length (cx_watchers s') = 2 \<and> cx_watchers s' ! 0 = \<lparr>wt_phase = Selecting, wt_done = False, wt_stop = False\<rparr> \<and>
    cx_entry s' = None \<and> cx_joining s' = Some 1"
  using assms by (simp add: attachContext_def detach_stop_def on_watcher_def)

section \<open>Properties\<close>

text \<open>
  C7. The watcher is contained, for every interleaving of calls, cancellations and goroutines: only the
  goroutine of the call in flight is running, so once a call has detached no CancelRequest can follow
  it and the connection has no deadline; a call sends at most one CancelRequest, and only when its
  context ended; and a detach that waits is never stuck: at most two steps of the goroutine itself and
  it returns.
\<close>

theorem watcher_contained:
  assumes "ctx.reach s"
  shows "(\<forall>i < length (cx_watchers s). wt_phase (cx_watchers s ! i) \<noteq> Finished \<longrightarrow> in_flight s i) \<and>
    (cx_entry s = None \<and> cx_joining s = None \<longrightarrow> \<not> cx_expired s) \<and>
    distinct (cx_sent s) \<and> (\<forall>i \<in> set (cx_sent s). wt_done (cx_watchers s ! i)) \<and>
    (\<forall>i. cx_joining s = Some i \<longrightarrow>
       (\<exists>es s'. ctx.run s (es @ [Join]) s' \<and> length es \<le> 2 \<and> (\<forall>e \<in> set es. own_event i e) \<and> cx_joining s' = None \<and> \<not> cx_expired s'))"
proof (intro conjI allI impI)
  have inv: "ctx_inv s"
    using assms by (rule ctx.reach_inv)
  show "in_flight s i" if "i < length (cx_watchers s)" "wt_phase (cx_watchers s ! i) \<noteq> Finished" for i
    using watcher_at [OF inv that(1)] that(2) by (simp add: watcher_ok_def)
  show "\<not> cx_expired s" if "cx_entry s = None \<and> cx_joining s = None"
    using inv that by (auto simp: ctx_inv_def in_flight_def)
  show "distinct (cx_sent s)"
    using inv by (simp add: ctx_inv_def)
  show "\<forall>i \<in> set (cx_sent s). wt_done (cx_watchers s ! i)"
    using inv watcher_at [OF inv] by (auto simp: ctx_inv_def watcher_ok_def)
  fix i assume "cx_joining s = Some i"
  then obtain es s' where e: "ctx.run s es s'" "length es \<le> 2" "\<forall>e \<in> set es. own_event i e" "cx_joining s' = Some i"
      "wt_phase (cx_watchers s' ! i) = Finished"
    using finishes [OF inv] by blast
  let ?s = "s'\<lparr>cx_joining := None, cx_expired := False\<rparr>"
  have "ctx_step s' Join ?s"
    using e(4,5) by (intro step_join) (simp add: detach_done_def)
  then have "ctx.run s (es @ [Join]) ?s"
    using e(1) by (intro ctx.run_append) (auto intro: ctx.run.intros)
  then show "\<exists>es s'. ctx.run s (es @ [Join]) s' \<and> length es \<le> 2 \<and> (\<forall>e \<in> set es. own_event i e) \<and> cx_joining s' = None \<and> \<not> cx_expired s'"
    using e(2,3) by (intro exI [of _ es] exI [of _ ?s]) simp
qed

text \<open>A call whose context ends while it detaches: the goroutine has left the select and is to be waited for.\<close>

definition cancelled_call :: ctx_state where
  "cancelled_call =
     \<lparr>cx_watchers = [\<lparr>wt_phase = Cancelling, wt_done = True, wt_stop = True\<rparr>], cx_entry = None, cx_joining = Some 0,
      cx_expired = False, cx_sent = []\<rparr>"

lemma cancelled_call_reach: "ctx.reach cancelled_call"
proof -
  let ?s0 = "\<lparr>cx_watchers = [], cx_entry = None, cx_joining = None, cx_expired = False, cx_sent = []\<rparr>"
  let ?g = "Some \<lparr>gc_err = False, gc_hasDone = True\<rparr>"
  let ?s1 = "fst (attachContext ?g ?s0)"
  let ?s2 = "on_watcher 0 (\<lambda>w. w\<lparr>wt_done := True\<rparr>) ?s1"
  let ?s3 = "on_watcher 0 (\<lambda>w. w\<lparr>wt_phase := Cancelling\<rparr>) ?s2"
  have "ctx.reach ?s0"
    by (rule ctx.reach_start) (simp add: ctx_start_def)
  then have 1: "ctx.reach ?s1"
    by (rule ctx.reach_step) (rule step_attach, simp_all)
  then have 2: "ctx.reach ?s2"
    by (rule ctx.reach_step) (rule step_context [where i = 0], simp add: attachContext_def)
  then have 3: "ctx.reach ?s3"
    by (rule ctx.reach_step) (rule step_select_done [where i = 0], simp add: attachContext_def select_done_def at_phase_def on_watcher_def)
  then have "ctx.reach (detach_stop ?s3)"
    by (rule ctx.reach_step) (rule step_detach, simp add: attachContext_def)
  then show ?thesis
    by (simp add: attachContext_def on_watcher_def detach_stop_def cancelled_call_def)
qed

theorem watcher_contained_witness:
  "\<exists>es s'. ctx.run cancelled_call (es @ [Join]) s' \<and> length es \<le> 2 \<and> (\<forall>e \<in> set es. own_event 0 e) \<and> cx_joining s' = None \<and>
     \<not> cx_expired s'"
proof -
  have "cx_joining cancelled_call = Some 0"
    by (simp add: cancelled_call_def)
  then show ?thesis
    using watcher_contained [OF cancelled_call_reach] by blast
qed

end
