(* ===== verification/Spec2Isabelle.thy ===== *)
theory Spec2Isabelle
  imports Types_Numeric Query_Safety Pool Iter Scan_Run Stdlib Ctx
begin

text \<open>
  A verification library for \<open>pg2json\<close>, a PostgreSQL driver that runs SELECT-shaped queries and
  renders the result set directly as JSON, newline-delimited JSON, a columnar JSON object, or TOON.

  \<^bold>\<open>The program and its parts.\<close> A \<open>Client\<close> (\<open>pg2json/conn.go\<close>) owns one framed connection
  (\<open>internal/wire\<close>), negotiates TLS, authenticates (\<open>internal/auth\<close>) and keeps a cache of prepared
  statements (\<open>stmtcache.go\<close>). A query (\<open>query.go\<close>) is prepared once, its RowDescription compiled
  into a plan (\<open>internal/rows\<close>) with one cell encoder per column (\<open>internal/types\<close>, text and binary
  formats), and every DataRow is appended to an output writer (\<open>stream.go\<close>): an in-memory buffer, or
  a writer that flushes whole rows to the caller. JSON strings are escaped by
  \<open>internal/jsonwriter\<close>. Caps abort oversized results with a CancelRequest, and stale statements
  and serialization failures are retried as long as nothing was delivered. The same replies can be
  pulled row by row (\<open>iter.go\<close>), also through \<open>database/sql\<close> (\<open>stdlib.go\<close>), or stored into Go
  structs (\<open>scan.go\<close>).

  \<^bold>\<open>Theories, in the order of the layers.\<close>
  \<^item> \<open>Prelude\<close>: bytes, big-endian integers, decimal rendering, joins. \<open>Transition\<close>: transition
    systems and inductive invariants as locales.
  \<^item> \<open>Json_Grammar\<close>: RFC 8259 as an inductive grammar, the specification of the output.
  \<^item> \<open>Jsonwriter\<close>: the scalar and the SWAR escaper; they agree, and their output unquotes to the
    input (C1, C3).
  \<^item> \<open>Protocol\<close>: message codes and type OIDs.
  \<^item> \<open>Types_Text\<close>, \<open>Types_Time\<close>, \<open>Types_Interval\<close>, \<open>Float_Format\<close>, \<open>Types_Binary\<close>,
    \<open>Types_Numeric\<close>: the cell encoders, behind the locale \<open>cell_encoder\<close>; every cell is one JSON
    text, and dates, times, intervals, integers, arrays and numerics show the value they were sent
    as (C4 to C6, C8, C10 to C12).
  \<^item> \<open>Pgerr\<close> and \<open>Rows\<close>: error fields, plans, and the three row decoders (C13 to C15, C17).
  \<^item> \<open>Wire\<close>: the framed connection with the network in its state (C18, C19).
  \<^item> \<open>Bufferpool\<close> and \<open>Stream\<close>: the shared scratch buffers as a transition system, the two
    writers as interpretations of the locale \<open>out_writer\<close> (C21, C22).
  \<^item> \<open>StmtCache\<close>: the cache contract as the locale \<open>stmt_store\<close>, and the cache together with the
    server's statements as a transition system (C24).
  \<^item> \<open>Crypto\<close> and \<open>Auth\<close>: SHA-256, MD5, HMAC and Base64 of the standard library, and the SCRAM
    client against an RFC 5802 server (C25).
  \<^item> \<open>Config\<close>, \<open>Select_Guard\<close>, \<open>Client\<close>: configuration, the statement guard, TLS negotiation,
    startup, authentication, and the loop over messages every request ends with (C27 to C29).
  \<^item> \<open>Query\<close>: \<open>query.go\<close> and \<open>args.go\<close>. \<open>Query_Exec\<close>: the two result loops as interpretations of
    the locale \<open>result_loop\<close>. \<open>Query_Proofs\<close> and \<open>Query_Safety\<close>: a query end to end, JSON
    output, retries, caps, aborts and result formats (C30 to C35).
  \<^item> \<open>Pool\<close>: the connection pool (\<open>pool/pool.go\<close>) with its callers, waiters and background
    goroutines as a transition system (C36 to C38).
  \<^item> \<open>Iter\<close>: the pull iterator (\<open>iter.go\<close>), a refinement of a cursor over the rows of the reply, and
    its end for any reply, and what closing it early leaves on the connection (C2, C23, C39).
  \<^item> \<open>Scan_Types\<close>: Go types and values as the reflection of \<open>scan.go\<close> sees them. \<open>Scan\<close>: the setters,
    struct plans and \<open>fillStructRow\<close>. \<open>Scan_Proofs\<close>: no cell panics or breaks the type of a row, and
    the inline switch is the setter it replaces (C9, C16). \<open>Scan_Roundtrip\<close>: cells that stand for a
    value are stored as it. \<open>Scan_Query\<close> and \<open>Scan_Run\<close>: \<open>ScanStruct\<close> and \<open>ScanStructBatched\<close>, the
    batches against the rows, and a scan end to end (C20, C40).
  \<^item> \<open>Stdlib\<close>: the \<open>database/sql\<close> driver (\<open>stdlib/stdlib.go\<close>) over the iterator (C26).
  \<^item> \<open>Ctx\<close>: the goroutine that watches the context of a call (\<open>ctx.go\<close>), as a transition system (C7).

  \<^bold>\<open>How state and operations correspond.\<close> A struct is a record with the source's fields, a method a
  function from the state to the new state and its results. Go's \<open>(value, error)\<close> is a sum or a pair
  with an optional error; where the source returns partial work along with the error, the pair keeps
  both. Byte slices are lists of 8-bit words; fixed-width integers are words, or integers with the
  wrap-around written out. A connection carries the bytes its peer will still deliver and the bytes
  it has received, so a failed read is the end of those bytes. Choices of the runtime (map order,
  \<open>sync.Pool\<close>, the clock, random bytes, context cancellation) are arguments.

  \<^bold>\<open>Bounds.\<close> No definition uses fuel: message loops end because every message read shortens the
  incoming bytes, the retry loop because it counts to three, parsers by structural recursion. Limits
  in hypotheses are those of the code or of the protocol: bodies up to 256 MiB, fewer than 32768
  columns, 64-bit counters that have not wrapped.

  \<^bold>\<open>Not modelled.\<close> Socket options and timers, the X.509 and TLS implementations, URL syntax,
  capacities of Go slices, and the programs under \<open>cmd/\<close>. \<open>Ctx\<close> has the watcher on its own; in the
  query theories its effect is an argument (a cancellation shows as the end of the incoming bytes).
  Go types are finite trees here, so a struct that contains itself through a pointer is not
  represented; \<open>int\<close> has 64 bits. A panic is an error value.
\<close>

end
